(* ===== verification/Fec_Prelude.thy ===== *)
theory Fec_Prelude
  imports Main "HOL-Library.Word"
begin

text \<open>
  Shared vocabulary of the development: the machine types of the C++ sources, the
  big-endian accessors of \<^verbatim>\<open>modules/rtp_rtcp/source/byte_io.h\<close>, buffers that grow with
  zero-filled tails, arrays stored row after row in one block, and XOR sums.  The collections
  \<open>fec_buf\<close> and \<open>xsum_simps\<close> carry the component proofs.
\<close>

unbundle bit_operations_syntax

named_theorems fec_buf \<open>reading and writing buffers\<close>
named_theorems xsum_simps \<open>XOR sums\<close>

type_synonym byte = "8 word"
type_synonym u16 = "16 word"
type_synonym u32 = "32 word"

text \<open>Undefined behaviour of C++ (an index past the end, a null pointer, an end iterator, a
  division by zero) and a failed \<^verbatim>\<open>RTC_CHECK\<close> are values here.\<close>

datatype fec_error = OutOfBounds | NullPointer | BadIterator | CheckFailed | DivisionByZero

text \<open>\<^verbatim>\<open>modules/include/module_fec_types.h\<close>\<close>

datatype fec_mask_kind = kFecMaskRandom | kFecMaskBursty

type_synonym 'a result = "fec_error + 'a"

subsection \<open>Finite XOR sums\<close>

primrec xsum :: "(nat \<Rightarrow> byte) \<Rightarrow> nat \<Rightarrow> byte" where
  "xsum f 0 = 0"
| "xsum f (Suc n) = xsum f n XOR f n"

lemma xor_self_left [simp]: "a XOR (a XOR b) = (b :: byte)"
  by (simp flip: xor.assoc)

lemma xor_eq_0_iff: "a XOR b = 0 \<longleftrightarrow> a = (b :: byte)"
proof
  assume "a XOR b = 0"
  then have "a XOR (a XOR b) = a XOR 0" by simp
  then show "a = b" by simp
qed simp

lemma xsum_cong:
  assumes "\<And>j. j < n \<Longrightarrow> f j = g j"
  shows "xsum f n = xsum g n"
  using assms by (induction n) auto

lemma xsum_zero [simp, xsum_simps]: "xsum (\<lambda>_. 0) n = 0"
  by (induction n) auto

lemma xsum_zeroI: "(\<And>j. j < n \<Longrightarrow> f j = 0) \<Longrightarrow> xsum f n = 0"
  by (induction n) auto

lemma xsum_xor [xsum_simps]: "xsum (\<lambda>j. f j XOR g j) n = xsum f n XOR xsum g n"
  by (induction n) (auto simp: ac_simps)

lemma xsum_delta [xsum_simps]:
  "xsum (\<lambda>j. if j = k then f j else 0) n = (if k < n then f k else 0)"
  by (induction n) (auto simp: less_Suc_eq)

lemma xsum_swap: "xsum (\<lambda>i. xsum (\<lambda>j. f i j) m) n = xsum (\<lambda>j. xsum (\<lambda>i. f i j) n) m"
  by (induction n) (auto simp: xsum_xor)

lemma xsum_split: "xsum f (m + n) = xsum f m XOR xsum (\<lambda>j. f (m + j)) n"
  by (induction n) (auto simp: ac_simps)

lemma xsum_Suc_shift: "xsum f (Suc n) = f 0 XOR xsum (\<lambda>j. f (Suc j)) n"
  by (induction n) (auto simp: ac_simps)

lemma xsum_single:
  assumes "k < n" and "\<And>j. j < n \<Longrightarrow> j \<noteq> k \<Longrightarrow> f j = 0"
  shows "xsum f n = f k"
proof -
  have "xsum f n = xsum (\<lambda>j. if j = k then f j else 0) n"
    using assms(2) by (intro xsum_cong) auto
  then show ?thesis using assms(1) by (simp add: xsum_delta)
qed

subsection \<open>Arrays stored row after row\<close>

text \<open>\<open>v[i * cols + j]\<close> and the assignment to it, as the matrix code indexes its blocks.\<close>

definition at2 :: "nat \<Rightarrow> 'a list \<Rightarrow> nat \<Rightarrow> nat \<Rightarrow> 'a" where
  "at2 cols v i j = v ! (i * cols + j)"

definition set2 :: "nat \<Rightarrow> 'a list \<Rightarrow> nat \<Rightarrow> nat \<Rightarrow> 'a \<Rightarrow> 'a list" where
  "set2 cols v i j x = v[i * cols + j := x]"

lemma index2_less: "i < rows \<Longrightarrow> j < cols \<Longrightarrow> i * cols + j < rows * (cols :: nat)"
proof -
  assume a: "i < rows" "j < cols"
  then have "i * cols + j < Suc i * cols" by simp
  also have "\<dots> \<le> rows * cols" using a by (intro mult_le_mono1) simp
  finally show ?thesis .
qed

lemma index2_inj:
  assumes "j < cols" "j' < cols" "i * cols + j = i' * cols + (j' :: nat)"
  shows "i = i' \<and> j = j'"
proof -
  have "(i * cols + j) div cols = i" "(i' * cols + j') div cols = i'"
    using assms(1,2) by simp_all
  then have "i = i'" using assms(3) by metis
  with assms(3) show ?thesis by simp
qed

lemma length_set2 [simp]: "length (set2 cols v i j x) = length v"
  by (simp add: set2_def)

lemma at2_set2:
  assumes "length v = rows * cols" "i < rows" "j < cols" "j' < cols"
  shows "at2 cols (set2 cols v i j x) i' j' = (if i' = i \<and> j' = j then x else at2 cols v i' j')"
proof (cases "i' = i \<and> j' = j")
  case True
  then show ?thesis using assms index2_less [of i rows j cols]
    by (simp add: at2_def set2_def)
next
  case False
  then have "i' * cols + j' \<noteq> i * cols + j" using index2_inj assms by blast
  then show ?thesis using False by (auto simp: at2_def set2_def)
qed

text \<open>
  A loop \<open>for (j = 0; j < m; j++) v[i * cols + j] = f j\<close> whose right-hand side reads the old
  content of the cell it writes and cells of other rows.
\<close>

definition set_row :: "nat \<Rightarrow> nat \<Rightarrow> nat \<Rightarrow> ('a list \<Rightarrow> nat \<Rightarrow> 'a) \<Rightarrow> 'a list \<Rightarrow> 'a list" where
  "set_row cols i m f v = fold (\<lambda>j v. set2 cols v i j (f v j)) [0..<m] v"

lemma set_row_0 [simp]: "set_row cols i 0 f v = v"
  by (simp add: set_row_def)

lemma set_row_Suc:
  "set_row cols i (Suc m) f v =
     set2 cols (set_row cols i m f v) i m (f (set_row cols i m f v) m)"
  by (simp add: set_row_def)

lemma length_set_row [simp]: "length (set_row cols i m f v) = length v"
  by (induction m) (simp_all add: set_row_Suc)

text \<open>What the right-hand side of such a loop may read: nothing that the loop has written.\<close>

definition reads_fresh :: "nat \<Rightarrow> nat \<Rightarrow> nat \<Rightarrow> ('a list \<Rightarrow> nat \<Rightarrow> 'a) \<Rightarrow> 'a list \<Rightarrow> bool" where
  "reads_fresh cols i m f v \<longleftrightarrow> (\<forall>w j. length w = length v \<longrightarrow> j < m \<longrightarrow>
     (\<forall>i' j'. j' < cols \<longrightarrow> i' \<noteq> i \<or> j \<le> j' \<longrightarrow> at2 cols w i' j' = at2 cols v i' j') \<longrightarrow>
     f w j = f v j)"

lemma at2_set_row_upto:
  assumes len: "length v = rows * cols" and i: "i < rows" and m: "m \<le> cols"
    and fresh: "reads_fresh cols i m f v"
  shows "k \<le> m \<Longrightarrow> j' < cols \<Longrightarrow> at2 cols (set_row cols i k f v) i' j' =
           (if i' = i \<and> j' < k then f v j' else at2 cols v i' j')"
proof (induction k arbitrary: i' j')
  case 0
  then show ?case by simp
next
  case (Suc k)
  let ?w = "set_row cols i k f v"
  have k: "k < m" "k < cols" using Suc.prems(1) m by simp_all
  have IH: "at2 cols ?w i' j' = (if i' = i \<and> j' < k then f v j' else at2 cols v i' j')"
    if "j' < cols" for i' j'
    by (rule Suc.IH) (use k that in simp_all)
  have "\<forall>i' j'. j' < cols \<longrightarrow> i' \<noteq> i \<or> k \<le> j' \<longrightarrow> at2 cols ?w i' j' = at2 cols v i' j'"
    using IH by auto
  then have "f ?w k = f v k"
    using fresh k(1) unfolding reads_fresh_def by (metis length_set_row)
  moreover have "at2 cols (set_row cols i (Suc k) f v) i' j' =
      (if i' = i \<and> j' = k then f ?w k else at2 cols ?w i' j')"
    unfolding set_row_Suc
    by (rule at2_set2 [where rows = rows]) (use len i k Suc.prems(2) in simp_all)
  ultimately show ?case
    using IH [OF Suc.prems(2)] by (auto simp: less_Suc_eq)
qed

lemma at2_set_row:
  assumes "length v = rows * cols" "i < rows" "m \<le> cols" "j' < cols" "reads_fresh cols i m f v"
  shows "at2 cols (set_row cols i m f v) i' j' =
           (if i' = i \<and> j' < m then f v j' else at2 cols v i' j')"
  using at2_set_row_upto [OF assms(1,2,3,5), of m j' i'] assms(4) by simp

subsection \<open>Big-endian integers in a buffer\<close>

text \<open>
  \<^verbatim>\<open>ByteReader<uint16_t>\<close>, \<^verbatim>\<open>ByteReader<uint32_t>\<close> and the writers of the same widths.
\<close>

definition ReadBigEndian16 :: "byte list \<Rightarrow> nat \<Rightarrow> u16" where
  "ReadBigEndian16 data i = push_bit 8 (ucast (data ! i)) OR ucast (data ! (i + 1))"

definition ReadBigEndian32 :: "byte list \<Rightarrow> nat \<Rightarrow> u32" where
  "ReadBigEndian32 data i =
     push_bit 24 (ucast (data ! i)) OR push_bit 16 (ucast (data ! (i + 1))) OR
     push_bit 8 (ucast (data ! (i + 2))) OR ucast (data ! (i + 3))"

definition WriteBigEndian16 :: "byte list \<Rightarrow> nat \<Rightarrow> u16 \<Rightarrow> byte list" where
  "WriteBigEndian16 data i val = data[i := ucast (drop_bit 8 val), i + 1 := ucast val]"

definition WriteBigEndian32 :: "byte list \<Rightarrow> nat \<Rightarrow> u32 \<Rightarrow> byte list" where
  "WriteBigEndian32 data i val =
     data[i := ucast (drop_bit 24 val), i + 1 := ucast (drop_bit 16 val),
          i + 2 := ucast (drop_bit 8 val), i + 3 := ucast val]"

lemma length_WriteBigEndian16 [simp, fec_buf]: "length (WriteBigEndian16 data i val) = length data"
  by (simp add: WriteBigEndian16_def)

lemma length_WriteBigEndian32 [simp, fec_buf]: "length (WriteBigEndian32 data i val) = length data"
  by (simp add: WriteBigEndian32_def)

lemma join16: "push_bit 8 (ucast (ucast (drop_bit 8 x) :: byte)) OR ucast (ucast x :: byte) = (x :: u16)"
  by (rule bit_word_eqI) (auto simp: bit_simps)

lemma join32:
  "push_bit 24 (ucast (ucast (drop_bit 24 x) :: byte)) OR
   push_bit 16 (ucast (ucast (drop_bit 16 x) :: byte)) OR
   push_bit 8 (ucast (ucast (drop_bit 8 x) :: byte)) OR ucast (ucast x :: byte) = (x :: u32)"
proof (rule bit_word_eqI)
  fix n
  assume "n < LENGTH(32)"
  then consider "n < 8" | "8 \<le> n" "n < 16" | "16 \<le> n" "n < 24" | "24 \<le> n" "n < 32"
    by fastforce
  then show "bit (push_bit 24 (ucast (ucast (drop_bit 24 x) :: byte)) OR
     push_bit 16 (ucast (ucast (drop_bit 16 x) :: byte)) OR
     push_bit 8 (ucast (ucast (drop_bit 8 x) :: byte)) OR ucast (ucast x :: byte) :: u32) n = bit x n"
    by cases (auto simp: bit_simps)
qed

lemma split16_hi: "ucast (drop_bit 8 (push_bit 8 (ucast a) OR ucast b :: u16)) = (a :: byte)" for b :: byte
  by (rule bit_word_eqI) (auto simp: bit_simps dest: bit_imp_le_length)

lemma split16_lo: "ucast (push_bit 8 (ucast a) OR ucast b :: u16) = (b :: byte)" for a :: byte
  by (rule bit_word_eqI) (auto simp: bit_simps)

lemma Read_Write16 [fec_buf]:
  "i + 1 < length data \<Longrightarrow> ReadBigEndian16 (WriteBigEndian16 data i val) i = val"
  by (simp add: ReadBigEndian16_def WriteBigEndian16_def join16)

lemma Read_Write32 [fec_buf]:
  "i + 3 < length data \<Longrightarrow> ReadBigEndian32 (WriteBigEndian32 data i val) i = val"
  by (simp add: ReadBigEndian32_def WriteBigEndian32_def join32)

lemma nth_Write16 [fec_buf]:
  "k < length data \<Longrightarrow> k \<noteq> i \<Longrightarrow> k \<noteq> i + 1 \<Longrightarrow> WriteBigEndian16 data i val ! k = data ! k"
  by (simp add: WriteBigEndian16_def)

lemma nth_Write32 [fec_buf]:
  "k < length data \<Longrightarrow> k < i \<or> i + 3 < k \<Longrightarrow> WriteBigEndian32 data i val ! k = data ! k"
  by (auto simp: WriteBigEndian32_def nth_list_update)

lemma split32:
  fixes a b c d :: byte
  defines "w \<equiv> push_bit 24 (ucast a) OR push_bit 16 (ucast b) OR push_bit 8 (ucast c) OR ucast d :: u32"
  shows "ucast (drop_bit 24 w) = a" "ucast (drop_bit 16 w) = b" "ucast (drop_bit 8 w) = c" "ucast w = d"
  unfolding w_def by (rule bit_word_eqI; auto simp: bit_simps dest: bit_imp_le_length)+

lemma nth_Write_Read16:
  assumes "i + 1 < length d"
  shows "WriteBigEndian16 d i (ReadBigEndian16 p j) ! i = p ! j"
    "WriteBigEndian16 d i (ReadBigEndian16 p j) ! (i + 1) = p ! (j + 1)"
  using assms by (simp_all add: WriteBigEndian16_def ReadBigEndian16_def split16_hi split16_lo del: drop_bit_or)

lemma nth_Write_Read32:
  assumes "i + 3 < length d" "k < 4"
  shows "WriteBigEndian32 d i (ReadBigEndian32 p j) ! (i + k) = p ! (j + k)"
proof -
  have "k = 0 \<or> k = 1 \<or> k = 2 \<or> k = 3" using assms(2) by linarith
  thus ?thesis using assms(1)
    by (auto simp: WriteBigEndian32_def ReadBigEndian32_def split32 simp del: drop_bit_or)
qed

subsection \<open>Buffers\<close>

abbreviation (input) kRtpHeaderSize :: nat where
  "kRtpHeaderSize \<equiv> 12"

abbreviation (input) IP_PACKET_SIZE :: nat where
  "IP_PACKET_SIZE \<equiv> 1500"

text \<open>\<^verbatim>\<open>SetSize\<close> to a larger size; the new bytes are zeros.\<close>

definition grow :: "byte list \<Rightarrow> nat \<Rightarrow> byte list" where
  "grow d n = d @ replicate (n - length d) 0"

lemma length_grow [simp]: "length (grow d n) = max (length d) n"
  by (simp add: grow_def)

lemma nth_grow: "i < length (grow d n) \<Longrightarrow> grow d n ! i = (if i < length d then d ! i else 0)"
  by (auto simp: grow_def nth_append)

subsection \<open>Loops that may fail\<close>

fun map_result :: "('a \<Rightarrow> 'b result) \<Rightarrow> 'a list \<Rightarrow> 'b list result" where
  "map_result f [] = Inr []"
| "map_result f (x # xs) =
     (case f x of Inl e \<Rightarrow> Inl e
      | Inr y \<Rightarrow> (case map_result f xs of Inl e \<Rightarrow> Inl e | Inr ys \<Rightarrow> Inr (y # ys)))"

lemma map_result_Inr:
  "(\<And>x. x \<in> set xs \<Longrightarrow> f x = Inr (g x)) \<Longrightarrow> map_result f xs = Inr (map g xs)"
  by (induction xs) auto

end
