(* ===== verification/Galois.thy ===== *)
theory Galois
  imports Fec_Prelude
begin

text \<open>
  The finite field the Reed-Solomon code computes in.  The arithmetic itself is the third-party
  Jerasure and GF-Complete library behind \<^verbatim>\<open>RS_FEC/Galois/galois.h\<close>
  (\<^verbatim>\<open>galois_single_multiply\<close>, \<^verbatim>\<open>galois_single_divide\<close> with \<^verbatim>\<open>w = 8\<close>), so it is a parameter
  of the model: two C functions from \<^verbatim>\<open>int\<close> to \<^verbatim>\<open>int\<close>.  The locale \<open>galois_field\<close>
  names what the code relies on (a field with 256 elements whose addition is XOR) and
  \<open>galois_primitive\<close> adds that 2 generates the non-zero elements.  Both are interpreted on
  the carry-less multiplication modulo the library's default polynomial 0x11d.
\<close>

subsection \<open>The C interface at byte width\<close>

type_synonym gf_op = "int \<Rightarrow> int \<Rightarrow> int"

text \<open>Bytes are promoted to \<^verbatim>\<open>int\<close> for the call and the result is stored in a byte.\<close>

definition gf8 :: "gf_op \<Rightarrow> byte \<Rightarrow> byte \<Rightarrow> byte" where
  "gf8 g a b = word_of_int (g (uint a) (uint b))"

primrec gf_pow :: "gf_op \<Rightarrow> byte \<Rightarrow> nat \<Rightarrow> byte" where
  "gf_pow g a 0 = 1"
| "gf_pow g a (Suc n) = gf8 g (gf_pow g a n) a"

text \<open>Multiplication alone: a commutative ring with XOR as its addition.\<close>

locale galois_ring =
  fixes gmul :: gf_op
  assumes mul_range: "0 \<le> gmul (uint (a :: byte)) (uint (b :: byte)) \<and> gmul (uint a) (uint b) < 256"
    and mul_commute: "gf8 gmul a b = gf8 gmul b a"
    and mul_assoc: "gf8 gmul (gf8 gmul a b) c = gf8 gmul a (gf8 gmul b c)"
    and mul_one: "gf8 gmul 1 a = a"
    and mul_xor: "gf8 gmul a (b XOR c) = gf8 gmul a b XOR gf8 gmul a c"
begin

lemma mul_one_right: "gf8 gmul a 1 = a"
  by (subst mul_commute) (rule mul_one)

lemma mul_zero: "gf8 gmul a 0 = 0"
  using mul_xor [of a 0 0] by simp

lemma mul_zero_left: "gf8 gmul 0 a = 0"
  by (subst mul_commute) (rule mul_zero)

lemma xor_mul: "gf8 gmul (a XOR b) c = gf8 gmul a c XOR gf8 gmul b c"
  by (simp only: mul_commute [of _ c] mul_xor)

lemma mul_left_commute: "gf8 gmul a (gf8 gmul b c) = gf8 gmul b (gf8 gmul a c)"
  by (metis mul_assoc mul_commute)

lemmas mul_ac = mul_assoc mul_commute mul_left_commute

lemma uint_mul: "uint (gf8 gmul a b) = gmul (uint a) (uint b)"
  using mul_range [of a b] by (simp add: gf8_def uint_word_of_int)

lemma mul_xsum: "gf8 gmul c (xsum f n) = xsum (\<lambda>j. gf8 gmul c (f j)) n"
  by (induction n) (simp_all add: mul_zero mul_xor)

lemma xsum_mul: "gf8 gmul (xsum f n) c = xsum (\<lambda>j. gf8 gmul (f j) c) n"
  by (induction n) (simp_all add: mul_zero_left xor_mul)

lemma pow_add: "gf_pow gmul a (m + n) = gf8 gmul (gf_pow gmul a m) (gf_pow gmul a n)"
  by (induction n) (simp_all add: mul_one_right mul_assoc)

lemma pow_mult: "gf_pow gmul a (m * n) = gf_pow gmul (gf_pow gmul a m) n"
  by (induction n) (simp_all add: pow_add mul_commute)

lemma pow_pow_commute: "gf_pow gmul (gf_pow gmul a m) n = gf_pow gmul (gf_pow gmul a n) m"
  by (metis mult.commute pow_mult)

lemma pow_of_one: "gf_pow gmul 1 n = 1"
  by (induction n) (simp_all add: mul_one)

end

text \<open>With division: a field.  Nothing is required of a division by zero.\<close>

locale galois_field = galois_ring +
  fixes gdiv :: gf_op
  assumes div_range: "b \<noteq> 0 \<Longrightarrow> 0 \<le> gdiv (uint (a :: byte)) (uint (b :: byte)) \<and> gdiv (uint a) (uint b) < 256"
    and div_mul: "b \<noteq> 0 \<Longrightarrow> gf8 gmul (gf8 gdiv a b) b = a"
begin

lemma mul_cancel:
  assumes "c \<noteq> 0" "gf8 gmul a c = gf8 gmul b c"
  shows "a = b"
proof -
  have inv: "gf8 gmul (gf8 gmul x c) (gf8 gdiv 1 c) = x" for x
    by (simp only: mul_assoc mul_commute [of c] div_mul [OF assms(1)] mul_one_right)
  show ?thesis by (metis inv assms(2))
qed

lemma mul_eq_0: "gf8 gmul a b = 0 \<Longrightarrow> a = 0 \<or> b = 0"
  using mul_cancel [of b a 0] by (auto simp: mul_zero_left)

lemma div_nonzero: "b \<noteq> 0 \<Longrightarrow> gf8 gdiv 1 b \<noteq> 0"
  using div_mul [of b 1] by (auto simp: mul_zero_left)

lemma uint_div: "b \<noteq> 0 \<Longrightarrow> uint (gf8 gdiv a b) = gdiv (uint a) (uint b)"
  using div_range [of b a] by (simp add: gf8_def uint_word_of_int)

lemma pow_nonzero: "a \<noteq> 0 \<Longrightarrow> gf_pow gmul a n \<noteq> 0"
  by (induction n) (auto dest: mul_eq_0)

end

locale galois_primitive = galois_field +
  assumes two_order: "i < 255 \<Longrightarrow> j < 255 \<Longrightarrow> gf_pow gmul 2 i = gf_pow gmul 2 j \<Longrightarrow> i = j"

subsection \<open>The instance: carry-less multiplication modulo 0x11d\<close>

text \<open>Multiplication by the generator 2: a shift, reduced by the polynomial.\<close>

definition xtime :: "byte \<Rightarrow> byte" where
  "xtime a = (if bit a 7 then push_bit 1 a XOR 29 else push_bit 1 a)"

fun gf_shift_add :: "nat \<Rightarrow> byte \<Rightarrow> byte \<Rightarrow> byte" where
  "gf_shift_add 0 a b = 0"
| "gf_shift_add (Suc n) a b = (if bit b 0 then a else 0) XOR gf_shift_add n (xtime a) (drop_bit 1 b)"

definition gf256_mul :: gf_op where
  "gf256_mul a b = uint (gf_shift_add 8 (word_of_int a) (word_of_int b))"

text \<open>Division multiplies by the 254th power; a zero divisor gives -1, as the library documents.\<close>

definition gf256_div :: gf_op where
  "gf256_div a b =
     (if b = 0 then -1
      else gf256_mul a (uint (gf_pow gf256_mul (word_of_int b) 254)))"

lemma gf8_gf256_mul: "gf8 gf256_mul a b = gf_shift_add 8 a b"
  by (simp add: gf8_def gf256_mul_def)

lemma xtime_xor: "xtime (a XOR b) = xtime a XOR xtime b"
  by (auto simp: xtime_def bit_simps push_bit_xor ac_simps)

lemma xtime_zero [simp]: "xtime 0 = 0"
  by (simp add: xtime_def)

lemma gf_shift_add_xor_right:
  "gf_shift_add n a (b XOR c) = gf_shift_add n a b XOR gf_shift_add n a c"
  by (induction n arbitrary: a b c) (auto simp: bit_simps drop_bit_xor ac_simps)

lemma gf_shift_add_xor_left:
  "gf_shift_add n (a XOR b) c = gf_shift_add n a c XOR gf_shift_add n b c"
  by (induction n arbitrary: a b c) (auto simp: xtime_xor ac_simps)

lemma gf_shift_add_xtime: "gf_shift_add n (xtime a) b = xtime (gf_shift_add n a b)"
  by (induction n arbitrary: a b) (auto simp: xtime_xor)

lemma gf_shift_add_xsum:
  "gf_shift_add n a b = xsum (\<lambda>i. if bit b i then (xtime ^^ i) a else 0) n"
proof (induction n arbitrary: a b)
  case (Suc n)
  have "gf_shift_add (Suc n) a b =
      (if bit b 0 then a else 0) XOR
      xsum (\<lambda>i. if bit b (Suc i) then (xtime ^^ i) (xtime a) else 0) n"
    by (simp add: Suc.IH bit_simps)
  then show ?case
    unfolding xsum_Suc_shift by (simp add: funpow_swap1 cong: if_cong)
qed simp

lemma xtime_pow_small: "i < 8 \<Longrightarrow> (xtime ^^ i) 1 = push_bit i 1"
proof (induction i)
  case (Suc i)
  then show ?case by (simp add: xtime_def bit_simps)
qed simp

lemma bit_xsum_bits:
  "n \<le> 8 \<Longrightarrow> bit (xsum (\<lambda>i. if bit b i then push_bit i 1 else 0) n) k \<longleftrightarrow> k < n \<and> bit b k"
  by (induction n) (auto simp: bit_simps less_Suc_eq)

lemma gf_shift_add_one: "gf_shift_add 8 1 b = b"
proof -
  have "gf_shift_add 8 1 b = xsum (\<lambda>i. if bit b i then push_bit i 1 else 0) 8"
    unfolding gf_shift_add_xsum by (intro xsum_cong) (simp add: xtime_pow_small)
  then show ?thesis
    by (auto intro!: bit_word_eqI simp: bit_xsum_bits)
qed

lemma gf_shift_add_xtime_pow: "gf_shift_add 8 ((xtime ^^ i) 1) b = (xtime ^^ i) b"
  by (induction i) (simp_all add: gf_shift_add_one gf_shift_add_xtime)

text \<open>
  The antilog table: the powers of 2 up to the 255th.  The order of 2 is 255, as it divides
  \<open>255 = 3 * 5 * 17\<close> and none of the maximal proper divisors 85, 51 and 15.
\<close>

definition gf_exp_table :: "byte list" where
  "gf_exp_table =
   [1, 2, 4, 8, 16, 32, 64, 128, 29, 58, 116, 232, 205, 135, 19, 38, 76, 152, 45, 90, 180,
    117, 234, 201, 143, 3, 6, 12, 24, 48, 96, 192, 157, 39, 78, 156, 37, 74, 148, 53, 106,
    212, 181, 119, 238, 193, 159, 35, 70, 140, 5, 10, 20, 40, 80, 160, 93, 186, 105, 210, 185,
    111, 222, 161, 95, 190, 97, 194, 153, 47, 94, 188, 101, 202, 137, 15, 30, 60, 120, 240,
    253, 231, 211, 187, 107, 214, 177, 127, 254, 225, 223, 163, 91, 182, 113, 226, 217, 175,
    67, 134, 17, 34, 68, 136, 13, 26, 52, 104, 208, 189, 103, 206, 129, 31, 62, 124, 248, 237,
    199, 147, 59, 118, 236, 197, 151, 51, 102, 204, 133, 23, 46, 92, 184, 109, 218, 169, 79,
    158, 33, 66, 132, 21, 42, 84, 168, 77, 154, 41, 82, 164, 85, 170, 73, 146, 57, 114, 228,
    213, 183, 115, 230, 209, 191, 99, 198, 145, 63, 126, 252, 229, 215, 179, 123, 246, 241,
    255, 227, 219, 171, 75, 150, 49, 98, 196, 149, 55, 110, 220, 165, 87, 174, 65, 130, 25,
    50, 100, 200, 141, 7, 14, 28, 56, 112, 224, 221, 167, 83, 166, 81, 162, 89, 178, 121, 242,
    249, 239, 195, 155, 43, 86, 172, 69, 138, 9, 18, 36, 72, 144, 61, 122, 244, 245, 247, 243,
    251, 235, 203, 139, 11, 22, 44, 88, 176, 125, 250, 233, 207, 131, 27, 54, 108, 216, 173,
    71, 142, 1]"

lemma gf_exp_table_steps: "successively (\<lambda>a b. xtime a = b) gf_exp_table"
  by (simp add: gf_exp_table_def xtime_def)

lemma successively_funpow:
  "successively (\<lambda>a b. f a = b) xs \<Longrightarrow> i < length xs \<Longrightarrow> xs ! i = (f ^^ i) (xs ! 0)"
proof (induction i)
  case (Suc i)
  from Suc.prems have "f (xs ! i) = xs ! Suc i" by (simp add: successively_conv_nth)
  moreover from Suc have "xs ! i = (f ^^ i) (xs ! 0)" by simp
  ultimately show ?case by simp
qed simp

lemma xtime_pow_table: "i < 256 \<Longrightarrow> (xtime ^^ i) 1 = gf_exp_table ! i"
proof -
  assume "i < 256"
  moreover have "length gf_exp_table = 256" by (simp add: gf_exp_table_def)
  moreover have "gf_exp_table ! 0 = 1" by (simp add: gf_exp_table_def)
  ultimately show ?thesis
    using successively_funpow [OF gf_exp_table_steps, of i] by simp
qed

lemma xtime_pow_values:
  "(xtime ^^ 255) 1 = 1" "(xtime ^^ 85) 1 \<noteq> 1" "(xtime ^^ 51) 1 \<noteq> 1" "(xtime ^^ 15) 1 \<noteq> 1"
  by (simp_all add: xtime_pow_table gf_exp_table_def)

lemma xtime_eq_0: "xtime a = 0 \<Longrightarrow> a = 0"
proof (rule ccontr)
  assume z: "xtime a = 0" and "a \<noteq> 0"
  then obtain k where k: "bit a k" by (auto simp: bit_eq_iff)
  then have "k < 8" using bit_imp_le_length by fastforce
  show False
  proof (cases "bit a 7")
    case True
    then have "bit (xtime a) 0" by (simp add: xtime_def bit_simps mult.commute [of a 2])
    with z show False by simp
  next
    case False
    with k have "k \<noteq> 7" by metis
    with k False \<open>k < 8\<close> have "bit (xtime a) (Suc k)" by (simp add: xtime_def bit_simps mult.commute [of a 2])
    with z show False by simp
  qed
qed

lemma xtime_inj: "xtime a = xtime b \<Longrightarrow> a = b"
proof -
  assume "xtime a = xtime b"
  then have "xtime (a XOR b) = 0" by (simp add: xtime_xor)
  then show "a = b" using xtime_eq_0 xor_eq_0_iff by blast
qed

lemma xtime_pow_inj: "(xtime ^^ n) a = (xtime ^^ n) b \<Longrightarrow> a = b"
  by (induction n) (auto dest: xtime_inj)

lemma xtime_pow_nonzero: "(xtime ^^ n) 1 \<noteq> 0"
  by (induction n) (auto dest: xtime_eq_0)

lemma xtime_pow_period: "(xtime ^^ d) 1 = 1 \<Longrightarrow> (xtime ^^ (d * k)) 1 = 1"
  by (induction k) (simp_all add: funpow_add)

lemma divisor_255:
  fixes g :: nat
  assumes "g dvd 255" "g \<noteq> 255"
  shows "g dvd 85 \<or> g dvd 51 \<or> g dvd 15"
proof -
  obtain k where k: "255 = g * k" using assms(1) unfolding dvd_def by blast
  have "k \<noteq> 0" "g \<noteq> 0" using k by (metis mult_is_0 zero_neq_numeral)+
  then have g: "g = 255 div k" and k': "k = 255 div g"
    unfolding k by simp_all
  show ?thesis
  proof (cases "k \<le> 17")
    case True
    then have "k = 0 \<or> k = 1 \<or> k = 2 \<or> k = 3 \<or> k = 4 \<or> k = 5 \<or> k = 6 \<or> k = 7 \<or> k = 8 \<or>
        k = 9 \<or> k = 10 \<or> k = 11 \<or> k = 12 \<or> k = 13 \<or> k = 14 \<or> k = 15 \<or> k = 16 \<or> k = 17"
      by presburger
    with k g assms(2) show ?thesis by (elim disjE) simp_all
  next
    case False
    have "g < 15"
    proof (rule ccontr)
      assume "\<not> g < 15"
      then have "15 * 18 \<le> g * k" using False by (intro mult_le_mono) auto
      with k show False by simp
    qed
    then have "g = 0 \<or> g = 1 \<or> g = 2 \<or> g = 3 \<or> g = 4 \<or> g = 5 \<or> g = 6 \<or> g = 7 \<or> g = 8 \<or>
        g = 9 \<or> g = 10 \<or> g = 11 \<or> g = 12 \<or> g = 13 \<or> g = 14"
      by presburger
    with k k' show ?thesis by (elim disjE) simp_all
  qed
qed

lemma xtime_pow_period_255:
  assumes "(xtime ^^ d) 1 = 1" "0 < d" "d < 255"
  shows False
proof -
  let ?g = "gcd d 255"
  obtain x y where xy: "d * x = 255 * y + ?g" using bezout_nat [of d 255] assms(2) by auto
  have "(xtime ^^ ?g) ((xtime ^^ (255 * y)) 1) = (xtime ^^ (d * x)) 1"
    unfolding xy by (simp add: funpow_add add.commute [of "255 * y"])
  also have "\<dots> = 1" using assms(1) by (rule xtime_pow_period)
  finally have g: "(xtime ^^ ?g) 1 = 1"
    using xtime_pow_period [OF xtime_pow_values(1)] by simp
  have "?g \<le> d" using assms(2) by (simp add: gcd_le1_nat)
  then have "?g \<noteq> 255" using assms(3) by simp
  then have "?g dvd 85 \<or> ?g dvd 51 \<or> ?g dvd 15" by (intro divisor_255) simp_all
  then show False
    using xtime_pow_period [OF g] xtime_pow_values(2,3,4) by (auto elim!: dvdE)
qed

lemma xtime_pow_distinct:
  assumes "(xtime ^^ i) 1 = (xtime ^^ j) 1" "i < 255" "j < 255"
  shows "i = j"
proof -
  have "\<not> i < j" if eq: "(xtime ^^ i) 1 = (xtime ^^ j) 1" and j: "j < 255" for i j
  proof
    assume "i < j"
    then have "(xtime ^^ i) 1 = (xtime ^^ i) ((xtime ^^ (j - i)) 1)"
      using eq by (simp flip: funpow_add comp_apply [of "xtime ^^ i"])
    then have "(xtime ^^ (j - i)) 1 = 1" using xtime_pow_inj by metis
    then show False by (rule xtime_pow_period_255) (use \<open>i < j\<close> j in simp_all)
  qed
  from this [of i j] this [of j i] show ?thesis using assms by force
qed

lemma gf_log_exists: "a \<noteq> 0 \<Longrightarrow> \<exists>i < 255. a = (xtime ^^ i) 1"
proof -
  let ?E = "(\<lambda>i. (xtime ^^ i) 1) ` {..<255}"
  have "inj_on (\<lambda>i. (xtime ^^ i) 1) {..<255}"
    by (auto intro!: inj_onI dest: xtime_pow_distinct)
  then have "card ?E = 255" by (simp add: card_image)
  moreover have "card (UNIV - {0 :: byte}) = 255" by (simp add: card_word)
  moreover have "?E \<subseteq> UNIV - {0}" using xtime_pow_nonzero by auto
  ultimately have "?E = UNIV - {0}" by (intro card_subset_eq) simp_all
  moreover assume "a \<noteq> 0"
  ultimately show ?thesis by blast
qed

subsection \<open>The instance satisfies the laws\<close>

lemma gf_shift_add_zero_left: "gf_shift_add n 0 b = 0"
  by (induction n arbitrary: b) simp_all

lemma gf_shift_add_zero_right: "gf_shift_add n a 0 = 0"
  by (induction n arbitrary: a) simp_all

lemma gf_shift_add_xtime_pow_left:
  "gf_shift_add n ((xtime ^^ i) a) b = (xtime ^^ i) (gf_shift_add n a b)"
  by (induction i) (simp_all add: gf_shift_add_xtime)

lemma gf_shift_add_commute: "gf_shift_add 8 a b = gf_shift_add 8 b a"
proof (cases "a = 0 \<or> b = 0")
  case True
  then show ?thesis by (auto simp: gf_shift_add_zero_left gf_shift_add_zero_right)
next
  case False
  then obtain i j where "a = (xtime ^^ i) 1" "b = (xtime ^^ j) 1"
    using gf_log_exists by meson
  then show ?thesis
    by (simp only: gf_shift_add_xtime_pow) (simp flip: funpow_add comp_apply [of "xtime ^^ _"] add: add.commute)
qed

lemma gf_shift_add_assoc:
  "gf_shift_add 8 (gf_shift_add 8 a b) c = gf_shift_add 8 a (gf_shift_add 8 b c)"
proof (cases "a = 0")
  case True
  then show ?thesis by (simp add: gf_shift_add_zero_left)
next
  case False
  then obtain i where "a = (xtime ^^ i) 1" using gf_log_exists by blast
  then show ?thesis
    by (simp only: gf_shift_add_xtime_pow_left gf_shift_add_one)
qed

interpretation gf256r: galois_ring gf256_mul
proof unfold_locales
  fix a b c :: byte
  show "0 \<le> gf256_mul (uint a) (uint b) \<and> gf256_mul (uint a) (uint b) < 256"
    using uint_bounded [of "gf_shift_add 8 a b"] by (simp add: gf256_mul_def)
  show "gf8 gf256_mul a b = gf8 gf256_mul b a"
    unfolding gf8_gf256_mul by (rule gf_shift_add_commute)
  show "gf8 gf256_mul (gf8 gf256_mul a b) c = gf8 gf256_mul a (gf8 gf256_mul b c)"
    unfolding gf8_gf256_mul by (rule gf_shift_add_assoc)
  show "gf8 gf256_mul 1 a = a"
    unfolding gf8_gf256_mul by (rule gf_shift_add_one)
  show "gf8 gf256_mul a (b XOR c) = gf8 gf256_mul a b XOR gf8 gf256_mul a c"
    unfolding gf8_gf256_mul by (rule gf_shift_add_xor_right)
qed

lemma gf256_pow_two: "gf_pow gf256_mul 2 i = (xtime ^^ i) 1"
proof (induction i)
  case (Suc i)
  have "xtime 1 = 2" by (simp add: xtime_def)
  then have two: "gf8 gf256_mul 2 x = xtime x" for x
    using gf_shift_add_xtime_pow [of 1 x] by (simp add: gf8_gf256_mul)
  have "gf_pow gf256_mul 2 (Suc i) = gf8 gf256_mul 2 (gf_pow gf256_mul 2 i)"
    by (simp add: gf256r.mul_commute)
  then show ?case by (simp only: two Suc.IH funpow.simps comp_apply)
qed simp

lemma gf256_pow_255: "b \<noteq> 0 \<Longrightarrow> gf_pow gf256_mul b 255 = 1"
proof -
  assume "b \<noteq> 0"
  then obtain i where "b = gf_pow gf256_mul 2 i"
    using gf_log_exists gf256_pow_two by metis
  then have "gf_pow gf256_mul b 255 = gf_pow gf256_mul (gf_pow gf256_mul 2 255) i"
    by (simp only: gf256r.pow_pow_commute)
  then show ?thesis
    using xtime_pow_values(1) by (simp only: gf256_pow_two gf256r.pow_of_one)
qed

lemma gf256_inverse: "b \<noteq> 0 \<Longrightarrow> gf8 gf256_mul (gf_pow gf256_mul b 254) b = 1"
  using gf256_pow_255 [of b] gf_pow.simps(2) [of gf256_mul b 254] by simp

lemma uint_byte_eq_0: "uint (b :: byte) = 0 \<longleftrightarrow> b = 0"
  by (rule unsigned_eq_0_iff)

lemma gf8_gf256_div:
  "b \<noteq> 0 \<Longrightarrow> gf8 gf256_div a b = gf8 gf256_mul a (gf_pow gf256_mul b 254)"
  by (simp add: gf8_def gf256_div_def uint_byte_eq_0)

interpretation gf256: galois_primitive gf256_mul gf256_div
proof unfold_locales
  fix a b :: byte
  assume b: "b \<noteq> 0"
  show "0 \<le> gf256_div (uint a) (uint b) \<and> gf256_div (uint a) (uint b) < 256"
    using b gf256r.mul_range by (simp add: gf256_div_def uint_byte_eq_0)
  show "gf8 gf256_mul (gf8 gf256_div a b) b = a"
    by (simp only: gf8_gf256_div [OF b] gf256r.mul_assoc gf256_inverse [OF b] gf256r.mul_one_right)
next
  fix i j :: nat
  assume "i < 255" "j < 255" "gf_pow gf256_mul 2 i = gf_pow gf256_mul 2 j"
  then show "i = j" by (auto simp: gf256_pow_two dest: xtime_pow_distinct)
qed

end
