(* ===== verification/RS_Matrix.thy ===== *)
theory RS_Matrix
  imports Galois
begin

text \<open>
  The coding and decoding matrices of \<^verbatim>\<open>RS_FEC/reed_sol_matrix.cc\<close>.  Matrices are blocks
  of bytes stored row after row, as the source allocates them; allocation succeeds and a fresh
  block is zero-filled (every cell is written before it is read).  The five decoding functions
  of the source are copies that differ in how they fill the rows of the lost packets and in
  what they do with a zero pivot; the elimination they share is written once, with the check of
  the pivot as an argument.
\<close>

subsection \<open>Coding matrices\<close>

text \<open>\<open>tmp\<close> starts at 1 and is multiplied by \<open>mul\<close> after each of the \<open>m\<close> cells of row \<open>r\<close>.\<close>

definition fill_powers :: "gf_op \<Rightarrow> nat \<Rightarrow> nat \<Rightarrow> nat \<Rightarrow> int \<Rightarrow> byte list \<Rightarrow> byte list" where
  "fill_powers g cols r m mul v =
     fst (fold (\<lambda>j (v, tmp). (set2 cols v r j (word_of_int tmp), g tmp mul)) [0..<m] (v, 1))"

definition fill_unit :: "nat \<Rightarrow> nat \<Rightarrow> nat \<Rightarrow> nat \<Rightarrow> byte list \<Rightarrow> byte list" where
  "fill_unit cols off r m v =
     fold (\<lambda>j v. set2 cols v r (off + j) (if r = j then 1 else 0)) [0..<m] v"

definition reed_sol_full_coding_matrix :: "gf_op \<Rightarrow> nat \<Rightarrow> nat \<Rightarrow> int list \<Rightarrow> byte list" where
  "reed_sol_full_coding_matrix g n k list =
     (let rows = n + k; cols = n;
          vdm = replicate (rows * cols) 0;
          vdm = fold (\<lambda>i v. fill_unit cols 0 i cols v) [0..<cols] vdm
      in fold (\<lambda>i v. fill_powers g cols (i + cols) cols (list ! i) v) [0..<k] vdm)"

definition reed_sol_sub_coding_matrix :: "gf_op \<Rightarrow> nat \<Rightarrow> nat \<Rightarrow> int list \<Rightarrow> byte list" where
  "reed_sol_sub_coding_matrix g n k list =
     (let rows = k; cols = n; vdm = replicate (rows * cols) 0
      in fold (\<lambda>i v. fill_powers g cols i cols (list ! i) v) [0..<k] vdm)"

text \<open>
  The coding matrix for packets with gaps: the inner \<^verbatim>\<open>while\<close> walks to the next set bit of the
  pmask, multiplying \<open>tmp\<close> on the way; running into \<open>mask_len\<close> returns NULL, and reading past
  the mask is out of bounds.
\<close>

function skip_unmasked ::
  "gf_op \<Rightarrow> int list \<Rightarrow> nat \<Rightarrow> int \<Rightarrow> nat \<Rightarrow> int \<Rightarrow> (nat \<times> int) option result" where
  "skip_unmasked g pmask mask_len mul mask_id tmp =
     (if mask_id \<ge> length pmask then Inl OutOfBounds
      else if pmask ! mask_id AND 1 \<noteq> 0 then Inr (Some (mask_id, tmp))
      else if Suc mask_id \<ge> mask_len then Inr None
      else skip_unmasked g pmask mask_len mul (Suc mask_id) (g tmp mul))"
  by pat_completeness auto
termination
  by (relation "measure (\<lambda>(g, pmask, mask_len, mul, mask_id, tmp). length pmask - mask_id)") auto

declare skip_unmasked.simps [simp del]

fun stream_coding_row ::
  "gf_op \<Rightarrow> nat \<Rightarrow> nat \<Rightarrow> int list \<Rightarrow> nat \<Rightarrow> int \<Rightarrow> nat list \<Rightarrow> byte list \<Rightarrow> nat \<Rightarrow> int
     \<Rightarrow> byte list option result" where
  "stream_coding_row g cols r pmask mask_len mul [] v mask_id tmp = Inr (Some v)"
| "stream_coding_row g cols r pmask mask_len mul (j # js) v mask_id tmp =
     (case skip_unmasked g pmask mask_len mul mask_id tmp of
        Inl e \<Rightarrow> Inl e
      | Inr None \<Rightarrow> Inr None
      | Inr (Some (mask_id, tmp)) \<Rightarrow>
          stream_coding_row g cols r pmask mask_len mul js
            (set2 cols v r j (word_of_int tmp)) (Suc mask_id) (g tmp mul))"

fun stream_coding_rows ::
  "gf_op \<Rightarrow> nat \<Rightarrow> int list \<Rightarrow> int list \<Rightarrow> nat \<Rightarrow> nat list \<Rightarrow> byte list \<Rightarrow> byte list option result" where
  "stream_coding_rows g cols list pmask mask_len [] v = Inr (Some v)"
| "stream_coding_rows g cols list pmask mask_len (i # is) v =
     (case stream_coding_row g cols i pmask mask_len (list ! i) [0..<cols] v 0 1 of
        Inr (Some v) \<Rightarrow> stream_coding_rows g cols list pmask mask_len is v
      | x \<Rightarrow> x)"

definition reed_sol_sub_stream_coding_matrix ::
  "gf_op \<Rightarrow> nat \<Rightarrow> nat \<Rightarrow> int list \<Rightarrow> int list \<Rightarrow> nat \<Rightarrow> byte list option result" where
  "reed_sol_sub_stream_coding_matrix g n k list pmask mask_len =
     stream_coding_rows g n list pmask mask_len [0..<k] (replicate (k * n) 0)"

subsection \<open>Row operations and elimination\<close>

definition row_scale :: "gf_op \<Rightarrow> nat \<Rightarrow> nat \<Rightarrow> int \<Rightarrow> byte list \<Rightarrow> byte list" where
  "row_scale g cols r tmp v =
     set_row cols r cols (\<lambda>v j. word_of_int (g (uint (at2 cols v r j)) tmp)) v"

definition row_addmul :: "gf_op \<Rightarrow> nat \<Rightarrow> nat \<Rightarrow> nat \<Rightarrow> byte list \<Rightarrow> byte list" where
  "row_addmul g cols from_i to_i v =
     (let mul_num = uint (at2 cols v to_i from_i)
      in set_row cols to_i cols
           (\<lambda>v j. at2 cols v to_i j XOR word_of_int (g (uint (at2 cols v from_i j)) mul_num)) v)"

text \<open>The columns of the packets that arrived: their rows are unit rows, so one cell suffices.\<close>

definition clear_cell :: "nat \<Rightarrow> nat \<Rightarrow> nat \<Rightarrow> byte list \<Rightarrow> byte list" where
  "clear_cell n from_i to_i v =
     (let cols = n * 2; mul_num = at2 cols v to_i from_i;
          v = set2 cols v to_i from_i (at2 cols v to_i from_i XOR mul_num)
      in set2 cols v to_i (n + from_i) (at2 cols v to_i (n + from_i) XOR mul_num))"

definition clear_known :: "nat \<Rightarrow> nat list \<Rightarrow> nat list \<Rightarrow> byte list \<Rightarrow> byte list" where
  "clear_known n s_list r_list v =
     fold (\<lambda>from_i v. fold (\<lambda>to_i v. clear_cell n from_i to_i v) r_list v) s_list v"

text \<open>
  One round of either elimination: make the pivot 1, then clear its column in the rows \<open>rest\<close>.
\<close>

definition pivot_step :: "gf_op \<Rightarrow> gf_op \<Rightarrow> nat \<Rightarrow> nat \<Rightarrow> nat list \<Rightarrow> byte list \<Rightarrow> byte list" where
  "pivot_step g gd cols from_i rest v =
     (let p = at2 cols v from_i from_i;
          v = (if p \<noteq> 1 then row_scale g cols from_i (gd 1 (uint p)) v else v)
      in fold (\<lambda>to_i v. row_addmul g cols from_i to_i v) rest v)"

text \<open>Downwards: the rows below \<open>from_i\<close> are the rest of the list.\<close>

fun forward_elim :: "bool \<Rightarrow> gf_op \<Rightarrow> gf_op \<Rightarrow> nat \<Rightarrow> nat list \<Rightarrow> byte list \<Rightarrow> byte list option" where
  "forward_elim check g gd cols [] v = Some v"
| "forward_elim check g gd cols (from_i # rest) v =
     (if at2 cols v from_i from_i \<noteq> 1 \<and> at2 cols v from_i from_i = 0 \<and> check then None
      else forward_elim check g gd cols rest (pivot_step g gd cols from_i rest v))"

text \<open>Upwards: called with the reversed list, so the rows above \<open>from_i\<close> are again the rest.\<close>

fun backward_elim :: "gf_op \<Rightarrow> gf_op \<Rightarrow> nat \<Rightarrow> nat list \<Rightarrow> byte list \<Rightarrow> byte list" where
  "backward_elim g gd cols [] v = v"
| "backward_elim g gd cols (from_i # rest) v =
     backward_elim g gd cols rest (pivot_step g gd cols from_i rest v)"

definition invert_rows ::
  "bool \<Rightarrow> gf_op \<Rightarrow> gf_op \<Rightarrow> nat \<Rightarrow> nat list \<Rightarrow> nat list \<Rightarrow> byte list \<Rightarrow> byte list option" where
  "invert_rows check g gd n s_list r_list v =
     (let cols = n * 2;
          v = fold (\<lambda>i v. fill_unit cols n i n v) [0..<n] v;
          v = clear_known n s_list r_list v
      in map_option (backward_elim g gd cols (rev r_list)) (forward_elim check g gd cols r_list v))"

subsection \<open>Filling the rows to be inverted\<close>

text \<open>
  The loop over the packets: \<open>known i\<close> says whether packet \<open>i\<close> arrived, \<open>row_of l i\<close> writes row
  \<open>i\<close> with the coefficients of the \<open>l\<close>-th parity packet.  More losses than parity packets
  return NULL.
\<close>

fun fill_rows ::
  "nat \<Rightarrow> nat \<Rightarrow> (nat \<Rightarrow> bool) \<Rightarrow> (nat \<Rightarrow> nat \<Rightarrow> byte list \<Rightarrow> byte list) \<Rightarrow> nat list
     \<Rightarrow> byte list \<Rightarrow> nat list \<Rightarrow> nat list \<Rightarrow> (byte list \<times> nat list \<times> nat list) option" where
  "fill_rows n k known row_of [] v s_list r_list = Some (v, s_list, r_list)"
| "fill_rows n k known row_of (i # is) v s_list r_list =
     (if \<not> known i then
        if length r_list \<ge> k then None
        else fill_rows n k known row_of is (row_of (length r_list) i v) s_list (r_list @ [i])
      else fill_rows n k known row_of is (fill_unit (n * 2) 0 i n v) (s_list @ [i]) r_list)"

definition copy_right :: "nat \<Rightarrow> nat list \<Rightarrow> byte list \<Rightarrow> byte list" where
  "copy_right n rows v = concat (map (\<lambda>i. map (\<lambda>j. at2 (n * 2) v i (n + j)) [0..<n]) rows)"

definition decoding_matrix ::
  "gf_op \<Rightarrow> gf_op \<Rightarrow> nat \<Rightarrow> nat \<Rightarrow> (nat \<Rightarrow> bool) \<Rightarrow> (nat \<Rightarrow> nat \<Rightarrow> byte list \<Rightarrow> byte list)
     \<Rightarrow> byte list option" where
  "decoding_matrix g gd n k known row_of =
     (case fill_rows n k known row_of [0..<n] (replicate (n * (n * 2)) 0) [] [] of
        None \<Rightarrow> None
      | Some (v, s_list, r_list) \<Rightarrow>
          map_option (copy_right n [0..<n]) (invert_rows False g gd n s_list r_list v))"

definition reed_sol_block_decoding_matrix ::
  "gf_op \<Rightarrow> gf_op \<Rightarrow> nat \<Rightarrow> nat \<Rightarrow> int list \<Rightarrow> int list \<Rightarrow> byte list option" where
  "reed_sol_block_decoding_matrix g gd n k list pmask =
     decoding_matrix g gd n k (\<lambda>i. pmask ! i AND 1 \<noteq> 0)
       (\<lambda>l i v. fill_powers g (n * 2) i n (list ! l) v)"

text \<open>Here \<open>tmp\<close> advances only at the packets the parity packet protects.\<close>

definition fill_masked_powers ::
  "gf_op \<Rightarrow> nat \<Rightarrow> nat \<Rightarrow> nat \<Rightarrow> int \<Rightarrow> (nat \<Rightarrow> bool) \<Rightarrow> byte list \<Rightarrow> byte list" where
  "fill_masked_powers g cols r m mul prot v =
     fst (fold (\<lambda>j (v, tmp). if prot j then (set2 cols v r j (word_of_int tmp), g tmp mul)
                              else (set2 cols v r j 0, tmp)) [0..<m] (v, 1))"

definition reed_sol_stream_decoding_matrix ::
  "gf_op \<Rightarrow> gf_op \<Rightarrow> nat \<Rightarrow> nat \<Rightarrow> int list \<Rightarrow> int list \<Rightarrow> int list \<Rightarrow> byte list option" where
  "reed_sol_stream_decoding_matrix g gd n k list pmask k_mask =
     decoding_matrix g gd n k (\<lambda>i. pmask ! i AND 1 \<noteq> 0)
       (\<lambda>l i v. fill_masked_powers g (n * 2) i n (list ! l) (\<lambda>j. k_mask ! (l * n + j) AND 1 = 1) v)"

text \<open>The bitset overloads read the bits from the other end.\<close>

definition reed_sol_block_decoding_matrix_bits ::
  "gf_op \<Rightarrow> gf_op \<Rightarrow> nat \<Rightarrow> nat \<Rightarrow> int list \<Rightarrow> bool list \<Rightarrow> byte list option" where
  "reed_sol_block_decoding_matrix_bits g gd n k list pmask =
     decoding_matrix g gd n k (\<lambda>i. pmask ! (n - 1 - i))
       (\<lambda>l i v. fill_powers g (n * 2) i n (list ! l) v)"

definition reed_sol_stream_decoding_matrix_bits ::
  "gf_op \<Rightarrow> gf_op \<Rightarrow> nat \<Rightarrow> nat \<Rightarrow> int list \<Rightarrow> bool list \<Rightarrow> bool list list \<Rightarrow> byte list option" where
  "reed_sol_stream_decoding_matrix_bits g gd n k list pmask k_mask =
     decoding_matrix g gd n k (\<lambda>i. pmask ! (n - 1 - i))
       (\<lambda>l i v. fill_masked_powers g (n * 2) i n (list ! l) (\<lambda>j. k_mask ! l ! (n - 1 - j)) v)"

subsection \<open>The decoding matrix over a sequence-number window\<close>

text \<open>
  \<^verbatim>\<open>reed_sol_skipped_stream_decoding_matrix\<close>: \<open>pmask\<close> selects the sequence numbers that take
  part, \<open>arrive\<close> those that arrived, \<open>k_mask ! l\<close> those the \<open>l\<close>-th parity packet protects.
\<close>

function skip_unset :: "bool list \<Rightarrow> nat \<Rightarrow> nat" where
  "skip_unset pmask i = (if i < length pmask \<and> \<not> pmask ! i then skip_unset pmask (Suc i) else i)"
  by pat_completeness auto
termination
  by (relation "measure (\<lambda>(pmask, i). length pmask - i)") auto

declare skip_unset.simps [simp del]

function skip_unset_mul :: "gf_op \<Rightarrow> bool list \<Rightarrow> int \<Rightarrow> bool \<Rightarrow> nat \<Rightarrow> int \<Rightarrow> nat \<times> int" where
  "skip_unset_mul g pmask mul first_one i tmp =
     (if i < length pmask \<and> \<not> pmask ! i
      then skip_unset_mul g pmask mul first_one (Suc i) (if first_one then g tmp mul else tmp)
      else (i, tmp))"
  by pat_completeness auto
termination
  by (relation "measure (\<lambda>(g, pmask, mul, first_one, i, tmp). length pmask - i)") auto

declare skip_unset_mul.simps [simp del]

fun skipped_row ::
  "gf_op \<Rightarrow> nat \<Rightarrow> nat \<Rightarrow> int \<Rightarrow> bool list \<Rightarrow> bool list \<Rightarrow> nat list \<Rightarrow> byte list \<Rightarrow> nat \<Rightarrow> int \<Rightarrow> bool
     \<Rightarrow> byte list option" where
  "skipped_row g cols r mul pmask prot [] v kmask_j tmp first_one = Some v"
| "skipped_row g cols r mul pmask prot (j # js) v kmask_j tmp first_one =
     (case skip_unset_mul g pmask mul first_one kmask_j tmp of (kmask_j, tmp) \<Rightarrow>
        if kmask_j \<ge> length pmask then None
        else
          let v = set2 cols v r j (if prot ! kmask_j then word_of_int tmp else 0);
              first_one = (first_one \<or> prot ! kmask_j);
              tmp = (if first_one then g tmp mul else tmp)
          in skipped_row g cols r mul pmask prot js v (Suc kmask_j) tmp first_one)"

fun skipped_rows ::
  "gf_op \<Rightarrow> nat \<Rightarrow> nat \<Rightarrow> int list \<Rightarrow> bool list \<Rightarrow> bool list \<Rightarrow> bool list list \<Rightarrow> nat list
     \<Rightarrow> byte list \<Rightarrow> nat \<Rightarrow> nat list \<Rightarrow> nat list \<Rightarrow> (byte list \<times> nat list \<times> nat list) option" where
  "skipped_rows g n k list pmask arrive k_mask [] v mask_i s_list r_list = Some (v, s_list, r_list)"
| "skipped_rows g n k list pmask arrive k_mask (i # is) v mask_i s_list r_list =
     (let mask_i = skip_unset pmask mask_i
      in if mask_i \<ge> length pmask then None
         else if \<not> arrive ! mask_i then
           if length r_list \<ge> k then None
           else
             (case skipped_row g (n * 2) i (list ! length r_list) pmask (k_mask ! length r_list)
                     [0..<n] v 0 1 False of
                None \<Rightarrow> None
              | Some v \<Rightarrow> skipped_rows g n k list pmask arrive k_mask is v (Suc mask_i) s_list (r_list @ [i]))
         else
           skipped_rows g n k list pmask arrive k_mask is (fill_unit (n * 2) 0 i n v) (Suc mask_i)
             (s_list @ [i]) r_list)"

definition reed_sol_skipped_stream_decoding_matrix ::
  "gf_op \<Rightarrow> gf_op \<Rightarrow> nat \<Rightarrow> nat \<Rightarrow> int list \<Rightarrow> bool list \<Rightarrow> bool list \<Rightarrow> bool list list
     \<Rightarrow> byte list option" where
  "reed_sol_skipped_stream_decoding_matrix g gd n k list pmask arrive k_mask =
     (case skipped_rows g n k list pmask arrive k_mask [0..<n] (replicate (n * (n * 2)) 0) 0 [] [] of
        None \<Rightarrow> None
      | Some (v, s_list, r_list) \<Rightarrow>
          map_option (copy_right n r_list) (invert_rows True g gd n s_list r_list v))"

end
