(* ===== verification/RS_Elim.thy ===== *)
theory RS_Elim
  imports RS_Matrix
begin

text \<open>
  The elimination of \<^verbatim>\<open>reed_sol_matrix.cc\<close> solves the linear system it is given.
\<close>

subsection \<open>Cells after a row operation\<close>

lemma length_row_ops [simp]:
  "length (row_scale g cols r t v) = length v"
  "length (row_addmul g cols a b v) = length v"
  "length (clear_cell n a b v) = length v"
  by (simp_all add: row_scale_def row_addmul_def clear_cell_def Let_def)

lemma length_fold_set2 [simp]:
  "length (fold (\<lambda>j v. set2 cols v (r j) (c j) (f j v)) js v) = length v"
  by (induction js arbitrary: v) simp_all

lemma length_fold [simp]:
  assumes "\<And>x v. length (f x v) = length v"
  shows "length (fold f xs v) = length v"
  using assms by (induction xs arbitrary: v) simp_all

lemma at2_row_scale:
  assumes "length v = rows * cols" "r < rows" "j < cols"
  shows "at2 cols (row_scale g cols r t v) i j =
           (if i = r then word_of_int (g (uint (at2 cols v i j)) t) else at2 cols v i j)"
  unfolding row_scale_def
  by (subst at2_set_row [OF assms(1,2) le_refl assms(3)])
     (use assms(3) in \<open>auto simp: reads_fresh_def\<close>)

lemma at2_row_addmul:
  assumes "length v = rows * cols" "b < rows" "a \<noteq> b" "j < cols"
  shows "at2 cols (row_addmul g cols a b v) i j =
           (if i = b then at2 cols v b j XOR gf8 g (at2 cols v a j) (at2 cols v b a) else at2 cols v i j)"
  unfolding row_addmul_def Let_def
  by (subst at2_set_row [OF assms(1,2) le_refl assms(4)])
     (use assms(3,4) in \<open>auto simp: reads_fresh_def gf8_def\<close>)

lemma at2_fold_addmul:
  assumes "length v = rows * cols" "set bs \<subseteq> {..<rows}" "distinct bs" "a \<notin> set bs"
    "a < cols" "j < cols"
  shows "at2 cols (fold (row_addmul g cols a) bs v) i j =
           (if i \<in> set bs then at2 cols v i j XOR gf8 g (at2 cols v a j) (at2 cols v i a)
            else at2 cols v i j)"
  using assms
proof (induction bs arbitrary: v)
  case (Cons b bs)
  from Cons.prems have *: "length (row_addmul g cols a b v) = rows * cols" "b < rows" "a \<noteq> b"
    by auto
  show ?case
    using Cons.prems by (simp add: Cons.IH [OF *(1)] at2_row_addmul [OF Cons.prems(1) *(2,3)])
qed simp

definition row_dot :: "gf_op \<Rightarrow> nat \<Rightarrow> byte list \<Rightarrow> nat \<Rightarrow> (nat \<Rightarrow> byte) \<Rightarrow> byte" where
  "row_dot g cols v i z = xsum (\<lambda>j. gf8 g (at2 cols v i j) (z j)) cols"

lemma length_pivot_step [simp]: "length (pivot_step g gd cols a bs v) = length v"
  by (simp add: pivot_step_def Let_def)

context galois_field
begin

lemma div_one: "gf8 gdiv 1 1 = 1"
  using div_mul [of 1 1] by (simp add: mul_one_right)

lemma mul_div_self: "p \<noteq> 0 \<Longrightarrow> gf8 gmul p (gf8 gdiv 1 p) = 1"
  by (subst mul_commute) (rule div_mul)

text \<open>The pivot row is multiplied by the inverse of the pivot, and subtracted from the others.\<close>

lemma at2_pivot_step:
  assumes "length v = rows * cols" "set bs \<subseteq> {..<rows}" "distinct bs" "a \<notin> set bs"
    "a < rows" "a < cols" "j < cols" and p: "at2 cols v a a \<noteq> 0"
  shows "at2 cols (pivot_step gmul gdiv cols a bs v) i j =
     (let c = gf8 gmul (at2 cols v a j) (gf8 gdiv 1 (at2 cols v a a))
      in if i = a then c
         else if i \<in> set bs then at2 cols v i j XOR gf8 gmul c (at2 cols v i a)
         else at2 cols v i j)"
proof -
  define p where "p = at2 cols v a a"
  define w where "w = (if p \<noteq> 1 then row_scale gmul cols a (gdiv 1 (uint p)) v else v)"
  have "uint (gf8 gdiv 1 p) = gdiv 1 (uint p)"
    using uint_div [of p 1] assms(8) by (simp add: p_def)
  hence w: "at2 cols w i j = (if i = a then gf8 gmul (at2 cols v a j) (gf8 gdiv 1 p) else at2 cols v i j)"
    if "j < cols" for i j
    using at2_row_scale [OF assms(1,5) that, of gmul "gdiv 1 (uint p)" i]
    by (auto simp: w_def gf8_def [of gmul] div_one mul_one_right [unfolded gf8_def, simplified])
  have lw: "length w = rows * cols" using assms(1) by (simp add: w_def)
  have "pivot_step gmul gdiv cols a bs v = fold (row_addmul gmul cols a) bs w"
    by (simp add: pivot_step_def w_def p_def Let_def)
  thus ?thesis
    using at2_fold_addmul [OF lw assms(2-4,6,7), of gmul i] assms(4)
    by (auto simp: w assms(6,7) p_def Let_def)
qed

lemma row_dot_scale:
  "xsum (\<lambda>j. gf8 gmul (gf8 gmul (at2 cols v a j) c) (z j)) cols = gf8 gmul c (row_dot gmul cols v a z)"
  unfolding row_dot_def mul_xsum by (intro xsum_cong) (simp only: mul_ac)

lemma row_dot_pivot_step:
  assumes "length v = rows * cols" "set bs \<subseteq> {..<rows}" "distinct bs" "a \<notin> set bs"
    "a < rows" "a < cols" "at2 cols v a a \<noteq> 0"
  shows "row_dot gmul cols (pivot_step gmul gdiv cols a bs v) i z =
     (let d = gf8 gmul (gf8 gdiv 1 (at2 cols v a a)) (row_dot gmul cols v a z)
      in if i = a then d
         else if i \<in> set bs then row_dot gmul cols v i z XOR gf8 gmul (at2 cols v i a) d
         else row_dot gmul cols v i z)"
proof -
  let ?q = "gf8 gdiv 1 (at2 cols v a a)"
  note at = at2_pivot_step [OF assms(1-6) _ assms(7)]
  consider "i = a" | "i \<noteq> a" "i \<in> set bs" | "i \<noteq> a" "i \<notin> set bs" by blast
  thus ?thesis
  proof cases
    case 1
    have "row_dot gmul cols (pivot_step gmul gdiv cols a bs v) i z =
            xsum (\<lambda>j. gf8 gmul (gf8 gmul (at2 cols v a j) ?q) (z j)) cols"
      unfolding row_dot_def using 1 by (intro xsum_cong) (simp add: at Let_def)
    thus ?thesis using 1 by (simp add: row_dot_scale)
  next
    case 2
    have "row_dot gmul cols (pivot_step gmul gdiv cols a bs v) i z =
            row_dot gmul cols v i z XOR
            xsum (\<lambda>j. gf8 gmul (gf8 gmul (at2 cols v a j) (gf8 gmul (at2 cols v i a) ?q)) (z j)) cols"
      unfolding row_dot_def xsum_xor [symmetric] using 2
      by (intro xsum_cong) (simp add: at Let_def xor_mul mul_assoc mul_commute [of "at2 cols v i a"])
    thus ?thesis using 2 unfolding row_dot_scale by (simp add: mul_assoc)
  next
    case 3
    have "row_dot gmul cols (pivot_step gmul gdiv cols a bs v) i z = row_dot gmul cols v i z"
      unfolding row_dot_def using 3 by (intro xsum_cong) (simp add: at Let_def)
    thus ?thesis using 3 by simp
  qed
qed

lemma row_dot_pivot_step_zero:
  assumes "length v = rows * cols" "set bs \<subseteq> {..<rows}" "distinct bs" "a \<notin> set bs"
    "a < rows" "a < cols" "at2 cols v a a \<noteq> 0"
    and "row_dot gmul cols (pivot_step gmul gdiv cols a bs v) a z = 0"
    and "i = a \<or> i \<in> set bs \<and> row_dot gmul cols (pivot_step gmul gdiv cols a bs v) i z = 0"
  shows "row_dot gmul cols v i z = 0"
proof -
  note step = row_dot_pivot_step [OF assms(1-7)]
  have "gf8 gmul (gf8 gdiv 1 (at2 cols v a a)) (row_dot gmul cols v a z) = 0"
    using assms(8) by (simp add: step)
  hence "row_dot gmul cols v a z = 0" using mul_eq_0 div_nonzero [OF assms(7)] by blast
  thus ?thesis using assms(4,9) by (auto simp: step mul_zero Let_def split: if_splits)
qed

lemma row_dot_update:
  assumes "a < cols" "x a = 0"
  shows "row_dot gmul cols v i (x(a := y)) = row_dot gmul cols v i x XOR gf8 gmul (at2 cols v i a) y"
proof -
  have "row_dot gmul cols v i (x(a := y)) =
      xsum (\<lambda>j. gf8 gmul (at2 cols v i j) (x j) XOR (if j = a then gf8 gmul (at2 cols v i a) y else 0)) cols"
    unfolding row_dot_def by (intro xsum_cong) (simp add: assms(2) mul_zero)
  thus ?thesis using assms(1) by (simp add: xsum_xor xsum_delta row_dot_def)
qed

lemma pivot_step_unit_column:
  assumes "length v = rows * cols" "set bs \<subseteq> {..<rows}" "distinct bs" "a \<notin> set bs"
    "a < rows" "a < cols" "at2 cols v a a \<noteq> 0"
  shows "at2 cols (pivot_step gmul gdiv cols a bs v) a a = 1"
    and "b \<in> set bs \<Longrightarrow> at2 cols (pivot_step gmul gdiv cols a bs v) b a = 0"
  using at2_pivot_step [OF assms(1-6,6,7)] assms(4,7)
  by (auto simp: mul_div_self mul_one Let_def)

end

subsection \<open>The elimination passes\<close>

text \<open>Shape of the matrix and of the list of rows that both passes work on.\<close>

definition elim_rows :: "nat \<Rightarrow> nat \<Rightarrow> byte list \<Rightarrow> nat list \<Rightarrow> bool" where
  "elim_rows rows cols v rs \<longleftrightarrow>
     length v = rows * cols \<and> rows \<le> cols \<and> set rs \<subseteq> {..<rows} \<and> distinct rs"

lemma elim_rows_Cons:
  assumes "elim_rows rows cols v (a # bs)"
  shows "length v = rows * cols" "set bs \<subseteq> {..<rows}" "distinct bs" "a \<notin> set bs"
    "a < rows" "a < cols" "elim_rows rows cols (pivot_step g gd cols a bs v) bs"
  using assms by (auto simp: elim_rows_def)

lemma length_forward_elim: "forward_elim check g gd cols rs v = Some v' \<Longrightarrow> length v' = length v"
  by (induction rs arbitrary: v) (auto split: if_splits)

lemma length_backward_elim [simp]: "length (backward_elim g gd cols rs v) = length v"
  by (induction rs arbitrary: v) simp_all

lemma forward_elim_unchecked:
  "forward_elim True g gd cols rs v = Some v' \<Longrightarrow> forward_elim False g gd cols rs v = Some v'"
  by (induction rs arbitrary: v) (auto split: if_splits)

text \<open>The two triangular shapes: cleared below the diagonal, and cleared above it.\<close>

definition cleared :: "nat \<Rightarrow> byte list \<Rightarrow> nat list \<Rightarrow> bool" where
  "cleared cols v rs \<longleftrightarrow> sorted_wrt (\<lambda>a b. at2 cols v b a = 0) rs"

definition unit_diag :: "nat \<Rightarrow> byte list \<Rightarrow> nat list \<Rightarrow> bool" where
  "unit_diag cols v rs \<longleftrightarrow> (\<forall>r \<in> set rs. at2 cols v r r = 1)"

text \<open>Upwards the pivots are already 1 and the rows are cleared to the left of them.\<close>

definition upward :: "nat \<Rightarrow> nat \<Rightarrow> byte list \<Rightarrow> nat list \<Rightarrow> bool" where
  "upward rows cols v rs \<longleftrightarrow>
     elim_rows rows cols v rs \<and> unit_diag cols v rs \<and> sorted_wrt (\<lambda>a b. at2 cols v a b = 0) rs"

context galois_field
begin

lemma forward_elim_Cons:
  assumes "forward_elim True gmul gdiv cols (a # bs) v = Some v'"
  shows "at2 cols v a a \<noteq> 0"
    and "forward_elim True gmul gdiv cols bs (pivot_step gmul gdiv cols a bs v) = Some v'"
  using assms by (auto split: if_splits)

text \<open>Rows outside the list are not touched, and a column that is zero in the rows stays so.\<close>

lemma forward_elim_frame:
  assumes "elim_rows rows cols v rs" "forward_elim True gmul gdiv cols rs v = Some v'" "c < cols"
    "i \<notin> set rs"
  shows "at2 cols v' i c = at2 cols v i c"
  using assms(1,2,4)
proof (induction rs arbitrary: v)
  case (Cons a bs)
  note e = elim_rows_Cons [OF Cons.prems(1)] and f = forward_elim_Cons [OF Cons.prems(2)]
  show ?case
    using Cons.IH [OF e(7) f(2)] Cons.prems(3) at2_pivot_step [OF e(1-6) assms(3) f(1)] by simp
qed simp

lemma forward_elim_zero_column:
  assumes "elim_rows rows cols v rs" "forward_elim True gmul gdiv cols rs v = Some v'" "c < cols"
    "\<forall>r \<in> set rs. at2 cols v r c = 0" "r \<in> set rs"
  shows "at2 cols v' r c = 0"
  using assms(1,2,4,5)
proof (induction rs arbitrary: v)
  case (Cons a bs)
  note e = elim_rows_Cons [OF Cons.prems(1)] and f = forward_elim_Cons [OF Cons.prems(2)]
  note at = at2_pivot_step [OF e(1-6) assms(3) f(1)]
  have z: "\<forall>r \<in> set bs. at2 cols (pivot_step gmul gdiv cols a bs v) r c = 0"
    "at2 cols (pivot_step gmul gdiv cols a bs v) a c = 0"
    using Cons.prems(3) by (auto simp: at mul_zero_left)
  show ?case
  proof (cases "r = a")
    case True
    thus ?thesis using forward_elim_frame [OF e(7) f(2) assms(3) e(4)] z(2) by simp
  next
    case False
    thus ?thesis using Cons.IH [OF e(7) f(2) z(1)] Cons.prems(4) by simp
  qed
qed simp

lemma forward_elim_shape:
  assumes "elim_rows rows cols v rs" "forward_elim True gmul gdiv cols rs v = Some v'"
  shows "cleared cols v' rs \<and> unit_diag cols v' rs"
  using assms
proof (induction rs arbitrary: v)
  case (Cons a bs)
  note e = elim_rows_Cons [OF Cons.prems(1)] and f = forward_elim_Cons [OF Cons.prems(2)]
  note u = pivot_step_unit_column [OF e(1-6) f(1)]
  have "at2 cols v' a a = 1"
    using forward_elim_frame [OF e(7) f(2) e(6,4)] u(1) by simp
  moreover have "\<forall>b \<in> set bs. at2 cols v' b a = 0"
    using forward_elim_zero_column [OF e(7) f(2) e(6)] u(2) by blast
  ultimately show ?case
    using Cons.IH [OF e(7) f(2)] by (simp add: cleared_def unit_diag_def)
qed (simp add: cleared_def unit_diag_def)

lemma forward_elim_solutions:
  assumes "elim_rows rows cols v rs" "forward_elim True gmul gdiv cols rs v = Some v'"
    "\<And>i. i < rows \<Longrightarrow> row_dot gmul cols v i z = 0" "i < rows"
  shows "row_dot gmul cols v' i z = 0"
  using assms(1-3)
proof (induction rs arbitrary: v)
  case (Cons a bs)
  note e = elim_rows_Cons [OF Cons.prems(1)] and f = forward_elim_Cons [OF Cons.prems(2)]
  show ?case
    by (rule Cons.IH [OF e(7) f(2)])
       (simp add: row_dot_pivot_step [OF e(1-6) f(1)] Cons.prems(3) e(5) mul_zero Let_def)
qed (use assms(4) in simp)

lemma upward_Cons:
  assumes "upward rows cols v (a # bs)"
  shows "elim_rows rows cols v (a # bs)" "at2 cols v a a \<noteq> 0"
    "upward rows cols (pivot_step gmul gdiv cols a bs v) bs"
proof -
  show el: "elim_rows rows cols v (a # bs)" and p: "at2 cols v a a \<noteq> 0"
    using assms by (auto simp: upward_def unit_diag_def)
  note e = elim_rows_Cons [OF el]
  have cols: "b \<in> set bs \<Longrightarrow> b < cols" for b
    using e(2) el by (auto simp: elim_rows_def)
  have same: "at2 cols (pivot_step gmul gdiv cols a bs v) b c = at2 cols v b c"
    if "b \<in> set bs" "c \<in> set bs" for b c
  proof -
    have "at2 cols v a c = 0" using assms that(2) by (simp add: upward_def)
    thus ?thesis
      using at2_pivot_step [OF e(1-6) cols [OF that(2)] p, of b] that e(4)
      by (auto simp: mul_zero_left Let_def)
  qed
  have "sorted_wrt (\<lambda>a b. at2 cols v a b = 0) bs" "unit_diag cols v bs"
    using assms by (simp_all add: upward_def unit_diag_def)
  thus "upward rows cols (pivot_step gmul gdiv cols a bs v) bs"
    using e(7) same by (auto simp: upward_def unit_diag_def intro: sorted_wrt_mono_rel [rotated])
qed

lemma backward_elim_frame:
  assumes "upward rows cols v rs" "c < cols" "i \<notin> set rs"
  shows "at2 cols (backward_elim gmul gdiv cols rs v) i c = at2 cols v i c"
  using assms(1,3)
proof (induction rs arbitrary: v)
  case (Cons a bs)
  note u = upward_Cons [OF Cons.prems(1)]
  note e = elim_rows_Cons [OF u(1)]
  show ?case
    using Cons.IH [OF u(3)] Cons.prems(2) at2_pivot_step [OF e(1-6) assms(2) u(2)] by simp
qed simp

lemma backward_elim_zero_column:
  assumes "upward rows cols v rs" "c < cols" "\<forall>r \<in> set rs. at2 cols v r c = 0" "r \<in> set rs"
  shows "at2 cols (backward_elim gmul gdiv cols rs v) r c = 0"
  using assms(1,3,4)
proof (induction rs arbitrary: v)
  case (Cons a bs)
  note u = upward_Cons [OF Cons.prems(1)]
  note e = elim_rows_Cons [OF u(1)]
  have z: "\<forall>r \<in> set bs. at2 cols (pivot_step gmul gdiv cols a bs v) r c = 0"
    "at2 cols (pivot_step gmul gdiv cols a bs v) a c = 0"
    using Cons.prems(2) by (auto simp: at2_pivot_step [OF e(1-6) assms(2) u(2)] mul_zero_left)
  show ?case
    using Cons.IH [OF u(3) z(1)] backward_elim_frame [OF u(3) assms(2) e(4)] z(2) Cons.prems(3) by auto
qed simp

text \<open>After the upward pass the columns of the listed rows are those of the identity.\<close>

lemma backward_elim_identity:
  assumes "upward rows cols v rs"
  shows "r \<in> set rs \<Longrightarrow> c \<in> set rs \<Longrightarrow>
           at2 cols (backward_elim gmul gdiv cols rs v) r c = (if r = c then 1 else 0)"
  using assms
proof (induction rs arbitrary: v)
  case (Cons a bs)
  note u = upward_Cons [OF Cons.prems(3)]
  note e = elim_rows_Cons [OF u(1)]
  let ?w = "pivot_step gmul gdiv cols a bs v"
  note piv = pivot_step_unit_column [OF e(1-6) u(2)]
  have bs: "b \<in> set bs \<Longrightarrow> b \<noteq> a \<and> b < cols" for b
    using e(2,4) u(1) by (auto simp: elim_rows_def)
  have head: "at2 cols (backward_elim gmul gdiv cols bs ?w) a b = (if a = b then 1 else 0)"
    if "b \<in> set (a # bs)" for b
  proof -
    have "b \<noteq> a \<Longrightarrow> at2 cols v a b = 0" using Cons.prems(3) that by (auto simp: upward_def)
    thus ?thesis
      using backward_elim_frame [OF u(3) _ e(4)] at2_pivot_step [OF e(1-6) _ u(2), of b a] piv(1) that bs e(6)
      by (auto simp: mul_zero_left)
  qed
  have "at2 cols (backward_elim gmul gdiv cols bs ?w) b a = 0" if "b \<in> set bs" for b
    using backward_elim_zero_column [OF u(3) e(6) _ that] piv(2) by blast
  thus ?case using head Cons.IH [OF _ _ u(3)] Cons.prems(1,2) bs by auto
qed simp

lemma backward_elim_solutions:
  assumes "upward rows cols v rs" "\<And>i. i < rows \<Longrightarrow> row_dot gmul cols v i z = 0" "i < rows"
  shows "row_dot gmul cols (backward_elim gmul gdiv cols rs v) i z = 0"
  using assms(1,2)
proof (induction rs arbitrary: v)
  case (Cons a bs)
  note u = upward_Cons [OF Cons.prems(1)]
  note e = elim_rows_Cons [OF u(1)]
  show ?case
    unfolding backward_elim.simps
    by (rule Cons.IH [OF u(3)])
       (simp add: row_dot_pivot_step [OF e(1-6) u(2)] Cons.prems(2) e(5) mul_zero Let_def)
qed (use assms(3) in simp)

text \<open>
  A zero pivot is never an accident of the order of the steps: some leading square block of the
  system is then singular, that is, it has a non-zero solution of the homogeneous equations.
\<close>

lemma forward_elim_None:
  assumes "elim_rows rows cols v rs" "forward_elim True gmul gdiv cols rs v = None"
  shows "\<exists>t x. t < length rs \<and> x (rs ! t) \<noteq> 0 \<and> (\<forall>c. x c \<noteq> 0 \<longrightarrow> c \<in> set (take (Suc t) rs)) \<and>
           (\<forall>i \<in> set (take (Suc t) rs). row_dot gmul cols v i x = 0)"
  using assms
proof (induction rs arbitrary: v)
  case (Cons a bs)
  note e = elim_rows_Cons [OF Cons.prems(1)]
  show ?case
  proof (cases "at2 cols v a a = 0")
    case True
    have "row_dot gmul cols v a (\<lambda>c. if c = a then 1 else 0) = gf8 gmul (at2 cols v a a) 1"
      unfolding row_dot_def by (subst xsum_single [OF e(6)]) (auto simp: mul_zero)
    hence "row_dot gmul cols v a (\<lambda>c. if c = a then 1 else 0) = 0" by (simp add: True mul_zero_left)
    thus ?thesis by (intro exI [of _ 0] exI [of _ "\<lambda>c. if c = a then 1 else 0"]) auto
  next
    case False
    let ?w = "pivot_step gmul gdiv cols a bs v"
    have "forward_elim True gmul gdiv cols bs ?w = None"
      using Cons.prems(2) False by (auto split: if_splits)
    then obtain t x where t: "t < length bs" and x: "x (bs ! t) \<noteq> 0"
      and supp: "\<And>c. x c \<noteq> 0 \<Longrightarrow> c \<in> set (take (Suc t) bs)"
      and ker: "\<And>i. i \<in> set (take (Suc t) bs) \<Longrightarrow> row_dot gmul cols ?w i x = 0"
      using Cons.IH [OF e(7)] by blast
    define y where "y = x(a := row_dot gmul cols ?w a x)"
    have sub: "i \<in> set (take (Suc t) bs) \<Longrightarrow> i \<in> set bs" for i by (rule in_set_takeD)
    note dot = row_dot_update [OF e(6), where x = x and y = "row_dot gmul cols ?w a x" and v = ?w]
    note unit = pivot_step_unit_column [OF e(1-6) False]
    have xa: "x a = 0" using supp sub e(4) by blast
    have "row_dot gmul cols ?w a y = 0" by (simp add: y_def dot [OF xa] unit(1) mul_one)
    moreover have "row_dot gmul cols ?w i y = 0" if "i \<in> set (take (Suc t) bs)" for i
      using ker [OF that] by (simp add: y_def dot [OF xa] unit(2) [OF sub [OF that]] mul_zero_left)
    ultimately have "\<forall>i \<in> set (take (Suc (Suc t)) (a # bs)). row_dot gmul cols v i y = 0"
      using row_dot_pivot_step_zero [OF e(1-6) False] sub by auto
    moreover have "y ((a # bs) ! Suc t) \<noteq> 0" using x t e(4) by (auto simp: y_def)
    moreover have "\<forall>c. y c \<noteq> 0 \<longrightarrow> c \<in> set (take (Suc (Suc t)) (a # bs))"
      using supp by (auto simp: y_def)
    ultimately show ?thesis using t by (intro exI [of _ "Suc t"] exI [of _ y]) simp
  qed
qed simp

end

subsection \<open>Unit rows and the cleared columns\<close>

lemma length_fill_unit [simp]: "length (fill_unit cols off r m v) = length v"
  by (simp add: fill_unit_def)

lemma at2_fill_unit:
  assumes "length v = rows * cols" "r < rows" "off + m \<le> cols" "c < cols"
  shows "at2 cols (fill_unit cols off r m v) i c =
           (if i = r \<and> off \<le> c \<and> c < off + m then if c = off + r then 1 else 0 else at2 cols v i c)"
  using assms(3)
proof (induction m)
  case (Suc m)
  have "length (fill_unit cols off r m v) = rows * cols" using assms(1) by simp
  from at2_set2 [OF this assms(2), of "off + m" c] Suc assms(4)
  show ?case by (auto simp: fill_unit_def)
qed (auto simp: fill_unit_def)

lemma at2_fold_fill_unit:
  assumes "length v = n * (n * 2)" "k \<le> n" "c < n * 2"
  shows "at2 (n * 2) (fold (\<lambda>i v. fill_unit (n * 2) n i n v) [0..<k] v) i c =
           (if i < k \<and> n \<le> c then if c = n + i then 1 else 0 else at2 (n * 2) v i c)"
  using assms(2)
proof (induction k)
  case (Suc k)
  let ?w = "fold (\<lambda>i v. fill_unit (n * 2) n i n v) [0..<k] v"
  have "length ?w = n * (n * 2)" using assms(1) by simp
  from at2_fill_unit [OF this, of k n n c] Suc assms(3)
  show ?case by auto
qed simp

lemma at2_clear_cell:
  assumes "length v = n * (n * 2)" "s < n" "r < n" "c < n * 2"
  shows "at2 (n * 2) (clear_cell n s r v) i c =
     (if i = r \<and> (c = s \<or> c = n + s) then at2 (n * 2) v i c XOR at2 (n * 2) v r s
      else at2 (n * 2) v i c)"
  using at2_set2 [of "set2 (n * 2) v r s 0" n "n * 2" r "n + s" c] at2_set2 [of v n "n * 2" r s c]
    at2_set2 [of v n "n * 2" r s "n + s"] assms
  by (auto simp: clear_cell_def Let_def)

lemma at2_clear_cells:
  assumes "length v = n * (n * 2)" "s < n" "set rs \<subseteq> {..<n}" "c < n" "distinct rs"
  shows "at2 (n * 2) (fold (clear_cell n s) rs v) i c =
     (if i \<in> set rs \<and> c = s then 0 else at2 (n * 2) v i c)"
  using assms
proof (induction rs arbitrary: v)
  case (Cons r rs)
  have "length (clear_cell n s r v) = n * (n * 2)" "r < n" using Cons.prems by auto
  thus ?case using Cons.IH [of "clear_cell n s r v"] Cons.prems by (auto simp: at2_clear_cell)
qed simp

lemma length_clear_known [simp]: "length (clear_known n ss rs v) = length v"
  by (simp add: clear_known_def)

lemma at2_clear_known:
  assumes "length v = n * (n * 2)" "set ss \<subseteq> {..<n}" "set rs \<subseteq> {..<n}" "distinct rs" "c < n"
  shows "at2 (n * 2) (clear_known n ss rs v) i c =
     (if i \<in> set rs \<and> c \<in> set ss then 0 else at2 (n * 2) v i c)"
  using assms(1,2)
proof (induction ss arbitrary: v)
  case (Cons s ss)
  have "length (fold (clear_cell n s) rs v) = n * (n * 2)" using Cons.prems by simp
  from Cons.IH [OF this] Cons.prems at2_clear_cells [OF Cons.prems(1) _ assms(3,5,4)]
  show ?case by (auto simp: clear_known_def)
qed (simp add: clear_known_def)

lemma row_dot_cong:
  "(\<And>j. j < cols \<Longrightarrow> at2 cols w i j = at2 cols v i' j) \<Longrightarrow> row_dot g cols w i z = row_dot g cols v i' z"
  unfolding row_dot_def by (intro xsum_cong) simp

context galois_field
begin

lemma row_dot_clear_cell:
  assumes "length v = n * (n * 2)" "s < n" "r < n" "z (n + s) = z s"
  shows "row_dot gmul (n * 2) (clear_cell n s r v) i z = row_dot gmul (n * 2) v i z"
proof (cases "i = r")
  case True
  let ?m = "at2 (n * 2) v r s"
  have "row_dot gmul (n * 2) (clear_cell n s r v) i z =
      xsum (\<lambda>j. gf8 gmul (at2 (n * 2) v i j) (z j) XOR
                ((if j = s then gf8 gmul ?m (z j) else 0) XOR
                 (if j = n + s then gf8 gmul ?m (z j) else 0))) (n * 2)"
    unfolding row_dot_def using True assms(2)
    by (intro xsum_cong) (auto simp: at2_clear_cell [OF assms(1-3)] xor_mul)
  thus ?thesis using assms(2,4) by (simp add: xsum_xor xsum_delta row_dot_def)
next
  case False
  thus ?thesis by (intro row_dot_cong) (simp add: at2_clear_cell [OF assms(1-3)])
qed

lemma row_dot_clear_cells:
  assumes "length v = n * (n * 2)" "s < n" "set rs \<subseteq> {..<n}" "z (n + s) = z s"
  shows "row_dot gmul (n * 2) (fold (clear_cell n s) rs v) i z = row_dot gmul (n * 2) v i z"
  using assms(1,3) by (induction rs arbitrary: v) (simp_all add: row_dot_clear_cell assms(2,4))

lemma row_dot_clear_known:
  assumes "length v = n * (n * 2)" "set ss \<subseteq> {..<n}" "set rs \<subseteq> {..<n}" "\<forall>s \<in> set ss. z (n + s) = z s"
  shows "row_dot gmul (n * 2) (clear_known n ss rs v) i z = row_dot gmul (n * 2) v i z"
  using assms(1,2,4) unfolding clear_known_def
  by (induction ss arbitrary: v) (simp_all add: row_dot_clear_cells [OF _ _ assms(3)])

lemma row_dot_right_unit:
  assumes "i < n" and right: "\<And>j. j < n \<Longrightarrow> at2 (n * 2) v i (n + j) = (if j = i then 1 else 0)"
  shows "row_dot gmul (n * 2) v i z = xsum (\<lambda>j. gf8 gmul (at2 (n * 2) v i j) (z j)) n XOR z (n + i)"
proof -
  have "xsum (\<lambda>j. gf8 gmul (at2 (n * 2) v i (n + j)) (z (n + j))) n = z (n + i)"
    by (subst xsum_single [OF assms(1)]) (auto simp: right assms(1) mul_one mul_zero_left)
  thus ?thesis using xsum_split [of _ n n] by (simp add: row_dot_def mult_2_right)
qed

lemma row_dot_left_unit:
  assumes "i < n" and left: "\<And>j. j < n \<Longrightarrow> at2 (n * 2) v i j = (if j = i then 1 else 0)"
  shows "row_dot gmul (n * 2) v i z = z i XOR xsum (\<lambda>j. gf8 gmul (at2 (n * 2) v i (n + j)) (z (n + j))) n"
proof -
  have "xsum (\<lambda>j. gf8 gmul (at2 (n * 2) v i j) (z j)) n = z i"
    by (subst xsum_single [OF assms(1)]) (auto simp: left assms(1) mul_one mul_zero_left)
  thus ?thesis using xsum_split [of _ n n] by (simp add: row_dot_def mult_2_right)
qed

end

subsection \<open>Solving the system\<close>

definition split_rows :: "nat \<Rightarrow> nat list \<Rightarrow> nat list \<Rightarrow> bool" where
  "split_rows n ss rs \<longleftrightarrow> distinct rs \<and> set ss \<union> set rs = {..<n} \<and> set ss \<inter> set rs = {}"

definition prepared :: "nat \<Rightarrow> nat list \<Rightarrow> nat list \<Rightarrow> byte list \<Rightarrow> byte list" where
  "prepared n ss rs v = clear_known n ss rs (fold (\<lambda>i v. fill_unit (n * 2) n i n v) [0..<n] v)"

lemma invert_rows_prepared:
  "invert_rows check g gd n ss rs v =
     map_option (backward_elim g gd (n * 2) (rev rs)) (forward_elim check g gd (n * 2) rs (prepared n ss rs v))"
  by (simp add: invert_rows_def prepared_def Let_def)

lemma elim_rows_prepared:
  "length v = n * (n * 2) \<Longrightarrow> split_rows n ss rs \<Longrightarrow> elim_rows n (n * 2) (prepared n ss rs v) rs"
  by (auto simp: elim_rows_def split_rows_def prepared_def)

lemma at2_prepared:
  assumes "length v = n * (n * 2)" "split_rows n ss rs" "c < n"
  shows "at2 (n * 2) (prepared n ss rs v) i c = (if i \<in> set rs \<and> c \<in> set ss then 0 else at2 (n * 2) v i c)"
  unfolding prepared_def using assms
  by (subst at2_clear_known) (auto simp: split_rows_def at2_fold_fill_unit)

context galois_field
begin

lemma row_dot_prepared:
  assumes "length v = n * (n * 2)" "split_rows n ss rs" "i < n" "\<forall>s \<in> set ss. z (n + s) = z s"
  shows "row_dot gmul (n * 2) (prepared n ss rs v) i z =
           xsum (\<lambda>j. gf8 gmul (at2 (n * 2) v i j) (z j)) n XOR z (n + i)"
proof -
  have sub: "set ss \<subseteq> {..<n}" "set rs \<subseteq> {..<n}" using assms(2) by (auto simp: split_rows_def)
  show ?thesis
    unfolding prepared_def using assms(1,3)
    by (simp add: row_dot_clear_known [OF _ sub assms(4)] row_dot_right_unit [OF assms(3)]
        at2_fold_fill_unit cong: xsum_cong)
qed

lemma invert_rows_solves:
  assumes len: "length v = n * (n * 2)" and split: "split_rows n ss rs"
    and inv: "invert_rows True gmul gdiv n ss rs v = Some w"
    and eq: "\<And>i. i < n \<Longrightarrow> xsum (\<lambda>j. gf8 gmul (at2 (n * 2) v i j) (x j)) n = y i"
    and known: "\<And>s. s \<in> set ss \<Longrightarrow> y s = x s" and r: "r \<in> set rs"
  shows "xsum (\<lambda>j. gf8 gmul (at2 (n * 2) w r (n + j)) (y j)) n = x r"
proof -
  define z where "z j = (if j < n then x j else y (j - n))" for j
  let ?p = "prepared n ss rs v"
  obtain u where u: "forward_elim True gmul gdiv (n * 2) rs ?p = Some u"
    and w: "w = backward_elim gmul gdiv (n * 2) (rev rs) u"
    using inv by (auto simp: invert_rows_prepared)
  have rs: "set rs \<subseteq> {..<n}" "distinct rs" "set ss \<union> set rs = {..<n}" using split by (auto simp: split_rows_def)
  note el = elim_rows_prepared [OF len split]
  have "\<forall>s \<in> set ss. z (n + s) = z s" using known split by (auto simp: z_def split_rows_def)
  note dot = row_dot_prepared [OF len split _ this]
  have "row_dot gmul (n * 2) ?p i z = 0" if "i < n" for i
    using eq [OF that] that by (simp add: dot z_def cong: xsum_cong)
  note sol_u = forward_elim_solutions [OF el u this]
  have up: "upward n (n * 2) u (rev rs)"
    using el forward_elim_shape [OF el u] length_forward_elim [OF u]
    by (auto simp: upward_def elim_rows_def unit_diag_def cleared_def sorted_wrt_rev)
  have "row_dot gmul (n * 2) w r z = 0"
    unfolding w using rs r by (intro backward_elim_solutions [OF up sol_u]) auto
  moreover have "at2 (n * 2) w r j = (if j = r then 1 else 0)" if "j < n" for j
  proof (cases "j \<in> set rs")
    case True
    thus ?thesis using backward_elim_identity [OF up] r by (auto simp: w)
  next
    case False
    have j: "j < n * 2" "j \<in> set ss" using that False rs(3) by auto
    have "\<forall>r \<in> set rs. at2 (n * 2) ?p r j = 0" using j that by (simp add: at2_prepared [OF len split])
    from forward_elim_zero_column [OF el u j(1) this]
    have "\<forall>r \<in> set (rev rs). at2 (n * 2) u r j = 0" by simp
    from backward_elim_zero_column [OF up j(1) this] show ?thesis using r False by (auto simp: w)
  qed
  ultimately show ?thesis
    using row_dot_left_unit [of r n w z] r rs(1) by (auto simp: z_def xor_eq_0_iff)
qed

end

end
