(* ===== verification/RS_Coding.thy ===== *)
theory RS_Coding
  imports RS_Elim
begin

text \<open>
  What the coding matrices of \<^verbatim>\<open>reed_sol_matrix.cc\<close> contain: powers of the base numbers.
\<close>

definition stream_positions :: "int list \<Rightarrow> nat \<Rightarrow> nat \<Rightarrow> nat list" where
  "stream_positions pmask mask_len i = filter (\<lambda>p. pmask ! p AND 1 \<noteq> 0) [i..<mask_len]"

lemma filter_upt_step: "i < n \<Longrightarrow> filter P [i..<n] = (if P i then i # filter P [Suc i..<n] else filter P [Suc i..<n])"
  by (simp add: upt_conv_Cons)

lemma filter_upt_hd:
  assumes "filter P [i..<n] = p # ps"
  shows "P p \<and> i \<le> p \<and> p < n \<and> filter P [Suc p..<n] = ps"
  using assms
proof (induction "n - i" arbitrary: i)
  case (Suc d)
  have "i < n" using Suc(2) by simp
  show ?case
  proof (cases "P i")
    case True thus ?thesis using Suc.prems \<open>i < n\<close> by (auto simp: filter_upt_step)
  next
    case False
    moreover have "d = n - Suc i" using Suc(2) by simp
    ultimately show ?thesis using Suc(1) [of "Suc i"] Suc.prems \<open>i < n\<close> by (simp add: filter_upt_step)
  qed
qed simp

lemma at2_fold_rows:
  assumes "length v = rows * cols" "off + k \<le> rows" "c < cols"
    and len: "\<And>i v. length (f i v) = length v"
    and f: "\<And>i v r. length v = rows * cols \<Longrightarrow> i < k \<Longrightarrow> at2 cols (f i v) r c = (if r = off + i then h i else at2 cols v r c)"
  shows "at2 cols (fold f [0..<k] v) r c = (if off \<le> r \<and> r < off + k then h (r - off) else at2 cols v r c)"
  using assms(2) f
proof (induction k)
  case (Suc k)
  have "at2 cols (f k (fold f [0..<k] v)) r c = (if r = off + k then h k else at2 cols (fold f [0..<k] v) r c)"
    by (rule Suc.prems(2)) (simp_all add: len assms(1))
  thus ?case using Suc by auto
qed auto

context galois_ring
begin

lemma mul_int: "gmul (uint (a :: byte)) (uint (b :: byte)) = uint (gf8 gmul a b)"
  by (simp add: uint_mul)

lemma fill_powers_state:
  assumes "length v = rows * cols" "r < rows" "m \<le> cols" "c < cols"
  shows "(case fold (\<lambda>j (v, tmp). (set2 cols v r j (word_of_int tmp), gmul tmp (uint b))) [0..<m] (v, 1) of
     (w, tmp) \<Rightarrow> length w = length v \<and> tmp = uint (gf_pow gmul b m) \<and>
       at2 cols w i c = (if i = r \<and> c < m then gf_pow gmul b c else at2 cols v i c))"
  using assms(3)
proof (induction m)
  case (Suc m)
  obtain w tmp where w: "fold (\<lambda>j (v, tmp). (set2 cols v r j (word_of_int tmp), gmul tmp (uint b))) [0..<m] (v, 1) = (w, tmp)"
    by (cases "fold (\<lambda>j (v, tmp). (set2 cols v r j (word_of_int tmp), gmul tmp (uint b))) [0..<m] (v, 1)")
  hence ih: "length w = rows * cols" "tmp = uint (gf_pow gmul b m)"
      "at2 cols w i c = (if i = r \<and> c < m then gf_pow gmul b c else at2 cols v i c)"
    using Suc assms(1) by auto
  show ?case
    using ih(3) at2_set2 [OF ih(1) assms(2) _ assms(4), of m] Suc.prems ih(1,2) assms(1)
    by (auto simp: w mul_int)
qed simp

lemma at2_fill_powers:
  assumes "length v = rows * cols" "r < rows" "m \<le> cols" "c < cols"
  shows "at2 cols (fill_powers gmul cols r m (uint b) v) i c =
           (if i = r \<and> c < m then gf_pow gmul b c else at2 cols v i c)"
  using fill_powers_state [OF assms, of b i] unfolding fill_powers_def by (simp only: case_prod_unfold)

end

lemma length_fold_fst [simp]:
  "length (fst (fold (\<lambda>j (v, tmp). (set2 cols v r j (f tmp), h tmp)) js s)) = length (fst s)"
  by (induction js arbitrary: s) (auto split: prod.splits)

lemma length_fill_powers [simp]: "length (fill_powers g cols r m mul v) = length v"
  by (simp add: fill_powers_def)

context galois_ring
begin

lemma full_coding_matrix_cells:
  assumes "length bs = k" "i < n + k" "j < n"
  shows "at2 n (reed_sol_full_coding_matrix gmul n k (map uint bs)) i j =
           (if i < n then if i = j then 1 else 0 else gf_pow gmul (bs ! (i - n)) j)"
proof -
  let ?u = "fold (\<lambda>i v. fill_unit n 0 i n v) [0..<n] (replicate ((n + k) * n) 0)"
  have u: "at2 n ?u r j = (if 0 \<le> r \<and> r < 0 + n then if r - 0 = j then 1 else 0 else at2 n (replicate ((n + k) * n) 0) r j)" for r
    by (rule at2_fold_rows [where rows = "n + k"])
       (use assms in \<open>auto simp: at2_fill_unit [where rows = "n + k"]\<close>)
  have "length ?u = (n + k) * n" by simp
  hence "at2 n (fold (\<lambda>i v. fill_powers gmul n (i + n) n (map uint bs ! i) v) [0..<k] ?u) i j =
          (if n \<le> i \<and> i < n + k then gf_pow gmul (bs ! (i - n)) j else at2 n ?u i j)"
    by (rule at2_fold_rows [where rows = "n + k"])
       (use assms in \<open>auto simp: at2_fill_powers [where rows = "n + k"]\<close>)
  thus ?thesis using assms u [of i] by (simp add: reed_sol_full_coding_matrix_def Let_def)
qed

lemma sub_coding_matrix_cells:
  assumes "length bs = k" "i < k" "j < n"
  shows "at2 n (reed_sol_sub_coding_matrix gmul n k (map uint bs)) i j = gf_pow gmul (bs ! i) j"
proof -
  have "at2 n (fold (\<lambda>i v. fill_powers gmul n i n (map uint bs ! i) v) [0..<k] (replicate (k * n) 0)) i j =
          (if 0 \<le> i \<and> i < 0 + k then gf_pow gmul (bs ! (i - 0)) j else at2 n (replicate (k * n) 0) i j)"
    by (rule at2_fold_rows [where rows = k])
       (use assms in \<open>auto simp: at2_fill_powers [where rows = k]\<close>)
  thus ?thesis using assms by (simp add: reed_sol_sub_coding_matrix_def Let_def)
qed

lemma skip_unmasked_next:
  assumes "stream_positions pmask mask_len i = p # ps" "mask_len \<le> length pmask"
  shows "skip_unmasked gmul pmask mask_len (uint b) i (uint (gf_pow gmul b i)) =
           Inr (Some (p, uint (gf_pow gmul b p)))"
  using assms(1)
proof (induction "mask_len - i" arbitrary: i)
  case 0
  thus ?case by (simp add: stream_positions_def)
next
  case (Suc d)
  have i: "i < mask_len" "i < length pmask" using Suc(2) assms(2) by auto
  show ?case
  proof (cases "pmask ! i AND 1 \<noteq> 0")
    case True
    hence "p = i" using Suc.prems i by (simp add: stream_positions_def filter_upt_step)
    thus ?thesis using True i by (simp add: skip_unmasked.simps [of _ _ _ _ i])
  next
    case False
    hence rest: "stream_positions pmask mask_len (Suc i) = p # ps"
      using Suc.prems i by (simp add: stream_positions_def filter_upt_step)
    have "Suc i < mask_len" using filter_upt_hd [OF rest [unfolded stream_positions_def]] by simp
    moreover have "gmul (uint (gf_pow gmul b i)) (uint b) = uint (gf_pow gmul b (Suc i))" by (simp add: mul_int)
    ultimately show ?thesis
      using False i Suc(1) [OF _ rest] Suc(2) by (simp add: skip_unmasked.simps [of _ _ _ _ i])
  qed
qed

lemma stream_coding_row_cells:
  assumes "length v = rows * cols" "r < rows" "mask_len \<le> length pmask"
    and "stream_positions pmask mask_len mask_id = drop j (stream_positions pmask mask_len 0)"
    and "cols \<le> length (stream_positions pmask mask_len 0)" "j \<le> cols"
  shows "\<exists>w. stream_coding_row gmul cols r pmask mask_len (uint b) [j..<cols] v mask_id (uint (gf_pow gmul b mask_id)) = Inr (Some w)
     \<and> length w = length v \<and> (\<forall>i c. c < cols \<longrightarrow> at2 cols w i c =
       (if i = r \<and> j \<le> c then gf_pow gmul b (stream_positions pmask mask_len 0 ! c) else at2 cols v i c))"
  using assms(1,4,6)
proof (induction "cols - j" arbitrary: j v mask_id)
  case (Suc d)
  let ?pos = "stream_positions pmask mask_len 0"
  have j: "j < cols" "j < length ?pos" and d: "d = cols - Suc j" using Suc(2) assms(5) by auto
  have pos: "stream_positions pmask mask_len mask_id = ?pos ! j # drop (Suc j) ?pos"
    using Suc.prems(2) j(2) by (simp add: Cons_nth_drop_Suc)
  define p where "p = ?pos ! j"
  have rest: "stream_positions pmask mask_len (Suc p) = drop (Suc j) ?pos"
    using filter_upt_hd [OF pos [unfolded stream_positions_def]] unfolding p_def stream_positions_def by simp
  let ?v = "set2 cols v r j (gf_pow gmul b p)"
  obtain w where w: "stream_coding_row gmul cols r pmask mask_len (uint b) [Suc j..<cols] ?v (Suc p) (uint (gf_pow gmul b (Suc p))) = Inr (Some w)"
    "length w = length ?v" "\<And>i c. c < cols \<Longrightarrow> at2 cols w i c = (if i = r \<and> Suc j \<le> c then gf_pow gmul b (?pos ! c) else at2 cols ?v i c)"
    using Suc(1) [OF d, of ?v "Suc p"] Suc.prems(1) rest j(1) by auto
  have step: "stream_coding_row gmul cols r pmask mask_len (uint b) [j..<cols] v mask_id (uint (gf_pow gmul b mask_id)) = Inr (Some w)"
    using skip_unmasked_next [OF pos assms(3), of b] w(1) j(1)
    by (simp add: upt_conv_Cons p_def mul_int)
  have "at2 cols w i c = (if i = r \<and> j \<le> c then gf_pow gmul b (?pos ! c) else at2 cols v i c)" if "c < cols" for i c
    using w(3) [OF that] at2_set2 [OF Suc.prems(1) assms(2) j(1) that] by (auto simp: p_def)
  thus ?case using step w(2) by auto
qed auto

lemma stream_coding_rows_cells:
  assumes "length v = k * cols" "mask_len \<le> length pmask" "length bs = k" "i \<le> k"
    and "cols \<le> length (stream_positions pmask mask_len 0)"
  shows "\<exists>w. stream_coding_rows gmul cols (map uint bs) pmask mask_len [i..<k] v = Inr (Some w) \<and>
     length w = length v \<and> (\<forall>r c. r < k \<longrightarrow> c < cols \<longrightarrow> at2 cols w r c =
       (if i \<le> r then gf_pow gmul (bs ! r) (stream_positions pmask mask_len 0 ! c) else at2 cols v r c))"
  using assms(1,4)
proof (induction "k - i" arbitrary: i v)
  case (Suc d)
  have i: "i < k" and d: "d = k - Suc i" using Suc(2) by auto
  obtain u where u: "stream_coding_row gmul cols i pmask mask_len (uint (bs ! i)) [0..<cols] v 0 1 = Inr (Some u)"
    "length u = length v" "\<And>r c. c < cols \<Longrightarrow> at2 cols u r c =
       (if r = i then gf_pow gmul (bs ! i) (stream_positions pmask mask_len 0 ! c) else at2 cols v r c)"
    using stream_coding_row_cells [OF Suc.prems(1) i assms(2) _ assms(5), of 0 0 "bs ! i"] by auto
  obtain w where w: "stream_coding_rows gmul cols (map uint bs) pmask mask_len [Suc i..<k] u = Inr (Some w)"
    "length w = length u" "\<And>r c. r < k \<Longrightarrow> c < cols \<Longrightarrow> at2 cols w r c =
       (if Suc i \<le> r then gf_pow gmul (bs ! r) (stream_positions pmask mask_len 0 ! c) else at2 cols u r c)"
    using Suc(1) [OF d, of u] Suc.prems(1) u(2) i by auto
  have "stream_coding_rows gmul cols (map uint bs) pmask mask_len [i..<k] v = Inr (Some w)"
    using u(1) w(1) i assms(3) by (simp add: upt_conv_Cons)
  moreover have "at2 cols w r c =
       (if i \<le> r then gf_pow gmul (bs ! r) (stream_positions pmask mask_len 0 ! c) else at2 cols v r c)"
    if "r < k" "c < cols" for r c
    using w(3) [OF that] u(3) [OF that(2), of r] by (auto simp: le_antisym not_less_eq_eq)
  ultimately show ?case using w(2) u(2) by auto
qed auto

lemma sub_stream_coding_matrix_cells:
  assumes "length bs = k" "mask_len \<le> length pmask" "n \<le> length (stream_positions pmask mask_len 0)"
  shows "\<exists>w. reed_sol_sub_stream_coding_matrix gmul n k (map uint bs) pmask mask_len = Inr (Some w) \<and>
     length w = k * n \<and> (\<forall>r c. r < k \<longrightarrow> c < n \<longrightarrow>
       at2 n w r c = gf_pow gmul (bs ! r) (stream_positions pmask mask_len 0 ! c))"
  using stream_coding_rows_cells [OF _ assms(2,1) _ assms(3), of "replicate (k * n) 0" 0]
  by (simp add: reed_sol_sub_stream_coding_matrix_def)

end

end
