(* ===== verification/RS_Decoding.thy ===== *)
theory RS_Decoding
  imports RS_Coding
begin

text \<open>
  The decoding matrices of \<^verbatim>\<open>reed_sol_matrix.cc\<close> recover the lost packets.
\<close>

subsection \<open>The rows of the lost packets\<close>

definition lost_rows :: "nat \<Rightarrow> (nat \<Rightarrow> bool) \<Rightarrow> nat list" where
  "lost_rows n known = filter (\<lambda>i. \<not> known i) [0..<n]"

definition known_rows :: "nat \<Rightarrow> (nat \<Rightarrow> bool) \<Rightarrow> nat list" where
  "known_rows n known = filter known [0..<n]"

lemma split_lost_known: "split_rows n (known_rows n known) (lost_rows n known)"
  by (auto simp: split_rows_def lost_rows_def known_rows_def)

lemma length_lost_mono: "i \<le> n \<Longrightarrow> length (lost_rows i known) \<le> length (lost_rows n known)"
  by (metis length_append lost_rows_def filter_append le_add1 le_add_diff_inverse upt_add_eq_append zero_order(1))

lemma lost_rows_nth:
  assumes "a < length (lost_rows n known)"
  shows "length (lost_rows (lost_rows n known ! a) known) = a"
  using assms
proof (induction n)
  case (Suc n)
  show ?case
  proof (cases "a < length (lost_rows n known)")
    case True thus ?thesis using Suc by (simp add: lost_rows_def nth_append)
  next
    case False
    thus ?thesis using Suc.prems by (auto simp: lost_rows_def nth_append split: if_splits)
  qed
qed (simp add: lost_rows_def)

definition writes_row :: "nat \<Rightarrow> (nat \<Rightarrow> nat \<Rightarrow> byte list \<Rightarrow> byte list) \<Rightarrow> (nat \<Rightarrow> nat \<Rightarrow> byte) \<Rightarrow> nat \<Rightarrow> bool" where
  "writes_row n row_of coef l \<longleftrightarrow> (\<forall>i v. length v = n * (n * 2) \<longrightarrow> i < n \<longrightarrow>
     length (row_of l i v) = length v \<and> (\<forall>r c. c < n \<longrightarrow>
       at2 (n * 2) (row_of l i v) r c = (if r = i then coef l c else at2 (n * 2) v r c)))"

definition lost_cell :: "(nat \<Rightarrow> bool) \<Rightarrow> (nat \<Rightarrow> nat \<Rightarrow> byte) \<Rightarrow> nat \<Rightarrow> nat \<Rightarrow> byte" where
  "lost_cell known coef i c =
     (if known i then if i = c then 1 else 0 else coef (length (lost_rows i known)) c)"

lemma fill_rows_cells:
  assumes "\<And>l. l < k \<Longrightarrow> writes_row n row_of coef l"
    and "length (lost_rows n known) \<le> k" "length v = n * (n * 2)" "i \<le> n"
  shows "\<exists>w. fill_rows n k known row_of [i..<n] v (known_rows i known) (lost_rows i known) =
       Some (w, known_rows n known, lost_rows n known) \<and> length w = n * (n * 2) \<and>
     (\<forall>r c. r < n \<longrightarrow> c < n \<longrightarrow> at2 (n * 2) w r c =
       (if i \<le> r then lost_cell known coef r c else at2 (n * 2) v r c))"
  using assms(3,4)
proof (induction "n - i" arbitrary: i v)
  case (Suc d)
  have i: "i < n" and d: "d = n - Suc i" using Suc(2) by auto
  have less: "length (lost_rows i known) < k" if "\<not> known i"
    using that length_lost_mono [of "Suc i" n known] i assms(2) by (simp add: lost_rows_def)
  define u where "u = (if known i then fill_unit (n * 2) 0 i n v else row_of (length (lost_rows i known)) i v)"
  have u: "length u = n * (n * 2) \<and> (\<forall>r c. c < n \<longrightarrow>
      at2 (n * 2) u r c = (if r = i then lost_cell known coef i c else at2 (n * 2) v r c))"
    using assms(1) [OF less] i Suc.prems(1)
    by (auto simp: u_def writes_row_def lost_cell_def at2_fill_unit [OF Suc.prems(1)])
  have "fill_rows n k known row_of [i..<n] v (known_rows i known) (lost_rows i known) =
      fill_rows n k known row_of [Suc i..<n] u (known_rows (Suc i) known) (lost_rows (Suc i) known)"
    using i less by (auto simp: upt_conv_Cons u_def known_rows_def lost_rows_def)
  moreover obtain w where "fill_rows n k known row_of [Suc i..<n] u (known_rows (Suc i) known) (lost_rows (Suc i) known) =
       Some (w, known_rows n known, lost_rows n known)" "length w = n * (n * 2)"
     "\<forall>r c. r < n \<longrightarrow> c < n \<longrightarrow> at2 (n * 2) w r c =
       (if Suc i \<le> r then lost_cell known coef r c else at2 (n * 2) u r c)"
    using Suc(1) [OF d, of u] u i by auto
  moreover have "Suc i \<le> r \<longleftrightarrow> i \<le> r \<and> r \<noteq> i" for r by auto
  ultimately show ?case using u by auto
qed auto

lemma fill_rows_None:
  assumes "k < length (lost_rows n known)" "length (lost_rows i known) \<le> k" "i \<le> n"
  shows "fill_rows n k known row_of [i..<n] v (known_rows i known) (lost_rows i known) = None"
  using assms(2,3)
proof (induction "n - i" arbitrary: i v)
  case 0
  hence "i = n" by simp
  thus ?case using assms(1) 0 by simp
next
  case (Suc d)
  have i: "i < n" and d: "d = n - Suc i" using Suc(2) by auto
  show ?case
  proof (cases "known i \<or> length (lost_rows i known) < k")
    case True
    hence "length (lost_rows (Suc i) known) \<le> k" using Suc.prems by (auto simp: lost_rows_def)
    from Suc(1) [OF d this] True i show ?thesis
      by (auto simp: upt_conv_Cons known_rows_def lost_rows_def)
  next
    case False
    thus ?thesis using i by (simp add: upt_conv_Cons)
  qed
qed

lemma length_concat_rows:
  "(\<And>i. i < m \<Longrightarrow> length (f i) = n) \<Longrightarrow> length (concat (map f [0..<m])) = m * n"
  by (induction m) simp_all

lemma concat_rows_nth:
  assumes "\<And>i. i < m \<Longrightarrow> length (f i) = n" "i < m" "j < n"
  shows "concat (map f [0..<m]) ! (i * n + j) = f i ! j"
  using assms
proof (induction m)
  case (Suc m)
  have len: "length (concat (map f [0..<m])) = m * n"
    using Suc.prems(1) by (simp add: length_concat_rows)
  show ?case
  proof (cases "i = m")
    case True thus ?thesis using len Suc.prems(3) by (simp add: nth_append)
  next
    case False
    hence "i < m" using Suc.prems(2) by simp
    thus ?thesis using Suc len index2_less [of i m j n] by (simp add: nth_append)
  qed
qed simp

lemma length_copy_right [simp]: "length (copy_right n rows v) = length rows * n"
  by (induction rows) (simp_all add: copy_right_def)

lemma at2_copy_right:
  assumes "a < length rows" "j < n"
  shows "at2 n (copy_right n rows v) a j = at2 (n * 2) v (rows ! a) (n + j)"
proof -
  have "map (\<lambda>i. map (\<lambda>j. at2 (n * 2) v i (n + j)) [0..<n]) rows =
      map (\<lambda>a. map (\<lambda>j. at2 (n * 2) v (rows ! a) (n + j)) [0..<n]) [0..<length rows]"
    by (rule nth_equalityI) simp_all
  thus ?thesis
    unfolding at2_def [of n] copy_right_def using assms
    by (simp add: concat_rows_nth [of "length rows" "\<lambda>a. map (\<lambda>j. at2 (n * 2) v (rows ! a) (n + j)) [0..<n]" n])
qed

context galois_field
begin

text \<open>The system of the filled rows is solved by the right half of the inverted matrix.\<close>

lemma solve_lost:
  assumes cells: "\<And>r c. r < n \<Longrightarrow> c < n \<Longrightarrow> at2 (n * 2) v r c = lost_cell known coef r c"
    and len: "length v = n * (n * 2)"
    and inv: "invert_rows True gmul gdiv n (known_rows n known) (lost_rows n known) v = Some w"
    and known: "\<And>i. i < n \<Longrightarrow> known i \<Longrightarrow> y i = x i"
    and parity: "\<And>a. a < length (lost_rows n known) \<Longrightarrow>
      y (lost_rows n known ! a) = xsum (\<lambda>j. gf8 gmul (coef a j) (x j)) n"
    and r: "r \<in> set (lost_rows n known)"
  shows "xsum (\<lambda>j. gf8 gmul (at2 (n * 2) w r (n + j)) (y j)) n = x r"
proof (rule invert_rows_solves [OF len split_lost_known inv _ _ r])
  fix i assume i: "i < n"
  show "xsum (\<lambda>j. gf8 gmul (at2 (n * 2) v i j) (x j)) n = y i"
  proof (cases "known i")
    case True
    have "xsum (\<lambda>j. gf8 gmul (at2 (n * 2) v i j) (x j)) n = gf8 gmul (at2 (n * 2) v i i) (x i)"
      by (rule xsum_single [OF i]) (simp add: cells i lost_cell_def True mul_zero_left)
    thus ?thesis by (simp add: cells i lost_cell_def True mul_one known)
  next
    case False
    hence "i \<in> set (lost_rows n known)" using i by (simp add: lost_rows_def)
    then obtain a where a: "a < length (lost_rows n known)" "lost_rows n known ! a = i"
      by (auto simp: in_set_conv_nth)
    have "xsum (\<lambda>j. gf8 gmul (at2 (n * 2) v i j) (x j)) n = xsum (\<lambda>j. gf8 gmul (coef a j) (x j)) n"
      using lost_rows_nth [OF a(1)] a(2) by (intro xsum_cong) (simp add: cells i lost_cell_def False)
    thus ?thesis using parity [OF a(1)] a(2) by simp
  qed
qed (use known in \<open>auto simp: known_rows_def\<close>)

end

subsection \<open>The window variant\<close>

definition set_positions :: "bool list \<Rightarrow> nat \<Rightarrow> nat list" where
  "set_positions m i = filter (\<lambda>p. m ! p) [i..<length m]"

text \<open>
  The coefficient of the \<open>j\<close>-th selected packet in a parity packet with base \<open>b\<close>: the power
  of its distance to the first protected packet, or 0 when it is not protected.
\<close>

definition skip_coef :: "gf_op \<Rightarrow> byte \<Rightarrow> bool list \<Rightarrow> nat list \<Rightarrow> nat \<Rightarrow> byte" where
  "skip_coef g b prot ps j =
     (if prot ! (ps ! j) then gf_pow g b (ps ! j - hd (filter (\<lambda>p. prot ! p) ps)) else 0)"

lemma set_positions_step:
  "i < length m \<Longrightarrow> set_positions m i = (if m ! i then i # set_positions m (Suc i) else set_positions m (Suc i))"
  by (simp add: set_positions_def filter_upt_step)

lemma skip_unset_step:
  "i < length m \<Longrightarrow> skip_unset m i = (if m ! i then i else skip_unset m (Suc i))"
  "\<not> i < length m \<Longrightarrow> skip_unset m i = i"
  by (simp_all add: skip_unset.simps [of _ i])

lemma skip_unset_next:
  "set_positions m i = p # ps \<Longrightarrow> skip_unset m i = p \<and> p < length m \<and> i \<le> p \<and> set_positions m (Suc p) = ps"
proof (induction "length m - i" arbitrary: i)
  case (Suc d)
  have i: "i < length m" and d: "d = length m - Suc i" using Suc(2) by auto
  show ?case
    using Suc(1) [OF d] Suc.prems i
    by (cases "m ! i") (auto simp: set_positions_step skip_unset_step(1))
qed (simp add: set_positions_def)

lemma skip_unset_end: "set_positions m i = [] \<Longrightarrow> length m \<le> skip_unset m i"
proof (induction "length m - i" arbitrary: i)
  case (Suc d)
  have i: "i < length m" and d: "d = length m - Suc i" using Suc(2) by auto
  show ?case
    using Suc(1) [OF d] Suc.prems i by (cases "m ! i") (auto simp: set_positions_step skip_unset_step(1))
qed (simp add: skip_unset_step(2))

lemma fst_skip_unset_mul: "fst (skip_unset_mul g m mul fo i tmp) = skip_unset m i"
proof (induction "length m - i" arbitrary: i tmp)
  case (Suc d)
  have i: "i < length m" and d: "d = length m - Suc i" using Suc(2) by auto
  show ?case using Suc(1) [OF d] i
    by (simp add: skip_unset_mul.simps [of _ _ _ _ i] skip_unset_step(1))
qed (simp add: skip_unset_mul.simps skip_unset_step(2))

lemma hd_filter_first:
  assumes "j < length ps" "P (ps ! j)" "\<forall>i < j. \<not> P (ps ! i)"
  shows "hd (filter P ps) = ps ! j"
proof -
  have "filter P (take j ps) = []" using assms by (auto simp: filter_empty_conv in_set_conv_nth)
  moreover have "ps = take j ps @ ps ! j # drop (Suc j) ps" using assms(1) by (simp add: id_take_nth_drop)
  ultimately show ?thesis using assms(2) by (metis append_Nil filter.simps(2) filter_append list.sel(1))
qed

text \<open>The state of the inner loop before column \<open>j\<close>.\<close>

definition row_state :: "gf_op \<Rightarrow> byte \<Rightarrow> bool list \<Rightarrow> bool list \<Rightarrow> nat \<Rightarrow> nat \<Rightarrow> byte \<Rightarrow> bool \<Rightarrow> bool" where
  "row_state g b m prot j kj t fo \<longleftrightarrow>
     (let ps = set_positions m 0; f = hd (filter (\<lambda>p. prot ! p) ps)
      in set_positions m kj = drop j ps \<and> (fo \<longleftrightarrow> (\<exists>i < j. prot ! (ps ! i))) \<and>
         (if fo then f < kj \<and> t = gf_pow g b (kj - f) else t = 1))"

context galois_ring
begin

lemma skip_unset_mul_next:
  assumes "set_positions m i = p # ps"
  shows "skip_unset_mul gmul m (uint b) fo i (uint t) =
           (p, uint (if fo then gf8 gmul t (gf_pow gmul b (p - i)) else t))"
  using assms
proof (induction "length m - i" arbitrary: i t)
  case (Suc d)
  have i: "i < length m" and d: "d = length m - Suc i" using Suc(2) by auto
  show ?case
  proof (cases "m ! i")
    case True
    thus ?thesis using Suc.prems i
      by (simp add: set_positions_step skip_unset_mul.simps [of _ _ _ _ p] mul_one_right)
  next
    case False
    hence rest: "set_positions m (Suc i) = p # ps" using Suc.prems i by (simp add: set_positions_step)
    hence p: "p - i = Suc (p - Suc i)" using skip_unset_next by fastforce
    have "gf8 gmul (gf8 gmul t b) (gf_pow gmul b (p - Suc i)) = gf8 gmul t (gf_pow gmul b (p - i))"
      unfolding p gf_pow.simps by (simp only: mul_ac)
    thus ?thesis
      using Suc(1) [OF d rest, of t] Suc(1) [OF d rest, of "gf8 gmul t b"] False i
      by (cases fo) (simp_all add: skip_unset_mul.simps [of _ _ _ _ i] mul_int)
  qed
qed (simp add: set_positions_def)

lemma row_state_step:
  assumes st: "row_state gmul b m prot j kj t fo" and j: "j < length (set_positions m 0)"
  shows "\<exists>t'. skip_unset_mul gmul m (uint b) fo kj (uint t) = (set_positions m 0 ! j, uint t') \<and>
     set_positions m 0 ! j < length m \<and>
     (if prot ! (set_positions m 0 ! j) then t' else 0) = skip_coef gmul b prot (set_positions m 0) j \<and>
     row_state gmul b m prot (Suc j) (Suc (set_positions m 0 ! j))
       (if fo \<or> prot ! (set_positions m 0 ! j) then gf8 gmul t' b else t')
       (fo \<or> prot ! (set_positions m 0 ! j))"
proof -
  define ps where "ps = set_positions m 0"
  define f where "f = hd (filter (\<lambda>p. prot ! p) ps)"
  define p where "p = ps ! j"
  have st': "set_positions m kj = drop j ps" "fo \<longleftrightarrow> (\<exists>i < j. prot ! (ps ! i))"
      "if fo then f < kj \<and> t = gf_pow gmul b (kj - f) else t = 1"
    using st by (simp_all add: row_state_def ps_def f_def Let_def)
  have pos: "set_positions m kj = p # drop (Suc j) ps"
    using st'(1) j by (simp add: Cons_nth_drop_Suc p_def ps_def)
  note nx = skip_unset_next [OF pos]
  define t' where "t' = (if fo then gf8 gmul t (gf_pow gmul b (p - kj)) else t)"
  have t': "t' = gf_pow gmul b (p - f) \<and> f \<le> p" if "fo \<or> prot ! p"
  proof (cases fo)
    case True
    hence e: "p - f = (kj - f) + (p - kj)" using st'(3) nx by simp
    have "gf_pow gmul b (p - f) = gf8 gmul (gf_pow gmul b (kj - f)) (gf_pow gmul b (p - kj))"
      unfolding e pow_add ..
    thus ?thesis using True st'(3) nx by (simp add: t'_def)
  next
    case False
    hence "f = p" unfolding f_def p_def using that st'(2) j
      by (intro hd_filter_first) (auto simp: p_def ps_def)
    thus ?thesis using False st'(3) by (simp add: t'_def)
  qed
  have "row_state gmul b m prot (Suc j) (Suc p) (if fo \<or> prot ! p then gf8 gmul t' b else t') (fo \<or> prot ! p)"
  proof -
    have "gf8 gmul t' b = gf_pow gmul b (Suc p - f) \<and> f < Suc p" if "fo \<or> prot ! p"
      using t' [OF that] by (simp add: Suc_diff_le)
    moreover have "t' = 1" if "\<not> (fo \<or> prot ! p)" using that st'(3) by (simp add: t'_def)
    moreover have "(fo \<or> prot ! p) \<longleftrightarrow> (\<exists>i < Suc j. prot ! (ps ! i))"
      using st'(2) by (auto simp: less_Suc_eq p_def)
    ultimately show ?thesis
      using nx unfolding row_state_def Let_def ps_def [symmetric] f_def [symmetric] by (auto split: if_splits)
  qed
  moreover have "(if prot ! p then t' else 0) = skip_coef gmul b prot ps j"
    using t' by (auto simp: skip_coef_def p_def f_def)
  ultimately show ?thesis
    using skip_unset_mul_next [OF pos] nx by (auto simp: p_def ps_def t'_def)
qed

lemma skipped_row_cells:
  assumes "n \<le> length (set_positions m 0)" "row_state gmul b m prot j kj t fo" "j \<le> n"
  shows "\<exists>w. skipped_row gmul cols r (uint b) m prot [j..<n] v kj (uint t) fo = Some w \<and>
     length w = length v \<and> (length v = rows * cols \<longrightarrow> r < rows \<longrightarrow> n \<le> cols \<longrightarrow> (\<forall>i c. c < cols \<longrightarrow>
       at2 cols w i c = (if i = r \<and> j \<le> c \<and> c < n then skip_coef gmul b prot (set_positions m 0) c
                         else at2 cols v i c)))"
  using assms(2,3)
proof (induction "n - j" arbitrary: j kj t fo v)
  case (Suc d)
  let ?ps = "set_positions m 0"
  let ?p = "?ps ! j"
  have j: "j < n" and d: "d = n - Suc j" and jl: "j < length ?ps" using Suc(2) assms(1) by auto
  obtain t' where t': "skip_unset_mul gmul m (uint b) fo kj (uint t) = (?p, uint t')" "?p < length m"
      "(if prot ! ?p then t' else 0) = skip_coef gmul b prot ?ps j"
    and st: "row_state gmul b m prot (Suc j) (Suc ?p) (if fo \<or> prot ! ?p then gf8 gmul t' b else t') (fo \<or> prot ! ?p)"
    using row_state_step [OF Suc.prems(1) jl] by blast
  let ?v = "set2 cols v r j (skip_coef gmul b prot ?ps j)"
  have "skipped_row gmul cols r (uint b) m prot [j..<n] v kj (uint t) fo =
      skipped_row gmul cols r (uint b) m prot [Suc j..<n] ?v (Suc ?p)
        (uint (if fo \<or> prot ! ?p then gf8 gmul t' b else t')) (fo \<or> prot ! ?p)"
    using j t'(2) by (simp add: upt_conv_Cons t'(1) t'(3) [symmetric] Let_def mul_int)
  with Suc(1) [OF d st, of ?v] j obtain w where
    w: "skipped_row gmul cols r (uint b) m prot [j..<n] v kj (uint t) fo = Some w" "length w = length v"
      "length v = rows * cols \<longrightarrow> r < rows \<longrightarrow> n \<le> cols \<longrightarrow> (\<forall>i c. c < cols \<longrightarrow>
       at2 cols w i c = (if i = r \<and> Suc j \<le> c \<and> c < n then skip_coef gmul b prot ?ps c else at2 cols ?v i c))"
    by auto
  have "at2 cols w i c = (if i = r \<and> j \<le> c \<and> c < n then skip_coef gmul b prot ?ps c else at2 cols v i c)"
    if "length v = rows * cols" "r < rows" "n \<le> cols" "c < cols" for i c
    using w(3) that at2_set2 [OF that(1,2) _ that(4), of j] j by (auto simp: le_less_Suc_eq Suc_le_eq)
  thus ?case using w(1,2) by blast
qed auto

end

end
