(* ===== verification/RS_Recover.thy ===== *)
theory RS_Recover
  imports RS_Decoding
begin

text \<open>
  When the elimination succeeds.
\<close>

subsection \<open>Vandermonde systems\<close>

lemma xsum_support:
  assumes "distinct L" "set L \<subseteq> {..<n}" "\<And>j. j < n \<Longrightarrow> j \<notin> set L \<Longrightarrow> f j = 0"
  shows "xsum f n = xsum (\<lambda>b. f (L ! b)) (length L)"
  using assms
proof (induction L arbitrary: f)
  case Nil
  thus ?case by (simp add: xsum_zeroI)
next
  case (Cons l L)
  define h where "h j = (if j = l then 0 else f j)" for j
  have "xsum f n = xsum (\<lambda>j. h j XOR (if j = l then f j else 0)) n"
    by (intro xsum_cong) (simp add: h_def)
  also have "\<dots> = xsum h n XOR f l" using Cons.prems(2) by (simp add: xsum_xor xsum_delta)
  also have "xsum h n = xsum (\<lambda>b. h (L ! b)) (length L)"
    using Cons.prems by (intro Cons.IH) (auto simp: h_def)
  also have "\<dots> = xsum (\<lambda>b. f (L ! b)) (length L)"
    using Cons.prems(1) by (intro xsum_cong) (auto simp: h_def)
  finally show ?case unfolding list.size add_Suc_right add_0_right xsum_Suc_shift by (simp add: xor.commute)
qed

context galois_field
begin

text \<open>Distinct nodes in the columns: the homogeneous system has only the zero solution.\<close>

lemma vandermonde_columns:
  assumes "\<And>b b'. b < t \<Longrightarrow> b' < t \<Longrightarrow> \<beta> b = \<beta> b' \<Longrightarrow> b = b'"
    and "\<And>a. a < t \<Longrightarrow> xsum (\<lambda>b. gf8 gmul (gf_pow gmul (\<beta> b) a) (X b)) t = 0"
    and "b < t"
  shows "X b = 0"
  using assms
proof (induction t arbitrary: X b)
  case (Suc t)
  have "xsum (\<lambda>b. gf8 gmul (gf_pow gmul (\<beta> b) a) (gf8 gmul (\<beta> b XOR \<beta> t) (X b))) t = 0" if "a < t" for a
  proof -
    let ?s = "\<lambda>a. xsum (\<lambda>b. gf8 gmul (gf_pow gmul (\<beta> b) a) (X b)) (Suc t)"
    have "?s (Suc a) XOR gf8 gmul (\<beta> t) (?s a) =
        xsum (\<lambda>b. gf8 gmul (gf_pow gmul (\<beta> b) a) (gf8 gmul (\<beta> b XOR \<beta> t) (X b))) (Suc t)"
      unfolding mul_xsum xsum_xor [symmetric]
      by (intro xsum_cong) (simp add: mul_xor xor_mul mul_ac)
    thus ?thesis using Suc.prems(2) [of a] Suc.prems(2) [of "Suc a"] that by (simp add: mul_zero mul_zero_left)
  qed
  note k = this
  have "gf8 gmul (\<beta> b XOR \<beta> t) (X b) = 0" if "b < t" for b
    by (rule Suc.IH [where X = "\<lambda>b. gf8 gmul (\<beta> b XOR \<beta> t) (X b)", OF _ k that])
       (rule Suc.prems(1), simp_all)
  hence low: "X b = 0" if "b < t" for b
    using mul_eq_0 [of "\<beta> b XOR \<beta> t" "X b"] Suc.prems(1) [of b t] that by (auto simp: xor_eq_0_iff)
  have "xsum (\<lambda>b. gf8 gmul (gf_pow gmul (\<beta> b) 0) (X b)) (Suc t) = X t"
    by (subst xsum_single [of t]) (auto simp: low mul_zero mul_one)
  thus ?case using Suc.prems(2) [of 0] low Suc.prems(3) by (auto simp: less_Suc_eq)
qed simp

text \<open>Distinct nodes in the rows: a polynomial with more roots than its degree is zero.\<close>

definition quotient :: "(nat \<Rightarrow> byte) \<Rightarrow> byte \<Rightarrow> nat \<Rightarrow> nat \<Rightarrow> byte" where
  "quotient X \<alpha> t b = xsum (\<lambda>i. gf8 gmul (X (Suc b + i)) (gf_pow gmul \<alpha> i)) (t - b)"

lemma quotient_step:
  "b < t \<Longrightarrow> quotient X \<alpha> t b = X (Suc b) XOR gf8 gmul \<alpha> (quotient X \<alpha> t (Suc b))"
proof -
  assume "b < t"
  then obtain d where d: "t - b = Suc d" "t - Suc b = d" by (metis Suc_diff_Suc diff_Suc_Suc)
  show ?thesis
    unfolding quotient_def d mul_xsum
    by (simp only: xsum_Suc_shift) (simp add: mul_one mul_one_right mul_ac)
qed

lemma quotient_division:
  "(xsum (\<lambda>b. gf8 gmul (gf_pow gmul z b) (X b)) (Suc t) XOR X 0) XOR gf8 gmul \<alpha> (quotient X \<alpha> t 0) =
     gf8 gmul (z XOR \<alpha>) (xsum (\<lambda>b. gf8 gmul (gf_pow gmul z b) (quotient X \<alpha> t b)) t)"
proof -
  let ?q = "quotient X \<alpha> t"
  have z: "?q t = 0" by (simp add: quotient_def)
  have "xsum (\<lambda>b. gf8 gmul (gf_pow gmul z b) (X b)) (Suc t) XOR X 0 =
      xsum (\<lambda>b. gf8 gmul (gf_pow gmul z (Suc b)) (X (Suc b))) t"
    by (simp only: xsum_Suc_shift) (simp add: mul_one xor.commute xor.left_commute)
  also have "\<dots> = xsum (\<lambda>b. gf8 gmul (gf_pow gmul z (Suc b)) (?q b) XOR
                 gf8 gmul \<alpha> (gf8 gmul (gf_pow gmul z (Suc b)) (?q (Suc b)))) t"
  proof (rule xsum_cong)
    fix b assume "b < t"
    hence "X (Suc b) = ?q b XOR gf8 gmul \<alpha> (?q (Suc b))" by (simp add: quotient_step xor.assoc)
    thus "gf8 gmul (gf_pow gmul z (Suc b)) (X (Suc b)) = gf8 gmul (gf_pow gmul z (Suc b)) (?q b) XOR
        gf8 gmul \<alpha> (gf8 gmul (gf_pow gmul z (Suc b)) (?q (Suc b)))"
      by (simp only: mul_xor mul_left_commute [of \<alpha>])
  qed
  also have "\<dots> = gf8 gmul z (xsum (\<lambda>b. gf8 gmul (gf_pow gmul z b) (?q b)) t) XOR
      gf8 gmul \<alpha> (xsum (\<lambda>b. gf8 gmul (gf_pow gmul z (Suc b)) (?q (Suc b))) t)"
    unfolding xsum_xor mul_xsum by (simp add: mul_ac)
  also have "xsum (\<lambda>b. gf8 gmul (gf_pow gmul z (Suc b)) (?q (Suc b))) t =
      xsum (\<lambda>b. gf8 gmul (gf_pow gmul z b) (?q b)) (Suc t) XOR ?q 0"
    by (simp only: xsum_Suc_shift) (simp add: mul_one xor.commute xor.left_commute)
  finally have e: "xsum (\<lambda>b. gf8 gmul (gf_pow gmul z b) (X b)) (Suc t) XOR X 0 =
      gf8 gmul z (xsum (\<lambda>b. gf8 gmul (gf_pow gmul z b) (?q b)) t) XOR
      gf8 gmul \<alpha> (xsum (\<lambda>b. gf8 gmul (gf_pow gmul z b) (?q b)) (Suc t) XOR ?q 0)" .
  show ?thesis unfolding e by (simp add: z mul_zero mul_xor xor_mul xor.assoc)
qed

lemma vandermonde_rows:
  assumes "\<And>a a'. a < t \<Longrightarrow> a' < t \<Longrightarrow> \<alpha> a = \<alpha> a' \<Longrightarrow> a = a'"
    and "\<And>a. a < t \<Longrightarrow> xsum (\<lambda>b. gf8 gmul (gf_pow gmul (\<alpha> a) b) (X b)) t = 0"
    and "b < t"
  shows "X b = 0"
  using assms
proof (induction t arbitrary: X b)
  case (Suc t)
  let ?q = "quotient X (\<alpha> t) t"
  have c: "X 0 = gf8 gmul (\<alpha> t) (?q 0)"
    using quotient_division [of "\<alpha> t" X t "\<alpha> t"] Suc.prems(2) [of t]
    by (simp add: mul_zero_left xor_eq_0_iff)
  have "xsum (\<lambda>b. gf8 gmul (gf_pow gmul (\<alpha> a) b) (?q b)) t = 0" if "a < t" for a
  proof -
    have "gf8 gmul (\<alpha> a XOR \<alpha> t) (xsum (\<lambda>b. gf8 gmul (gf_pow gmul (\<alpha> a) b) (?q b)) t) = 0"
      using quotient_division [of "\<alpha> a" X t "\<alpha> t"] Suc.prems(2) [of a] that c by simp
    from mul_eq_0 [OF this] show ?thesis using Suc.prems(1) [of a t] that by (auto simp: xor_eq_0_iff)
  qed
  note k = this
  have q: "?q b = 0" if "b < t" for b
    by (rule Suc.IH [where X = ?q, OF _ k that]) (rule Suc.prems(1), simp_all)
  moreover have "?q t = 0" by (simp add: quotient_def)
  ultimately have q': "?q b = 0" if "b \<le> t" for b using that by (cases "b = t") auto
  show ?case
  proof (cases b)
    case 0
    thus ?thesis using c q' [of 0] by (simp add: mul_zero)
  next
    case (Suc b')
    thus ?thesis using quotient_step [of b' t X "\<alpha> t"] q' [of b'] q' [of b] Suc.prems(3) \<open>b < Suc t\<close>
      by (simp add: mul_zero)
  qed
qed simp

end

subsection \<open>The pivots of the decoding matrix\<close>

text \<open>
  Every leading block of the system restricted to the lost packets is regular: the first \<open>t\<close>
  parity packets determine the first \<open>t\<close> lost packets.
\<close>

definition leading_regular :: "gf_op \<Rightarrow> (nat \<Rightarrow> nat \<Rightarrow> byte) \<Rightarrow> nat list \<Rightarrow> bool" where
  "leading_regular g coef rs \<longleftrightarrow> (\<forall>t < length rs. \<forall>X.
     (\<forall>a \<le> t. xsum (\<lambda>b. gf8 g (coef a (rs ! b)) (X b)) (Suc t) = 0) \<longrightarrow> X t = 0)"

context galois_field
begin

lemma invert_rows_Some:
  assumes cells: "\<And>r c. r < n \<Longrightarrow> c < n \<Longrightarrow> at2 (n * 2) v r c = lost_cell known coef r c"
    and len: "length v = n * (n * 2)"
    and reg: "leading_regular gmul coef (lost_rows n known)"
  shows "\<exists>w. invert_rows True gmul gdiv n (known_rows n known) (lost_rows n known) v = Some w"
proof (rule ccontr)
  let ?R = "lost_rows n known" and ?S = "known_rows n known"
  have R: "set ?R \<subseteq> {..<n}" "distinct ?R" by (auto simp: lost_rows_def)
  assume "\<not> ?thesis"
  hence "forward_elim True gmul gdiv (n * 2) ?R (prepared n ?S ?R v) = None"
    by (auto simp: invert_rows_prepared)
  then obtain t x where t: "t < length ?R" and x: "x (?R ! t) \<noteq> 0"
    and supp: "\<And>c. x c \<noteq> 0 \<Longrightarrow> c \<in> set (take (Suc t) ?R)"
    and ker: "\<And>i. i \<in> set (take (Suc t) ?R) \<Longrightarrow> row_dot gmul (n * 2) (prepared n ?S ?R v) i x = 0"
    using forward_elim_None [OF elim_rows_prepared [OF len split_lost_known]] by blast
  have out: "x c = 0" if "c \<notin> set ?R" for c
    using supp [of c] in_set_takeD [of c "Suc t" ?R] that by auto
  have "\<forall>s \<in> set ?S. x (n + s) = x s"
  proof
    fix s assume "s \<in> set ?S"
    hence "s \<notin> set ?R" "n + s \<notin> set ?R" using R(1) by (auto simp: lost_rows_def known_rows_def)
    thus "x (n + s) = x s" by (simp add: out)
  qed
  note dot = row_dot_prepared [OF len split_lost_known _ this]
  have "xsum (\<lambda>b. gf8 gmul (coef a (?R ! b)) (x (?R ! b))) (Suc t) = 0" if a: "a \<le> t" for a
  proof -
    let ?r = "?R ! a"
    have r: "?r \<in> set ?R" "a < length ?R" using a t by auto
    have rn: "?r < n" using subsetD [OF R(1) r(1)] by simp
    have rt: "?r \<in> set (take (Suc t) ?R)" using a t by (auto simp: in_set_conv_nth intro!: exI [of _ a])
    have "xsum (\<lambda>j. gf8 gmul (at2 (n * 2) v ?r j) (x j)) n = 0"
    proof -
      have "n + ?r \<notin> set ?R" using R(1) by auto
      thus ?thesis using ker [OF rt] dot [OF rn] out [of "n + ?r"] by simp
    qed
    moreover have "\<not> known ?r" using r(1) by (simp add: lost_rows_def)
    ultimately have "xsum (\<lambda>j. gf8 gmul (coef a j) (x j)) n = 0"
      using lost_rows_nth [OF r(2)] by (simp add: cells rn lost_cell_def cong: xsum_cong)
    moreover have "xsum (\<lambda>j. gf8 gmul (coef a j) (x j)) n =
        xsum (\<lambda>b. gf8 gmul (coef a (take (Suc t) ?R ! b)) (x (take (Suc t) ?R ! b))) (length (take (Suc t) ?R))"
    proof (rule xsum_support)
      fix j assume "j \<notin> set (take (Suc t) ?R)"
      hence "x j = 0" using supp [of j] by auto
      thus "gf8 gmul (coef a j) (x j) = 0" by (simp add: mul_zero)
    qed (use R in \<open>auto dest: in_set_takeD\<close>)
    moreover have "length (take (Suc t) ?R) = Suc t" using t by simp
    hence "xsum (\<lambda>b. gf8 gmul (coef a (take (Suc t) ?R ! b)) (x (take (Suc t) ?R ! b))) (length (take (Suc t) ?R)) =
        xsum (\<lambda>b. gf8 gmul (coef a (?R ! b)) (x (?R ! b))) (Suc t)"
      by (simp only:) (intro xsum_cong, simp)
    ultimately show ?thesis by simp
  qed
  from reg [unfolded leading_regular_def, rule_format, OF t, OF this]
  show False using x by simp
qed

text \<open>Powers of distinct nodes, scaled by columns or by rows, are regular.\<close>

lemma leading_regular_columns:
  assumes "\<And>b b'. b < length rs \<Longrightarrow> b' < length rs \<Longrightarrow> \<beta> b = \<beta> b' \<Longrightarrow> b = b'"
    and "\<And>a b. a < length rs \<Longrightarrow> b < length rs \<Longrightarrow> coef a (rs ! b) = gf8 gmul (gf_pow gmul (\<beta> b) a) (s b)"
    and "\<And>b. b < length rs \<Longrightarrow> s b \<noteq> 0"
  shows "leading_regular gmul coef rs"
  unfolding leading_regular_def
proof (intro allI impI)
  fix t X assume t: "t < length rs"
    and k: "\<forall>a \<le> t. xsum (\<lambda>b. gf8 gmul (coef a (rs ! b)) (X b)) (Suc t) = 0"
  have "gf8 gmul (s t) (X t) = 0"
  proof (rule vandermonde_columns [where t = "Suc t" and \<beta> = \<beta>])
    fix a assume "a < Suc t"
    have "xsum (\<lambda>b. gf8 gmul (gf_pow gmul (\<beta> b) a) (gf8 gmul (s b) (X b))) (Suc t) =
        xsum (\<lambda>b. gf8 gmul (coef a (rs ! b)) (X b)) (Suc t)"
      using \<open>a < Suc t\<close> t by (intro xsum_cong) (simp add: assms(2) mul_assoc)
    thus "xsum (\<lambda>b. gf8 gmul (gf_pow gmul (\<beta> b) a) (gf8 gmul (s b) (X b))) (Suc t) = 0"
      using k \<open>a < Suc t\<close> by simp
  qed (use assms(1) t in simp_all)
  thus "X t = 0" using mul_eq_0 assms(3) [OF t] by blast
qed

lemma leading_regular_rows:
  assumes "\<And>a a'. a < length rs \<Longrightarrow> a' < length rs \<Longrightarrow> \<alpha> a = \<alpha> a' \<Longrightarrow> a = a'"
    and "\<And>a b. a < length rs \<Longrightarrow> b < length rs \<Longrightarrow> coef a (rs ! b) = gf8 gmul (s a) (gf_pow gmul (\<alpha> a) b)"
    and "\<And>a. a < length rs \<Longrightarrow> s a \<noteq> 0"
  shows "leading_regular gmul coef rs"
  unfolding leading_regular_def
proof (intro allI impI)
  fix t X assume t: "t < length rs"
    and k: "\<forall>a \<le> t. xsum (\<lambda>b. gf8 gmul (coef a (rs ! b)) (X b)) (Suc t) = 0"
  show "X t = 0"
  proof (rule vandermonde_rows [where t = "Suc t" and \<alpha> = \<alpha>])
    fix a assume a: "a < Suc t"
    have "gf8 gmul (s a) (xsum (\<lambda>b. gf8 gmul (gf_pow gmul (\<alpha> a) b) (X b)) (Suc t)) =
        xsum (\<lambda>b. gf8 gmul (coef a (rs ! b)) (X b)) (Suc t)"
      unfolding mul_xsum using a t by (intro xsum_cong) (simp add: assms(2) mul_assoc)
    thus "xsum (\<lambda>b. gf8 gmul (gf_pow gmul (\<alpha> a) b) (X b)) (Suc t) = 0"
      using k a mul_eq_0 assms(3) [of a] t by fastforce
  qed (use assms(1) t in simp_all)
qed

end

end
