(* ===== verification/RS_MDS.thy ===== *)
theory RS_MDS
  imports RS_Recover
begin

text \<open>
  The theorems about \<^verbatim>\<open>reed_sol_matrix.cc\<close>.
\<close>

definition skipped_row_of ::
  "gf_op \<Rightarrow> nat \<Rightarrow> int list \<Rightarrow> bool list \<Rightarrow> bool list list \<Rightarrow> nat \<Rightarrow> nat \<Rightarrow> byte list \<Rightarrow> byte list" where
  "skipped_row_of g n list m k_mask l i v =
     the (skipped_row g (n * 2) i (list ! l) m (k_mask ! l) [0..<n] v 0 1 False)"

lemma skipped_rows_None:
  assumes "set_positions m mask_i = drop i (set_positions m 0)" "length (set_positions m 0) < n"
    "i \<le> length (set_positions m 0)"
  shows "skipped_rows g n k list m arrive k_mask [i..<n] v mask_i ss rs = None"
  using assms(1,3)
proof (induction "n - i" arbitrary: i v mask_i ss rs)
  case (Suc d)
  have i: "i < n" and d: "d = n - Suc i" using Suc(2) by auto
  show ?case
  proof (cases "i < length (set_positions m 0)")
    case True
    hence "set_positions m mask_i = set_positions m 0 ! i # drop (Suc i) (set_positions m 0)"
      using Suc.prems(1) by (simp add: Cons_nth_drop_Suc)
    note nx = skip_unset_next [OF this]
    show ?thesis using Suc(1) [OF d] nx True i
      by (auto simp: upt_conv_Cons Let_def split: option.splits)
  next
    case False
    thus ?thesis using Suc.prems i skip_unset_end [of m mask_i] by (simp add: upt_conv_Cons Let_def)
  qed
qed (use assms(2) in simp)

context galois_ring
begin

lemma row_state_init: "row_state gmul b m prot 0 0 1 False"
  by (simp add: row_state_def Let_def)

lemma skipped_row_Some:
  fixes bs :: "byte list"
  assumes "n \<le> length (set_positions m 0)" "l < length bs"
  shows "skipped_row gmul (n * 2) i (map uint bs ! l) m (k_mask ! l) [0..<n] v 0 1 False =
           Some (skipped_row_of gmul n (map uint bs) m k_mask l i v)"
  using skipped_row_cells [OF assms(1) row_state_init le0, where rows = 0 and cols = "n * 2" and r = i
      and b = "bs ! l" and prot = "k_mask ! l" and v = v] assms(2)
  by (auto simp: skipped_row_of_def)

lemma writes_skipped_row:
  assumes "n \<le> length (set_positions m 0)" "l < length bs"
  shows "writes_row n (skipped_row_of gmul n (map uint bs) m k_mask)
           (\<lambda>l. skip_coef gmul (bs ! l) (k_mask ! l) (set_positions m 0)) l"
  unfolding writes_row_def
proof (intro allI impI)
  fix i and v :: "byte list" assume v: "length v = n * (n * 2)" and i: "i < n"
  from skipped_row_cells [OF assms(1) row_state_init le0, where rows = n and cols = "n * 2" and r = i and v = v
      and b = "bs ! l" and prot = "k_mask ! l"] v i assms(2)
  show "length (skipped_row_of gmul n (map uint bs) m k_mask l i v) = length v \<and> (\<forall>r c. c < n \<longrightarrow>
     at2 (n * 2) (skipped_row_of gmul n (map uint bs) m k_mask l i v) r c =
       (if r = i then skip_coef gmul (bs ! l) (k_mask ! l) (set_positions m 0) c else at2 (n * 2) v r c))"
    by (auto simp: skipped_row_of_def)
qed

lemma skipped_rows_fill:
  fixes bs :: "byte list"
  assumes "n \<le> length (set_positions m 0)" "k \<le> length bs"
    "set_positions m mask_i = drop i (set_positions m 0)" "i \<le> n"
  shows "skipped_rows gmul n k (map uint bs) m arrive k_mask [i..<n] v mask_i ss rs =
     fill_rows n k (\<lambda>i. arrive ! (set_positions m 0 ! i)) (skipped_row_of gmul n (map uint bs) m k_mask)
       [i..<n] v ss rs"
  using assms(3,4)
proof (induction "n - i" arbitrary: i v mask_i ss rs)
  case (Suc d)
  have i: "i < n" "i < length (set_positions m 0)" and d: "d = n - Suc i" using Suc(2) assms(1) by auto
  hence "set_positions m mask_i = set_positions m 0 ! i # drop (Suc i) (set_positions m 0)"
    using Suc.prems(1) by (simp add: Cons_nth_drop_Suc)
  note nx = skip_unset_next [OF this]
  have s: "skipped_row gmul (n * 2) i (map uint bs ! length rs) m (k_mask ! length rs) [0..<n] v 0 1 False =
      Some (skipped_row_of gmul n (map uint bs) m k_mask (length rs) i v)" if "length rs < k"
    using that assms(2) by (intro skipped_row_Some [OF assms(1)]) simp
  show ?case using Suc(1) [OF d] nx i s by (simp add: upt_conv_Cons Let_def)
qed simp

end

text \<open>What a parity packet with base \<open>bs ! a\<close> contributes in the window variant.\<close>

definition window_coef :: "gf_op \<Rightarrow> byte list \<Rightarrow> bool list list \<Rightarrow> bool list \<Rightarrow> nat \<Rightarrow> nat \<Rightarrow> byte" where
  "window_coef g bs k_mask m a j = skip_coef g (bs ! a) (k_mask ! a) (set_positions m 0) j"

definition window_lost :: "nat \<Rightarrow> bool list \<Rightarrow> bool list \<Rightarrow> nat list" where
  "window_lost n m arrive = lost_rows n (\<lambda>i. arrive ! (set_positions m 0 ! i))"

context galois_field
begin

lemma skipped_matrix_cases:
  assumes "k \<le> length bs"
  shows "if n \<le> length (set_positions m 0) \<and> length (window_lost n m arrive) \<le> k
    then \<exists>v. length v = n * (n * 2) \<and>
      (\<forall>r c. r < n \<longrightarrow> c < n \<longrightarrow> at2 (n * 2) v r c =
         lost_cell (\<lambda>i. arrive ! (set_positions m 0 ! i)) (window_coef gmul bs k_mask m) r c) \<and>
      reed_sol_skipped_stream_decoding_matrix gmul gdiv n k (map uint bs) m arrive k_mask =
        map_option (copy_right n (window_lost n m arrive))
          (invert_rows True gmul gdiv n (known_rows n (\<lambda>i. arrive ! (set_positions m 0 ! i)))
             (window_lost n m arrive) v)
    else reed_sol_skipped_stream_decoding_matrix gmul gdiv n k (map uint bs) m arrive k_mask = None"
proof -
  define known where "known i = arrive ! (set_positions m 0 ! i)" for i
  let ?v = "replicate (n * (n * 2)) (0 :: byte)"
  let ?f = "fill_rows n k known (skipped_row_of gmul n (map uint bs) m k_mask) [0..<n] ?v [] []"
  have init: "known_rows 0 known = []" "lost_rows 0 known = []" by (simp_all add: known_rows_def lost_rows_def)
  have W: "window_lost n m arrive = lost_rows n known"
    by (simp add: window_lost_def known_def [abs_def])
  note unf = reed_sol_skipped_stream_decoding_matrix_def known_def [symmetric] W
  consider "length (set_positions m 0) < n" | "n \<le> length (set_positions m 0)" "k < length (lost_rows n known)"
    | "n \<le> length (set_positions m 0)" "length (lost_rows n known) \<le> k" by linarith
  thus ?thesis
  proof cases
    case 1
    thus ?thesis using skipped_rows_None [of m 0 0 n] by (simp add: unf)
  next
    case 2
    have "?f = None" using 2(2) fill_rows_None [of k n known 0] by (simp add: init)
    thus ?thesis using 2 skipped_rows_fill [OF 2(1) assms, of 0 0 arrive k_mask ?v "[]" "[]"]
      by (simp add: unf)
  next
    case 3
    have wr: "writes_row n (skipped_row_of gmul n (map uint bs) m k_mask) (window_coef gmul bs k_mask m) l"
      if "l < k" for l
      using writes_skipped_row [OF 3(1)] that assms by (simp add: window_coef_def [abs_def])
    from fill_rows_cells [OF wr 3(2), of ?v 0]
    obtain w where "?f = Some (w, known_rows n known, lost_rows n known)" "length w = n * (n * 2)"
      "\<forall>r c. r < n \<longrightarrow> c < n \<longrightarrow> at2 (n * 2) w r c = lost_cell known (window_coef gmul bs k_mask m) r c"
      by (auto simp: init)
    thus ?thesis using 3 skipped_rows_fill [OF 3(1) assms, of 0 0 arrive k_mask ?v "[]" "[]"]
      by (auto simp: unf)
  qed
qed

lemma skipped_decoding_solves:
  assumes dist: "reed_sol_skipped_stream_decoding_matrix gmul gdiv n k (map uint bs) m arrive k_mask = Some dist"
    and bs: "k \<le> length bs"
    and known: "\<And>i. i < n \<Longrightarrow> arrive ! (set_positions m 0 ! i) \<Longrightarrow> y i = x i"
    and parity: "\<And>a. a < length (window_lost n m arrive) \<Longrightarrow>
      y (window_lost n m arrive ! a) = xsum (\<lambda>j. gf8 gmul (window_coef gmul bs k_mask m a j) (x j)) n"
    and a: "a < length (window_lost n m arrive)"
  shows "n \<le> length (set_positions m 0)" "length (window_lost n m arrive) \<le> k"
    "length dist = length (window_lost n m arrive) * n"
    "xsum (\<lambda>j. gf8 gmul (at2 n dist a j) (y j)) n = x (window_lost n m arrive ! a)"
proof -
  note cs = skipped_matrix_cases [OF bs, of n m arrive k_mask]
  show *: "n \<le> length (set_positions m 0)" "length (window_lost n m arrive) \<le> k"
    using cs dist by (auto split: if_splits)
  from * cs obtain v where v: "length v = n * (n * 2)"
    and cells: "\<And>r c. r < n \<Longrightarrow> c < n \<Longrightarrow> at2 (n * 2) v r c =
       lost_cell (\<lambda>i. arrive ! (set_positions m 0 ! i)) (window_coef gmul bs k_mask m) r c"
    and e: "reed_sol_skipped_stream_decoding_matrix gmul gdiv n k (map uint bs) m arrive k_mask =
        map_option (copy_right n (window_lost n m arrive))
          (invert_rows True gmul gdiv n (known_rows n (\<lambda>i. arrive ! (set_positions m 0 ! i)))
             (window_lost n m arrive) v)"
    by auto
  from dist obtain w where w: "invert_rows True gmul gdiv n (known_rows n (\<lambda>i. arrive ! (set_positions m 0 ! i)))
             (window_lost n m arrive) v = Some w"
    and d: "dist = copy_right n (window_lost n m arrive) w"
    unfolding e map_option_eq_Some by blast
  show "length dist = length (window_lost n m arrive) * n" by (simp add: d)
  have "xsum (\<lambda>j. gf8 gmul (at2 (n * 2) w (window_lost n m arrive ! a) (n + j)) (y j)) n =
      x (window_lost n m arrive ! a)"
    unfolding window_lost_def
    by (rule solve_lost [OF cells v w [unfolded window_lost_def] known parity [unfolded window_lost_def]])
       (use a in \<open>simp_all add: window_lost_def\<close>)
  thus "xsum (\<lambda>j. gf8 gmul (at2 n dist a j) (y j)) n = x (window_lost n m arrive ! a)"
    using a by (simp add: d at2_copy_right cong: xsum_cong)
qed

lemma skipped_decoding_exists:
  assumes "k \<le> length bs" "n \<le> length (set_positions m 0)" "length (window_lost n m arrive) \<le> k"
    and "leading_regular gmul (window_coef gmul bs k_mask m) (window_lost n m arrive)"
  shows "\<exists>dist. reed_sol_skipped_stream_decoding_matrix gmul gdiv n k (map uint bs) m arrive k_mask = Some dist"
  using skipped_matrix_cases [OF assms(1), of n m arrive k_mask] assms(2,3)
    invert_rows_Some [OF _ _ assms(4) [unfolded window_lost_def]]
  by (fastforce simp: window_lost_def)

end

lemma sorted_set_positions: "sorted_wrt (<) (set_positions m i)"
  by (simp add: set_positions_def sorted_wrt_filter)

lemma set_positions_bound: "j < length (set_positions m i) \<Longrightarrow> set_positions m i ! j < length m"
  using nth_mem [of j "set_positions m i"] by (simp add: set_positions_def)

lemma hd_filter_least:
  assumes "sorted_wrt (<) (ps :: nat list)" "q \<in> set ps" "P q"
  shows "hd (filter P ps) \<le> q"
proof -
  have "sorted_wrt (<) (filter P ps)" "q \<in> set (filter P ps)"
    using assms by (auto intro: sorted_wrt_filter)
  thus ?thesis by (cases "filter P ps") (auto simp: less_imp_le)
qed

lemma window_lost_nth:
  assumes "b < length (window_lost n m arrive)"
  shows "window_lost n m arrive ! b < n"
  using nth_mem [OF assms] by (simp add: window_lost_def lost_rows_def)

lemma window_lost_inj:
  assumes "n \<le> length (set_positions m 0)" "b < length (window_lost n m arrive)"
    "b' < length (window_lost n m arrive)"
    "set_positions m 0 ! (window_lost n m arrive ! b) = set_positions m 0 ! (window_lost n m arrive ! b')"
  shows "b = b'"
proof -
  have "distinct (set_positions m 0)" "distinct (window_lost n m arrive)"
    by (simp_all add: set_positions_def window_lost_def lost_rows_def)
  thus ?thesis
    using assms window_lost_nth [OF assms(2)] window_lost_nth [OF assms(3)] by (simp add: nth_eq_iff_index_eq)
qed

context galois_primitive
begin

lemma two_pow_nonzero: "gf_pow gmul 2 i \<noteq> 0"
  by (rule pow_nonzero) simp

lemma lost_regular_consecutive:
  assumes "n \<le> 255" and bs: "\<And>a. a < length (lost_rows n known) \<Longrightarrow> bs ! a = gf_pow gmul 2 (c + a)"
  shows "leading_regular gmul (\<lambda>a j. gf_pow gmul (bs ! a) j) (lost_rows n known)"
proof (rule leading_regular_columns [where \<beta> = "\<lambda>b. gf_pow gmul 2 (lost_rows n known ! b)"
    and s = "\<lambda>b. gf_pow gmul (gf_pow gmul 2 (lost_rows n known ! b)) c"])
  let ?R = "lost_rows n known"
  have R: "?R ! b < 255" if "b < length ?R" for b
    using nth_mem [OF that] assms(1) by (simp add: lost_rows_def)
  fix a b assume ab: "a < length ?R" "b < length ?R"
  { assume "gf_pow gmul 2 (?R ! a) = gf_pow gmul 2 (?R ! b)"
    hence "?R ! a = ?R ! b" by (rule two_order [OF R [OF ab(1)] R [OF ab(2)]])
    moreover have "distinct ?R" by (simp add: lost_rows_def)
    ultimately show "a = b" using ab by (simp add: nth_eq_iff_index_eq) }
  show "gf_pow gmul (bs ! a) (?R ! b) =
      gf8 gmul (gf_pow gmul (gf_pow gmul 2 (?R ! b)) a) (gf_pow gmul (gf_pow gmul 2 (?R ! b)) c)"
    unfolding bs [OF ab(1)] by (subst pow_pow_commute, subst pow_add) (rule mul_commute)
qed (simp add: pow_nonzero two_pow_nonzero)

text \<open>Parity packets with consecutive base numbers and one mask recover any losses.\<close>

lemma window_regular_consecutive:
  assumes "length m \<le> 255" "n \<le> length (set_positions m 0)"
    and bs: "\<And>a. a < length (window_lost n m arrive) \<Longrightarrow> bs ! a = gf_pow gmul 2 (c + a)"
    and pm: "\<And>a. a < length (window_lost n m arrive) \<Longrightarrow> k_mask ! a = pm"
    and prot: "\<And>i. i \<in> set (window_lost n m arrive) \<Longrightarrow> pm ! (set_positions m 0 ! i)"
  shows "leading_regular gmul (window_coef gmul bs k_mask m) (window_lost n m arrive)"
proof -
  let ?ps = "set_positions m 0" and ?R = "window_lost n m arrive"
  let ?f = "hd (filter (\<lambda>p. pm ! p) ?ps)"
  define e where "e b = ?ps ! (?R ! b) - ?f" for b
  have in_ps: "?ps ! (?R ! b) \<in> set ?ps" "?ps ! (?R ! b) < 255" if "b < length ?R" for b
    using window_lost_nth [OF that] assms(1,2) set_positions_bound [of "?R ! b" m 0] by auto
  have f: "?f \<le> ?ps ! (?R ! b)" if "b < length ?R" for b
    using hd_filter_least [OF sorted_set_positions in_ps(1) [OF that]] prot nth_mem [OF that] by blast
  show ?thesis
  proof (rule leading_regular_columns [where \<beta> = "\<lambda>b. gf_pow gmul 2 (e b)" and s = "\<lambda>b. gf_pow gmul (gf_pow gmul 2 (e b)) c"])
    fix b b' assume b: "b < length ?R" "b' < length ?R" "gf_pow gmul 2 (e b) = gf_pow gmul 2 (e b')"
    have "e b = e b'" using b in_ps(2) [OF b(1)] in_ps(2) [OF b(2)]
      by (intro two_order) (auto simp: e_def)
    hence "?ps ! (?R ! b) = ?ps ! (?R ! b')" using f [OF b(1)] f [OF b(2)] by (simp add: e_def)
    thus "b = b'" using window_lost_inj [OF assms(2) b(1,2)] by simp
  next
    fix a b assume ab: "a < length ?R" "b < length ?R"
    have "window_coef gmul bs k_mask m a (?R ! b) = gf_pow gmul (gf_pow gmul 2 (c + a)) (e b)"
      using prot [OF nth_mem [OF ab(2)]]
      by (simp add: window_coef_def skip_coef_def bs [OF ab(1)] pm [OF ab(1)] e_def)
    also have "\<dots> = gf8 gmul (gf_pow gmul (gf_pow gmul 2 (e b)) a) (gf_pow gmul (gf_pow gmul 2 (e b)) c)"
      by (subst pow_pow_commute, subst pow_add) (rule mul_commute)
    finally show "window_coef gmul bs k_mask m a (?R ! b) =
        gf8 gmul (gf_pow gmul (gf_pow gmul 2 (e b)) a) (gf_pow gmul (gf_pow gmul 2 (e b)) c)" .
  qed (simp add: pow_nonzero two_pow_nonzero)
qed

end

context galois_field
begin

text \<open>Parity packets with distinct base numbers recover a burst, whatever else they protect.\<close>

lemma window_regular_burst:
  assumes n: "n \<le> length (set_positions m 0)"
    and bs: "\<And>a. a < length (window_lost n m arrive) \<Longrightarrow> bs ! a \<noteq> 0"
    and dis: "\<And>a a'. a < length (window_lost n m arrive) \<Longrightarrow> a' < length (window_lost n m arrive) \<Longrightarrow>
       bs ! a = bs ! a' \<Longrightarrow> a = a'"
    and burst: "\<And>b. b < length (window_lost n m arrive) \<Longrightarrow>
       set_positions m 0 ! (window_lost n m arrive ! b) = s0 + b"
    and prot: "\<And>a b. a < length (window_lost n m arrive) \<Longrightarrow> b < length (window_lost n m arrive) \<Longrightarrow>
       k_mask ! a ! (s0 + b)"
  shows "leading_regular gmul (window_coef gmul bs k_mask m) (window_lost n m arrive)"
proof -
  let ?ps = "set_positions m 0" and ?R = "window_lost n m arrive"
  let ?f = "\<lambda>a. hd (filter (\<lambda>p. k_mask ! a ! p) ?ps)"
  have f: "?f a \<le> s0" if "a < length ?R" for a
  proof -
    have z: "0 < length ?R" using that by (cases ?R) auto
    have "?ps ! (?R ! 0) \<in> set ?ps" using window_lost_nth [OF z] n by simp
    thus ?thesis using hd_filter_least [OF sorted_set_positions, of s0] burst [OF z] prot [OF that z] by simp
  qed
  show ?thesis
  proof (rule leading_regular_rows [where \<alpha> = "\<lambda>a. bs ! a" and s = "\<lambda>a. gf_pow gmul (bs ! a) (s0 - ?f a)"])
    fix a b assume ab: "a < length ?R" "b < length ?R"
    have e: "s0 + b - ?f a = (s0 - ?f a) + b" using f [OF ab(1)] by simp
    show "window_coef gmul bs k_mask m a (?R ! b) =
        gf8 gmul (gf_pow gmul (bs ! a) (s0 - ?f a)) (gf_pow gmul (bs ! a) b)"
      using prot [OF ab] unfolding window_coef_def skip_coef_def burst [OF ab(2)] e pow_add by simp
  qed (use dis bs in \<open>auto simp: pow_nonzero\<close>)
qed

lemma decoding_matrix_solves:
  assumes wr: "\<And>l. l < k \<Longrightarrow> writes_row n row_of coef l"
    and le: "length (lost_rows n known) \<le> k"
    and reg: "leading_regular gmul coef (lost_rows n known)"
  shows "\<exists>dist. decoding_matrix gmul gdiv n k known row_of = Some dist \<and> length dist = n * n \<and>
    (\<forall>x y. (\<forall>i < n. known i \<longrightarrow> y i = x i) \<longrightarrow>
      (\<forall>a < length (lost_rows n known). y (lost_rows n known ! a) = xsum (\<lambda>j. gf8 gmul (coef a j) (x j)) n) \<longrightarrow>
      (\<forall>i \<in> set (lost_rows n known). xsum (\<lambda>j. gf8 gmul (at2 n dist i j) (y j)) n = x i))"
proof -
  let ?R = "lost_rows n known" and ?S = "known_rows n known"
  have init: "known_rows 0 known = []" "lost_rows 0 known = []" by (simp_all add: known_rows_def lost_rows_def)
  from fill_rows_cells [OF wr le, of "replicate (n * (n * 2)) 0" 0]
  obtain v where v: "fill_rows n k known row_of [0..<n] (replicate (n * (n * 2)) 0) [] [] = Some (v, ?S, ?R)"
    "length v = n * (n * 2)"
    and cells: "\<And>r c. r < n \<Longrightarrow> c < n \<Longrightarrow> at2 (n * 2) v r c = lost_cell known coef r c"
    by (auto simp: init)
  from invert_rows_Some [OF cells v(2) reg] obtain w where w: "invert_rows True gmul gdiv n ?S ?R v = Some w" by blast
  hence "invert_rows False gmul gdiv n ?S ?R v = Some w"
    by (auto simp: invert_rows_prepared dest: forward_elim_unchecked)
  hence d: "decoding_matrix gmul gdiv n k known row_of = Some (copy_right n [0..<n] w)"
    by (simp add: decoding_matrix_def v(1))
  have "xsum (\<lambda>j. gf8 gmul (at2 n (copy_right n [0..<n] w) i j) (y j)) n = x i"
    if "\<forall>i < n. known i \<longrightarrow> y i = x i"
      "\<forall>a < length ?R. y (?R ! a) = xsum (\<lambda>j. gf8 gmul (coef a j) (x j)) n" "i \<in> set ?R" for x y i
  proof -
    have "i < n" using that(3) by (simp add: lost_rows_def)
    hence "xsum (\<lambda>j. gf8 gmul (at2 n (copy_right n [0..<n] w) i j) (y j)) n =
        xsum (\<lambda>j. gf8 gmul (at2 (n * 2) w i (n + j)) (y j)) n"
      by (intro xsum_cong) (simp add: at2_copy_right)
    also have "\<dots> = x i" by (rule solve_lost [OF cells v(2) w]) (use that in auto)
    finally show ?thesis .
  qed
  thus ?thesis using d by auto
qed

end

end
