(* ===== verification/RS_Packet.thy ===== *)
theory RS_Packet
  imports RS_MDS
begin

text \<open>
  The byte-level operations of \<^verbatim>\<open>RS_FEC/RS_forward_error_correction.cc\<close> on packets: reading the
  RTP header, and adding a multiple of a media packet or of a parity packet to a buffer.  A packet
  is its list of bytes; growing a buffer exposes zeros, as the \<^verbatim>\<open>SetSize\<close> and \<^verbatim>\<open>memset\<close> pairs
  of the source do.
\<close>

definition ParseSequenceNumber :: "byte list \<Rightarrow> u16" where
  "ParseSequenceNumber packet = push_bit 8 (ucast (packet ! 2)) + ucast (packet ! 3)"

definition ParseSsrc :: "byte list \<Rightarrow> u32" where
  "ParseSsrc packet = push_bit 24 (ucast (packet ! 8)) + push_bit 16 (ucast (packet ! 9)) +
     push_bit 8 (ucast (packet ! 10)) + ucast (packet ! 11)"

definition mul_add :: "gf_op \<Rightarrow> byte \<Rightarrow> nat \<Rightarrow> (nat \<Rightarrow> byte) \<Rightarrow> nat \<Rightarrow> byte list \<Rightarrow> byte list" where
  "mul_add g v off src m dst =
     fold (\<lambda>i d. d[off + i := d ! (off + i) XOR gf8 g (src i) v]) [0..<m] dst"

text \<open>The eight header bytes that are coded: bytes 2 and 3 carry the payload length instead.\<close>

definition rtp_header :: "byte list \<Rightarrow> byte list" where
  "rtp_header src =
     (let src_payload_length_network_order = WriteBigEndian16 [0, 0] 0 (word_of_int (int (length src) - 12))
      in [src ! 0, src ! 1, src_payload_length_network_order ! 0, src_payload_length_network_order ! 1,
          src ! 4, src ! 5, src ! 6, src ! 7])"

definition GFMulRTPHeaders :: "gf_op \<Rightarrow> byte list \<Rightarrow> byte list \<Rightarrow> byte \<Rightarrow> byte list result" where
  "GFMulRTPHeaders g src dst GFValue =
     (if length src < 8 \<or> length dst < 8 then Inl OutOfBounds
      else Inr (mul_add g GFValue 0 (\<lambda>i. rtp_header src ! i) 8 dst))"

definition GFMulRTPPayloads :: "gf_op \<Rightarrow> byte list \<Rightarrow> nat \<Rightarrow> nat \<Rightarrow> byte list \<Rightarrow> byte \<Rightarrow> byte list result" where
  "GFMulRTPPayloads g src payload_length dst_offset dst GFValue =
     (if kRtpHeaderSize + payload_length > length src then Inl OutOfBounds
      else Inr (mul_add g GFValue dst_offset (\<lambda>i. src ! (kRtpHeaderSize + i)) payload_length
                  (grow dst (dst_offset + payload_length))))"

definition GFMulFECHeaders :: "gf_op \<Rightarrow> byte list \<Rightarrow> byte list \<Rightarrow> byte \<Rightarrow> byte list result" where
  "GFMulFECHeaders g src dst GFValue =
     (if length src < 8 \<or> length dst < 8 then Inl OutOfBounds
      else Inr (mul_add g GFValue 0 (\<lambda>i. src ! i) 8 dst))"

definition GFMulFECPayloads :: "gf_op \<Rightarrow> byte list \<Rightarrow> nat \<Rightarrow> nat \<Rightarrow> byte list \<Rightarrow> byte \<Rightarrow> byte list result" where
  "GFMulFECPayloads g src payload_length src_offset dst GFValue =
     (if src_offset + payload_length > length src then Inl OutOfBounds
      else Inr (mul_add g GFValue kRtpHeaderSize (\<lambda>i. src ! (src_offset + i)) payload_length
                  (grow dst (kRtpHeaderSize + payload_length))))"

text \<open>Header and payload of one media packet, and of one parity packet.\<close>

definition add_media :: "gf_op \<Rightarrow> byte list \<Rightarrow> nat \<Rightarrow> byte list \<Rightarrow> byte \<Rightarrow> byte list result" where
  "add_media g src dst_offset dst GFValue =
     (if length src < kRtpHeaderSize then Inl OutOfBounds
      else case GFMulRTPHeaders g src dst GFValue of
        Inl e \<Rightarrow> Inl e
      | Inr dst \<Rightarrow> GFMulRTPPayloads g src (length src - kRtpHeaderSize) dst_offset dst GFValue)"

definition add_parity :: "gf_op \<Rightarrow> byte list \<Rightarrow> nat \<Rightarrow> byte list \<Rightarrow> byte \<Rightarrow> byte list result" where
  "add_parity g src fec_header_size dst GFValue =
     (if length src < fec_header_size then Inl OutOfBounds
      else case GFMulFECHeaders g src dst GFValue of
        Inl e \<Rightarrow> Inl e
      | Inr dst \<Rightarrow> GFMulFECPayloads g src (length src - fec_header_size) fec_header_size dst GFValue)"

subsection \<open>Packets as code words\<close>

text \<open>
  The coded bytes of a buffer whose payload starts at \<open>off\<close>: eight header bytes, then the payload,
  zero beyond its end.  For a media packet the header bytes are those of \<open>rtp_header\<close>.
\<close>

definition code :: "nat \<Rightarrow> byte list \<Rightarrow> nat \<Rightarrow> byte" where
  "code off d q = (if q < 8 then d ! q else if off + (q - 8) < length d then d ! (off + (q - 8)) else 0)"

definition rtp_code :: "byte list \<Rightarrow> nat \<Rightarrow> byte" where
  "rtp_code p q = (if q < 8 then rtp_header p ! q else code kRtpHeaderSize p q)"

lemma mul_add_Suc:
  "mul_add g v off src (Suc m) dst =
     (mul_add g v off src m dst)[off + m := mul_add g v off src m dst ! (off + m) XOR gf8 g (src m) v]"
  by (simp add: mul_add_def)

lemma length_mul_add [simp]: "length (mul_add g v off src m dst) = length dst"
  by (induction m) (simp_all add: mul_add_Suc, simp add: mul_add_def)

lemma nth_mul_add:
  assumes "off + m \<le> length dst"
  shows "mul_add g v off src m dst ! p =
     (if off \<le> p \<and> p < off + m then dst ! p XOR gf8 g (src (p - off)) v else dst ! p)"
  using assms
proof (induction m)
  case (Suc m)
  thus ?case by (auto simp: mul_add_Suc nth_list_update)
qed (auto simp: mul_add_def)

lemma disjoint_plus_16: "push_bit 8 (ucast a) + ucast b = (push_bit 8 (ucast a) OR ucast b :: u16)" for a b :: byte
  by (rule disjunctive_add) (auto simp: bit_simps dest!: bit_imp_le_length)

lemma Parse_Read16: "ParseSequenceNumber p = ReadBigEndian16 p 2"
  by (simp add: ParseSequenceNumber_def ReadBigEndian16_def disjoint_plus_16)

lemma Parse_Read32: "ParseSsrc p = ReadBigEndian32 p 8"
proof -
  have or1: "push_bit 24 (ucast a) + push_bit 16 (ucast b) = (push_bit 24 (ucast a) OR push_bit 16 (ucast b) :: u32)"
    and or2: "(push_bit 24 (ucast a) OR push_bit 16 (ucast b)) + push_bit 8 (ucast c) =
      ((push_bit 24 (ucast a) OR push_bit 16 (ucast b)) OR push_bit 8 (ucast c) :: u32)"
    and or3: "((push_bit 24 (ucast a) OR push_bit 16 (ucast b)) OR push_bit 8 (ucast c)) + ucast d =
      (((push_bit 24 (ucast a) OR push_bit 16 (ucast b)) OR push_bit 8 (ucast c)) OR ucast d :: u32)"
    for a b c d :: byte
    by (rule disjunctive_add, auto simp: bit_simps dest!: bit_imp_le_length)+
  show ?thesis
    unfolding ParseSsrc_def ReadBigEndian32_def or1 or2 or3 by (simp add: or.assoc)
qed

lemma length_rtp_header [simp]: "length (rtp_header p) = 8"
  by (simp add: rtp_header_def Let_def)

text \<open>One step of coding or decoding adds a multiple of the packet's code word.\<close>

context galois_ring
begin

lemma code_mul_add:
  assumes "8 \<le> length dst" "8 \<le> off" "off \<le> length dst"
    and d: "d = mul_add gmul v off s m (grow (mul_add gmul v 0 h 8 dst) (off + m))"
  shows "length d = max (length dst) (off + m)"
    and "q < 8 \<Longrightarrow> code off d q = code off dst q XOR gf8 gmul (h q) v"
    and "8 \<le> q \<Longrightarrow> code off d q = code off dst q XOR gf8 gmul (if q - 8 < m then s (q - 8) else 0) v"
    and "8 \<le> i \<Longrightarrow> i < off \<Longrightarrow> d ! i = dst ! i"
proof -
  define w where "w = grow (mul_add gmul v 0 h 8 dst) (off + m)"
  have lw: "length w = max (length dst) (off + m)" using assms(1) by (simp add: w_def)
  have w: "w ! i = (if i < 8 then dst ! i XOR gf8 gmul (h i) v else if i < length dst then dst ! i else 0)"
    if "i < length w" for i
    using that assms(1) by (simp add: w_def nth_grow nth_mul_add)
  have dw: "d ! i = (if off \<le> i \<and> i < off + m then w ! i XOR gf8 gmul (s (i - off)) v else w ! i)" for i
    unfolding d w_def [symmetric] by (rule nth_mul_add) (simp add: lw)
  show ld: "length d = max (length dst) (off + m)" by (simp add: d w_def [symmetric] lw)
  show "code off d q = code off dst q XOR gf8 gmul (h q) v" if "q < 8"
    using that assms(1,2) by (simp add: code_def dw w lw)
  show "code off d q = code off dst q XOR gf8 gmul (if q - 8 < m then s (q - 8) else 0) v" if q8: "8 \<le> q"
  proof -
    obtain k where q: "q = 8 + k" using le_Suc_ex [OF q8] by blast
    show ?thesis
    proof (cases "off + k < length w")
      case True
      have "d ! (off + k) = (if off + k < length dst then dst ! (off + k) else 0) XOR gf8 gmul (if k < m then s k else 0) v"
        using assms(2) by (simp add: dw w [OF True] mul_zero_left)
      moreover have "off + k < length d" using True by (simp add: ld lw)
      ultimately show ?thesis by (simp add: q code_def)
    next
      case False
      hence "\<not> off + k < length d" "\<not> off + k < length dst" "\<not> k < m" by (simp_all add: ld lw)
      thus ?thesis by (simp add: q code_def mul_zero_left)
    qed
  qed
  show "d ! i = dst ! i" if "8 \<le> i" "i < off" using that assms(1,3) by (simp add: dw w lw)
qed

lemma add_media_code:
  assumes "12 \<le> length src" "12 \<le> off" "off \<le> length dst"
  shows "\<exists>d. add_media gmul src off dst v = Inr d \<and> length d = max (length dst) (off + (length src - 12)) \<and>
     (\<forall>q. code off d q = code off dst q XOR gf8 gmul (rtp_code src q) v) \<and>
     (\<forall>i. 8 \<le> i \<longrightarrow> i < off \<longrightarrow> d ! i = dst ! i)"
proof -
  define d where "d = mul_add gmul v off (\<lambda>i. src ! (12 + i)) (length src - 12)
    (grow (mul_add gmul v 0 (\<lambda>i. rtp_header src ! i) 8 dst) (off + (length src - 12)))"
  have l: "8 \<le> length dst" "8 \<le> off" using assms by auto
  note c = code_mul_add [OF l assms(3) d_def]
  have "code off d q = code off dst q XOR gf8 gmul (rtp_code src q) v" for q
  proof (cases "q < 8")
    case False
    hence "rtp_code src q = (if q - 8 < length src - 12 then src ! (12 + (q - 8)) else 0)"
      using assms(1) by (auto simp: rtp_code_def code_def)
    thus ?thesis using c(3) [of q] False by simp
  qed (simp add: c(2) rtp_code_def)
  moreover have "add_media gmul src off dst v = Inr d"
    using assms l by (simp add: add_media_def GFMulRTPHeaders_def GFMulRTPPayloads_def d_def)
  ultimately show ?thesis using c(1,4) by auto
qed

lemma add_parity_code:
  assumes "hs \<le> length src" "12 \<le> hs" "12 \<le> length dst"
  shows "\<exists>d. add_parity gmul src hs dst v = Inr d \<and> length d = max (length dst) (12 + (length src - hs)) \<and>
     (\<forall>q. code 12 d q = code 12 dst q XOR gf8 gmul (code hs src q) v) \<and>
     (\<forall>i. 8 \<le> i \<longrightarrow> i < 12 \<longrightarrow> d ! i = dst ! i)"
proof -
  define d where "d = mul_add gmul v 12 (\<lambda>i. src ! (hs + i)) (length src - hs)
    (grow (mul_add gmul v 0 (\<lambda>i. src ! i) 8 dst) (12 + (length src - hs)))"
  have l: "8 \<le> length dst" "8 \<le> (12 :: nat)" using assms by auto
  note c = code_mul_add [OF l assms(3) d_def]
  have "code 12 d q = code 12 dst q XOR gf8 gmul (code hs src q) v" for q
  proof (cases "q < 8")
    case False
    hence "code hs src q = (if q - 8 < length src - hs then src ! (hs + (q - 8)) else 0)"
      using assms(1) by (auto simp: code_def)
    thus ?thesis using c(3) [of q] False by simp
  qed (simp add: c(2) code_def [of hs])
  moreover have "add_parity gmul src hs dst v = Inr d"
    using assms l by (simp add: add_parity_def GFMulFECHeaders_def GFMulFECPayloads_def d_def)
  ultimately show ?thesis using c(1,4) by auto
qed

end

end
