(* ===== verification/RS_Header.thy ===== *)
theory RS_Header
  imports RS_Packet
begin

text \<open>
  The FEC header of \<^verbatim>\<open>RS_FEC/RS_fec_header_reader_writer.cc\<close>, byte by byte.  Reading or writing
  beyond the size of the packet is the error \<open>OutOfBounds\<close>.
\<close>

abbreviation (input) kMaxMediaPackets :: nat where "kMaxMediaPackets \<equiv> 32"
abbreviation (input) kMaxTrackedMediaPackets :: nat where "kMaxTrackedMediaPackets \<equiv> 4 * kMaxMediaPackets"
abbreviation (input) kMaxFecPackets :: nat where "kMaxFecPackets \<equiv> 32"
abbreviation (input) kMaxConsiderLossPackets :: nat where "kMaxConsiderLossPackets \<equiv> kMaxMediaPackets * 4"
abbreviation (input) kRSfecPacketMaskSize :: nat where "kRSfecPacketMaskSize \<equiv> 4"
abbreviation (input) kRSfecMagicNumSize :: nat where "kRSfecMagicNumSize \<equiv> 2"
abbreviation (input) kFecLevel0HeaderSize :: nat where "kFecLevel0HeaderSize \<equiv> 10"
abbreviation (input) kPacketMaskOffset :: nat where "kPacketMaskOffset \<equiv> kFecLevel0HeaderSize + 2"

definition RSfecHeaderSize :: nat where
  "RSfecHeaderSize = kFecLevel0HeaderSize + (2 + kRSfecPacketMaskSize + kRSfecMagicNumSize)"

text \<open>\<^verbatim>\<open>std::bitset<32>\<close> is a 32-bit word.\<close>

record protected_stream =
  ps_ssrc :: u32
  seq_num_base :: u16
  cur_base_num :: u16
  packet_mask_offset :: nat
  pkt_mask :: u32
  pkt_arrive :: u32
  packet_mask_size :: nat

record fec_header =
  fh_size :: nat
  fh_stream :: protected_stream
  fh_protection_length :: nat

definition read16 :: "byte list \<Rightarrow> nat \<Rightarrow> u16 result" where
  "read16 data i = (if i + 1 < length data then Inr (ReadBigEndian16 data i) else Inl OutOfBounds)"

definition read32 :: "byte list \<Rightarrow> nat \<Rightarrow> u32 result" where
  "read32 data i = (if i + 3 < length data then Inr (ReadBigEndian32 data i) else Inl OutOfBounds)"

definition ReadFecHeader :: "u32 \<Rightarrow> byte list \<Rightarrow> (fec_header \<times> byte list) option result" where
  "ReadFecHeader ssrc data =
     (if length data < kPacketMaskOffset then Inr None
      else case read16 data 2 of Inl e \<Rightarrow> Inl e | Inr base \<Rightarrow>
        (case read16 data 16 of Inl e \<Rightarrow> Inl e | Inr base_num \<Rightarrow>
        (case read32 data 12 of Inl e \<Rightarrow> Inl e | Inr mask_uint \<Rightarrow>
        (case read16 data 10 of Inl e \<Rightarrow> Inl e | Inr protection_length \<Rightarrow>
          let stream = \<lparr>ps_ssrc = ssrc, seq_num_base = base, cur_base_num = base_num,
                packet_mask_offset = kPacketMaskOffset, pkt_mask = mask_uint, pkt_arrive = 0,
                packet_mask_size = kRSfecPacketMaskSize\<rparr>;
              header = \<lparr>fh_size = RSfecHeaderSize, fh_stream = stream,
                fh_protection_length = unat protection_length\<rparr>
          in Inr (Some (header, data[2 := data ! 8, 3 := data ! 9]))))))"

definition FinalizeFecHeader :: "u16 \<Rightarrow> u16 \<Rightarrow> u32 \<Rightarrow> byte list \<Rightarrow> byte list result" where
  "FinalizeFecHeader base base_num msk data =
     (if length data < 18 then Inl OutOfBounds
      else
        let data = data[8 := data ! 2, 9 := data ! 3];
            data = WriteBigEndian16 data 2 base;
            data = WriteBigEndian16 data 10 (word_of_int (int (length data) - int RSfecHeaderSize));
            data = WriteBigEndian16 data 16 base_num
        in Inr (WriteBigEndian32 data 12 msk))"

lemma RSfecHeaderSize_eq [simp]: "RSfecHeaderSize = 18"
  by (simp add: RSfecHeaderSize_def)

lemma Read16_cong: "a ! i = b ! i \<Longrightarrow> a ! (i + 1) = b ! (i + 1) \<Longrightarrow> ReadBigEndian16 a i = ReadBigEndian16 b i"
  by (simp add: ReadBigEndian16_def)

lemma Finalize_nth:
  assumes "18 \<le> length d" "FinalizeFecHeader base base_num msk d = Inr f"
  shows "length f = length d" "ReadBigEndian16 f 2 = base" "ReadBigEndian16 f 16 = base_num"
    "ReadBigEndian32 f 12 = msk"
    "ReadBigEndian16 f 10 = word_of_int (int (length d) - 18)" "f ! 8 = d ! 2" "f ! 9 = d ! 3"
    "k < length d \<Longrightarrow> k < 2 \<or> 4 \<le> k \<and> k < 8 \<or> 18 \<le> k \<Longrightarrow> f ! k = d ! k"
proof -
  define a where "a = d[8 := d ! 2, 9 := d ! 3]"
  define b where "b = WriteBigEndian16 a 2 base"
  define c where "c = WriteBigEndian16 b 10 (word_of_int (int (length d) - 18))"
  define e where "e = WriteBigEndian16 c 16 base_num"
  have len: "length a = length d" "length b = length d" "length c = length d" "length e = length d"
    by (simp_all add: a_def b_def c_def e_def)
  have f: "f = WriteBigEndian32 e 12 msk"
    using assms by (simp add: FinalizeFecHeader_def Let_def e_def c_def b_def a_def)
  have fk: "f ! k = e ! k" if "k < length d" "k < 12 \<or> 16 \<le> k" for k
    unfolding f using that by (intro nth_Write32) (auto simp: len)
  have ek: "e ! k = c ! k" if "k < length d" "k < 16 \<or> 18 \<le> k" for k
    unfolding e_def using that by (intro nth_Write16) (auto simp: len)
  have ck: "c ! k = b ! k" if "k < length d" "k < 10 \<or> 12 \<le> k" for k
    unfolding c_def using that by (intro nth_Write16) (auto simp: len)
  have bk: "b ! k = a ! k" if "k < length d" "k < 2 \<or> 4 \<le> k" for k
    unfolding b_def using that by (intro nth_Write16) (auto simp: len)
  show "length f = length d" by (simp add: f len)
  show "ReadBigEndian32 f 12 = msk" unfolding f using assms(1) by (intro Read_Write32) (simp add: len)
  have "ReadBigEndian16 f 2 = ReadBigEndian16 b 2"
    using assms(1) by (intro Read16_cong) (simp_all add: fk ek ck)
  thus "ReadBigEndian16 f 2 = base" using Read_Write16 [of 2 a base] assms(1) by (simp add: b_def len)
  have "ReadBigEndian16 f 16 = ReadBigEndian16 e 16"
    using assms(1) by (intro Read16_cong) (simp_all add: fk)
  thus "ReadBigEndian16 f 16 = base_num" using Read_Write16 [of 16 c base_num] assms(1) by (simp add: e_def len)
  have "ReadBigEndian16 f 10 = ReadBigEndian16 c 10"
    using assms(1) by (intro Read16_cong) (simp_all add: fk ek)
  thus "ReadBigEndian16 f 10 = word_of_int (int (length d) - 18)"
    using Read_Write16 [of 10 b] assms(1) by (simp add: c_def len)
  show "f ! 8 = d ! 2" "f ! 9 = d ! 3" using assms(1) by (simp_all add: fk ek ck bk a_def)
  show "f ! k = d ! k" if "k < length d" "k < 2 \<or> 4 \<le> k \<and> k < 8 \<or> 18 \<le> k"
    using that by (auto simp: fk ek ck bk a_def)
qed

lemma unat_length16: "n < 65536 \<Longrightarrow> unat (word_of_int (int n) :: u16) = n"
  by (simp add: unsigned_of_nat take_bit_nat_eq_self)

lemma Read_rtp_header:
  assumes "12 \<le> length p" "length p - 12 < 65536" "d ! 2 = rtp_header p ! 2" "d ! 3 = rtp_header p ! 3"
  shows "unat (ReadBigEndian16 d 2) = length p - 12"
proof -
  have e: "int (length p) - 12 = int (length p - 12)" using assms(1) by simp
  have "ReadBigEndian16 d 2 = word_of_int (int (length p) - 12)"
    using assms(3,4) join16 by (simp add: ReadBigEndian16_def rtp_header_def Let_def WriteBigEndian16_def)
  thus ?thesis unfolding e using unat_length16 [OF assms(2)] by simp
qed

text \<open>Reading a finalized header gives back its fields, and the coded bytes of the packet.\<close>

lemma Read_Finalize:
  assumes "18 \<le> length d" "length d - 18 < 65536"
  shows "\<exists>f h w. FinalizeFecHeader base base_num msk d = Inr f \<and> ReadFecHeader ssrc f = Inr (Some (h, w)) \<and>
     fh_size h = 18 \<and> fh_protection_length h = length d - 18 \<and> length f = length d \<and>
     fh_stream h = \<lparr>ps_ssrc = ssrc, seq_num_base = base, cur_base_num = base_num,
       packet_mask_offset = 12, pkt_mask = msk, pkt_arrive = 0, packet_mask_size = 4\<rparr> \<and>
     length w = length d \<and> (\<forall>q. code 18 w q = code 18 d q)"
proof -
  obtain f where f: "FinalizeFecHeader base base_num msk d = Inr f"
    using assms(1) by (simp add: FinalizeFecHeader_def Let_def)
  note r = Finalize_nth [OF assms(1) f]
  let ?w = "f[2 := f ! 8, 3 := f ! 9]"
  have "?w ! k = d ! k" if kl: "k < length d" and kr: "k < 8 \<or> 18 \<le> k" for k
  proof -
    consider "k = 2" | "k = 3" | "k < 2 \<or> 4 \<le> k \<and> k < 8 \<or> 18 \<le> k" "k \<noteq> 2" "k \<noteq> 3" using kr by linarith
    thus ?thesis using r(1,6,7) r(8) [OF kl] assms(1) by cases simp_all
  qed
  note w = this
  have "code 18 ?w q = code 18 d q" for q
    using assms(1) r(1) w [of q] w [of "18 + (q - 8)"] by (auto simp: code_def)
  moreover have e: "int (length d) - 18 = int (length d - 18)" using assms(1) by simp
  have "unat (ReadBigEndian16 f 10) = length d - 18"
    unfolding r(5) e by (rule unat_length16 [OF assms(2)])
  ultimately show ?thesis
    using f r assms(1) by (simp add: ReadFecHeader_def read16_def read32_def Let_def)
qed

end
