(* ===== verification/RS_Encoder.thy ===== *)
theory RS_Encoder
  imports RS_Header
begin

text \<open>
  The encoder of \<^verbatim>\<open>RS_FEC/RS_forward_error_correction.cc\<close> and the base numbers of
  \<^verbatim>\<open>RS_forward_error_correction_internal.cc\<close>.  The process-wide \<^verbatim>\<open>curBaseNum\<close> is passed through
  the calls; the configuration that \<^verbatim>\<open>EncodeRSFec\<close> reads from \<^verbatim>\<open>Params\<close> is a record.
\<close>

abbreviation (input) kRSfecMaxMediaPackets :: nat where "kRSfecMaxMediaPackets \<equiv> 40"

definition baseMulNum :: int where
  "baseMulNum = 2"

primrec base_nums :: "gf_op \<Rightarrow> nat \<Rightarrow> int \<Rightarrow> int \<times> int list" where
  "base_nums g 0 curBaseNum = (curBaseNum, [])"
| "base_nums g (Suc k) curBaseNum =
     (case base_nums g k (g curBaseNum baseMulNum) of (cur, dist) \<Rightarrow> (cur, curBaseNum # dist))"

text \<open>A negative count asks \<^verbatim>\<open>malloc\<close> for more than it can give, so the result is NULL.\<close>

definition GenerateBaseNumList :: "gf_op \<Rightarrow> nat \<Rightarrow> int \<Rightarrow> int \<Rightarrow> int \<times> int list option" where
  "GenerateBaseNumList g n k curBaseNum =
     (if n > kRSfecMaxMediaPackets \<or> k < 0 then (curBaseNum, None)
      else case base_nums g (nat k) curBaseNum of (cur, dist) \<Rightarrow> (cur, Some dist))"

definition GenerateCodingMatrix ::
  "gf_op \<Rightarrow> nat \<Rightarrow> nat \<Rightarrow> int list \<Rightarrow> int list \<Rightarrow> nat \<Rightarrow> byte list option result" where
  "GenerateCodingMatrix g n k baseNumList pktMask maskLen =
     reed_sol_sub_stream_coding_matrix g n k baseNumList pktMask maskLen"

definition GenerateDecodingMatrix ::
  "gf_op \<Rightarrow> gf_op \<Rightarrow> nat \<Rightarrow> nat \<Rightarrow> int list \<Rightarrow> bool list \<Rightarrow> bool list \<Rightarrow> bool list list \<Rightarrow> byte list option" where
  "GenerateDecodingMatrix g gd n k baseNumList pmask arrive k_mask =
     reed_sol_skipped_stream_decoding_matrix g gd n k baseNumList pmask arrive k_mask"

subsection \<open>How many parity packets\<close>

datatype exp_type =
  WebRTCSource | WebRTCFlexFEC | StableRate | RSFECBlock | RSFECStreamStableRate
| RSFECStreamSourceRate | RLSRSFEC | FECClose | TamburFEC | SwiftFECAblL | SwiftFECAblM | SwiftFECAblI

record fec_params =
  param_type :: exp_type
  generate_fec_num :: int
  param_M :: u32

text \<open>Q8 arithmetic with rounding; at least one packet when protection is asked for.\<close>

definition NumFecPackets :: "int \<Rightarrow> int \<Rightarrow> int" where
  "NumFecPackets num_media_packets protection_factor =
     (let num_fec_packets = drop_bit 8 (num_media_packets * protection_factor + push_bit 7 1)
      in if protection_factor > 0 \<and> num_fec_packets = 0 then 1 else num_fec_packets)"

definition num_fec_packets :: "fec_params \<Rightarrow> nat \<Rightarrow> byte \<Rightarrow> int" where
  "num_fec_packets params num_media protection_factor =
     (if param_type params \<in> {RSFECStreamStableRate, SwiftFECAblM} then generate_fec_num params
      else if param_type params \<in> {RLSRSFEC, SwiftFECAblL, SwiftFECAblI} then sint (param_M params)
      else NumFecPackets (int num_media) (uint protection_factor))"

subsection \<open>The packet mask\<close>

text \<open>
  One bit per sequence number after the first packet; a packet 32 or more numbers later, or
  before its predecessor, cannot be protected.
\<close>

fun packet_mask :: "byte list list \<Rightarrow> u16 \<Rightarrow> nat \<Rightarrow> int list \<Rightarrow> (int list \<times> nat) option" where
  "packet_mask [] prev_seq_num media_pkt_idx pktMask = Some (pktMask, media_pkt_idx + 1)"
| "packet_mask [p] prev_seq_num media_pkt_idx pktMask =
     Some (pktMask[media_pkt_idx := 1], media_pkt_idx + 1)"
| "packet_mask (p # q # rest) prev_seq_num media_pkt_idx pktMask =
     (let pktMask = pktMask[media_pkt_idx := 1];
          seq_num = ParseSequenceNumber q;
          media_pkt_idx = media_pkt_idx + unat (seq_num - prev_seq_num)
      in if media_pkt_idx \<ge> 32 then None
         else packet_mask (q # rest) seq_num media_pkt_idx pktMask)"

subsection \<open>Payloads and headers\<close>

fun fec_payload :: "gf_op \<Rightarrow> byte list \<Rightarrow> nat \<Rightarrow> byte list list \<Rightarrow> byte list \<Rightarrow> byte list result" where
  "fec_payload g encoding_table idx [] fec_packet = Inr fec_packet"
| "fec_payload g encoding_table idx (media_packet # rest) fec_packet =
     (let fec_packet_length = RSfecHeaderSize + (length media_packet - kRtpHeaderSize);
          fec_packet = (if fec_packet_length > length fec_packet then grow fec_packet fec_packet_length
                        else fec_packet)
      in case add_media g media_packet RSfecHeaderSize fec_packet (encoding_table ! idx) of
           Inl e \<Rightarrow> Inl e
         | Inr fec_packet \<Rightarrow> fec_payload g encoding_table (Suc idx) rest fec_packet)"

definition GenerateFecPayloads ::
  "gf_op \<Rightarrow> byte list list \<Rightarrow> nat \<Rightarrow> nat \<Rightarrow> byte list \<Rightarrow> byte list list result" where
  "GenerateFecPayloads g media_packets n k encoding_table =
     map_result (\<lambda>i. fec_payload g encoding_table (i * n) media_packets []) [0..<k]"

definition mask_word :: "int list \<Rightarrow> nat \<Rightarrow> u32" where
  "mask_word pktMask maskLen = fold (\<lambda>i w. if pktMask ! i \<noteq> 0 then set_bit i w else w) [0..<maskLen] 0"

definition FinalizeFecHeaders ::
  "byte list list \<Rightarrow> u16 \<Rightarrow> int list \<Rightarrow> int list \<Rightarrow> nat \<Rightarrow> byte list list result" where
  "FinalizeFecHeaders fec_packets base curBaseNum pktMask maskLen =
     map_result (\<lambda>i. FinalizeFecHeader base (word_of_int (curBaseNum ! i)) (mask_word pktMask maskLen)
                      (fec_packets ! i)) [0..<length fec_packets]"

text \<open>
  The result: the new \<^verbatim>\<open>curBaseNum\<close>, the return value, and the packets pointed to by
  \<^verbatim>\<open>fec_packets\<close>.  The class owns 32 packets to generate into.
\<close>

definition EncodeRSFec ::
  "gf_op \<Rightarrow> fec_params \<Rightarrow> int \<Rightarrow> byte list list \<Rightarrow> byte \<Rightarrow> (int \<times> int \<times> byte list list) result" where
  "EncodeRSFec g params cur media_packets protection_factor =
     (let num_media_packets = length media_packets;
          num = num_fec_packets params num_media_packets protection_factor
      in
      if num_media_packets > kMaxMediaPackets then Inr (cur, -1, [])
      else if (\<exists>p \<in> set media_packets. length p < kRtpHeaderSize) then Inr (cur, -1, [])
      else if num = 0 then Inr (cur, 0, [])
      else if num > int kMaxFecPackets \<or> media_packets = [] then Inl OutOfBounds
      else
        case packet_mask media_packets (ParseSequenceNumber (hd media_packets)) 0 (replicate 32 0) of
          None \<Rightarrow> Inr (cur, -1, [])
        | Some (pktMask, maskLen) \<Rightarrow>
          (case GenerateBaseNumList g num_media_packets num cur of
            (cur, None) \<Rightarrow> Inr (cur, -1, [])
          | (cur, Some curBaseNum) \<Rightarrow>
            (case GenerateCodingMatrix g num_media_packets (nat num) curBaseNum pktMask maskLen of
              Inl e \<Rightarrow> Inl e
            | Inr None \<Rightarrow> Inr (cur, -1, [])
            | Inr (Some encoding_table) \<Rightarrow>
              (case GenerateFecPayloads g media_packets num_media_packets (nat num) encoding_table of
                Inl e \<Rightarrow> Inl e
              | Inr fec_packets \<Rightarrow>
                (case FinalizeFecHeaders fec_packets (ParseSequenceNumber (hd media_packets))
                        curBaseNum pktMask maskLen of
                  Inl e \<Rightarrow> Inl e
                | Inr fec_packets \<Rightarrow> Inr (cur, 0, fec_packets))))))"

subsection \<open>Base numbers\<close>

text \<open>Consecutive powers of 2, continuing where the last call stopped.\<close>

context galois_ring
begin

lemma base_nums_powers:
  "base_nums gmul k (uint (gf_pow gmul 2 c)) =
     (uint (gf_pow gmul 2 (c + k)), map (\<lambda>i. uint (gf_pow gmul 2 (c + i))) [0..<k])"
proof (induction k arbitrary: c)
  case (Suc k)
  have "gmul (uint (gf_pow gmul 2 c)) baseMulNum = uint (gf_pow gmul 2 (Suc c))"
    using mul_int [of "gf_pow gmul 2 c" 2] by (simp add: baseMulNum_def)
  moreover have "map (\<lambda>i. uint (gf_pow gmul 2 (Suc (c + i)))) [0..<k] =
      map (\<lambda>i. uint (gf_pow gmul 2 (c + i))) [Suc 0..<Suc k]"
    by (rule nth_equalityI) (simp_all del: upt_Suc)
  ultimately show ?case
    using Suc [of "Suc c"] by (simp add: upt_conv_Cons del: gf_pow.simps upt_Suc)
qed simp

lemma GenerateBaseNumList_powers:
  assumes "n \<le> 40"
  shows "GenerateBaseNumList gmul n (int k) (uint (gf_pow gmul 2 c)) =
     (uint (gf_pow gmul 2 (c + k)), Some (map uint (map (\<lambda>i. gf_pow gmul 2 (c + i)) [0..<k])))"
  using assms by (simp add: GenerateBaseNumList_def base_nums_powers comp_def)

end

subsection \<open>The packet mask marks the sequence numbers\<close>

definition seq_offset :: "byte list list \<Rightarrow> byte list \<Rightarrow> nat" where
  "seq_offset media p = unat (ParseSequenceNumber p - ParseSequenceNumber (hd media))"

definition offsets :: "byte list list \<Rightarrow> nat list" where
  "offsets media = map (seq_offset media) media"

text \<open>A batch that can be protected: RTP packets in order, spread over at most 32 numbers.\<close>

definition wf_media :: "byte list list \<Rightarrow> bool" where
  "wf_media media \<longleftrightarrow> media \<noteq> [] \<and> length media \<le> 32 \<and> (\<forall>p \<in> set media. 12 \<le> length p) \<and>
     sorted_wrt (<) (offsets media) \<and> (\<forall>i \<in> set (offsets media). i < 32)"

lemma unat_diff_offset:
  fixes a b s :: u16
  assumes "unat (a - s) \<le> unat (b - s)"
  shows "unat (a - s) + unat (b - a) = unat (b - s)"
proof -
  have "b - a = (b - s) - (a - s)" by simp
  thus ?thesis using assms by (simp only: unat_sub [OF assms [unfolded word_le_nat_alt [symmetric]]])
qed

lemma packet_mask_marks:
  assumes "os = map (\<lambda>p. unat (ParseSequenceNumber p - s)) (p # rest)"
    "sorted_wrt (<) os" "\<forall>i \<in> set os. i < 32"
  shows "packet_mask (p # rest) (ParseSequenceNumber p) (hd os) m =
     Some (fold (\<lambda>i m. m[i := 1]) os m, Suc (last os))"
  using assms
proof (induction rest arbitrary: p os m)
  case (Cons q rest)
  let ?o = "\<lambda>p. unat (ParseSequenceNumber p - s)"
  have "?o p < ?o q" "?o q < 32" using Cons.prems by auto
  moreover have "?o p + unat (ParseSequenceNumber q - ParseSequenceNumber p) = ?o q"
    using \<open>?o p < ?o q\<close> by (intro unat_diff_offset) simp
  ultimately show ?case
    using Cons.prems Cons.IH [of "map ?o (q # rest)" q "m[?o p := 1]"] by (simp add: Let_def)
qed simp

lemma nth_fold_mark:
  "\<forall>i \<in> set os. i < length m \<Longrightarrow>
     length (fold (\<lambda>i m. m[i := 1]) os m) = length m \<and>
     fold (\<lambda>i m. m[i := 1]) os m ! j = (if j \<in> set os then 1 else m ! j)"
  by (induction os arbitrary: m) (auto simp: nth_list_update)

lemma bit_mask_word: "bit (mask_word m n) i \<longleftrightarrow> i < n \<and> i < 32 \<and> m ! i \<noteq> 0"
proof (induction n)
  case (Suc n)
  thus ?case by (auto simp: mask_word_def bit_simps less_Suc_eq)
qed (simp add: mask_word_def)

lemma sorted_filter_upt:
  assumes "sorted_wrt (<) (os :: nat list)" "\<forall>i \<in> set os. i < n"
  shows "filter (\<lambda>i. i \<in> set os) [0..<n] = os"
  by (rule sorted_distinct_set_unique)
     (use assms in \<open>auto simp: strict_sorted_iff intro!: sorted_wrt_filter\<close>)

lemma sorted_last_max: "sorted_wrt (<) (os :: nat list) \<Longrightarrow> i \<in> set os \<Longrightarrow> i \<le> last os"
  by (induction os) (auto simp: less_imp_le)

lemma packet_mask_wf:
  assumes "wf_media media"
  shows "\<exists>m n. packet_mask media (ParseSequenceNumber (hd media)) 0 (replicate 32 0) = Some (m, n) \<and>
     length m = 32 \<and> n \<le> 32 \<and> stream_positions m n 0 = offsets media \<and>
     (\<forall>i. bit (mask_word m n) i \<longleftrightarrow> i \<in> set (offsets media))"
proof -
  obtain p rest where media: "media = p # rest" using assms by (cases media) (auto simp: wf_media_def)
  let ?os = "offsets media"
  let ?m = "fold (\<lambda>i m. m[i := 1]) ?os (replicate 32 (0 :: int))"
  have wf: "sorted_wrt (<) ?os" "\<forall>i \<in> set ?os. i < 32" using assms by (auto simp: wf_media_def)
  have hd: "hd ?os = 0" "?os \<noteq> []" by (simp_all add: media offsets_def seq_offset_def)
  have pm: "packet_mask media (ParseSequenceNumber (hd media)) 0 (replicate 32 0) = Some (?m, Suc (last ?os))"
    using packet_mask_marks [of ?os "ParseSequenceNumber (hd media)" p rest "replicate 32 0"] wf hd
    by (simp add: media offsets_def seq_offset_def [abs_def])
  have m: "length ?m = 32" "?m ! j = (if j \<in> set ?os then 1 else 0)" if "j < 32" for j
    using nth_fold_mark [of ?os "replicate 32 (0 :: int)" j] wf(2) that by auto
  have last: "Suc (last ?os) \<le> 32" using wf(2) last_in_set [OF hd(2)] by (simp add: Suc_le_eq)
  have le: "\<forall>i \<in> set ?os. i < Suc (last ?os)"
    using sorted_last_max [OF wf(1)] by (auto simp: less_Suc_eq_le)
  have "stream_positions ?m (Suc (last ?os)) 0 = filter (\<lambda>i. i \<in> set ?os) [0..<Suc (last ?os)]"
    unfolding stream_positions_def using last by (intro filter_cong) (auto simp: m(2) split: if_splits)
  moreover have "bit (mask_word ?m (Suc (last ?os))) i \<longleftrightarrow> i \<in> set ?os" for i
    using le wf(2) by (auto simp: bit_mask_word m(2) split: if_splits)
  ultimately show ?thesis using pm m(1) [of 0] last sorted_filter_upt [OF wf(1) le] by auto
qed

subsection \<open>What a generated parity packet contains\<close>

definition max_payload :: "byte list list \<Rightarrow> nat" where
  "max_payload media = Max (insert 0 ((\<lambda>p. length p - 12) ` set media))"

lemma max_payload_Cons: "max_payload (p # ps) = max (length p - 12) (max_payload ps)"
  by (cases "ps = []") (simp_all add: max_payload_def insert_commute [of 0])

lemma max_payload_Nil [simp]: "max_payload [] = 0"
  by (simp add: max_payload_def)

lemma max_payload_ge: "p \<in> set media \<Longrightarrow> length p - 12 \<le> max_payload media"
  unfolding max_payload_def by (intro Max_ge) auto

text \<open>The contract of the encoder towards the receiver, for one packet with base number \<open>b\<close>.\<close>

definition parity_packet :: "gf_op \<Rightarrow> byte list list \<Rightarrow> byte \<Rightarrow> byte list \<Rightarrow> bool" where
  "parity_packet g media b f \<longleftrightarrow> (\<forall>ssrc. \<exists>h w. ReadFecHeader ssrc f = Inr (Some (h, w)) \<and>
     fh_size h = 18 \<and> fh_protection_length h = max_payload media \<and>
     ps_ssrc (fh_stream h) = ssrc \<and> pkt_arrive (fh_stream h) = 0 \<and>
     packet_mask_offset (fh_stream h) = 12 \<and> packet_mask_size (fh_stream h) = 4 \<and>
     seq_num_base (fh_stream h) = ParseSequenceNumber (hd media) \<and>
     cur_base_num (fh_stream h) = ucast b \<and>
     (\<forall>i. bit (pkt_mask (fh_stream h)) i \<longleftrightarrow> i \<in> set (offsets media)) \<and>
     length w = 18 + max_payload media \<and> length f = length w \<and>
     (\<forall>q. code 18 w q =
        xsum (\<lambda>j. gf8 g (rtp_code (media ! j) q) (gf_pow g b (offsets media ! j))) (length media)))"

context galois_ring
begin

lemma fec_payload_code:
  assumes "\<forall>p \<in> set media. 12 \<le> length p" "d = [] \<or> 18 \<le> length d"
  shows "\<exists>e. fec_payload gmul tab idx media d = Inr e \<and>
     (media \<noteq> [] \<longrightarrow> length e = max (length d) (18 + max_payload media)) \<and>
     (\<forall>q. code 18 e q = (if media \<noteq> [] \<and> d = [] then 0 else code 18 d q) XOR
        xsum (\<lambda>j. gf8 gmul (rtp_code (media ! j) q) (tab ! (idx + j))) (length media))"
  using assms
proof (induction media arbitrary: d idx)
  case (Cons p ps)
  define d1 where "d1 = (if 18 + (length p - 12) > length d then grow d (18 + (length p - 12)) else d)"
  have l1: "18 \<le> length d1" "length d1 = max (length d) (18 + (length p - 12))"
    using Cons.prems(2) by (auto simp: d1_def)
  have c1: "code 18 d1 q = (if d = [] then 0 else code 18 d q)" for q
    using Cons.prems(2) by (auto simp: d1_def code_def nth_grow)
  have p: "12 \<le> length p" and ps: "\<forall>p \<in> set ps. 12 \<le> length p" using Cons.prems(1) by auto
  from add_media_code [OF p _ l1(1), of "tab ! idx"] obtain d2 where
    d2: "add_media gmul p 18 d1 (tab ! idx) = Inr d2" "length d2 = max (length d1) (18 + (length p - 12))"
      "\<And>q. code 18 d2 q = code 18 d1 q XOR gf8 gmul (rtp_code p q) (tab ! idx)"
    by auto
  have l2: "18 \<le> length d2" "d2 \<noteq> []" using d2(2) by auto
  with Cons.IH [OF ps, of d2 "Suc idx"] obtain e where
    e: "fec_payload gmul tab (Suc idx) ps d2 = Inr e"
      "ps \<noteq> [] \<longrightarrow> length e = max (length d2) (18 + max_payload ps)"
      "\<And>q. code 18 e q = code 18 d2 q XOR
         xsum (\<lambda>j. gf8 gmul (rtp_code (ps ! j) q) (tab ! (Suc idx + j))) (length ps)"
    by auto
  have "fec_payload gmul tab idx (p # ps) d = Inr e"
    using d2(1) e(1) by (simp add: Let_def d1_def)
  moreover have "length e = max (length d) (18 + max_payload (p # ps))"
    using e l1(2) d2(2) by (cases "ps = []") (auto simp: max_payload_Cons nat_add_max_right max.assoc)
  moreover have "code 18 e q = (if d = [] then 0 else code 18 d q) XOR
      xsum (\<lambda>j. gf8 gmul (rtp_code ((p # ps) ! j) q) (tab ! (idx + j))) (length (p # ps))" for q
    unfolding list.size add_Suc_right add_0_right xsum_Suc_shift
    by (simp add: e(3) d2(3) c1 xor.assoc)
  ultimately show ?case by auto
qed auto

lemma parity_of_payload:
  assumes "wf_media media" "max_payload media < 65536"
    and pay: "fec_payload gmul tab idx media [] = Inr d"
    and tab: "\<And>j. j < length media \<Longrightarrow> tab ! (idx + j) = gf_pow gmul b (offsets media ! j)"
    and msk: "\<And>i. bit msk i \<longleftrightarrow> i \<in> set (offsets media)"
  shows "\<exists>f. FinalizeFecHeader (ParseSequenceNumber (hd media)) (word_of_int (uint b)) msk d = Inr f \<and>
           parity_packet gmul media b f"
proof -
  have wf: "\<forall>p \<in> set media. 12 \<le> length p" "media \<noteq> []" using assms(1) by (auto simp: wf_media_def)
  from fec_payload_code [OF wf(1), of "[]" tab idx] pay wf(2) have
    d: "length d = 18 + max_payload media"
      "code 18 d q = xsum (\<lambda>j. gf8 gmul (rtp_code (media ! j) q) (gf_pow gmul b (offsets media ! j))) (length media)" for q
    using tab by (auto cong: xsum_cong)
  have l: "18 \<le> length d" "length d - 18 < 65536" using d(1) assms(2) by auto
  obtain f where f: "FinalizeFecHeader (ParseSequenceNumber (hd media)) (word_of_int (uint b)) msk d = Inr f"
    using Read_Finalize [OF l] by blast
  have "parity_packet gmul media b f"
    unfolding parity_packet_def
  proof
    fix ssrc
    from Read_Finalize [OF l, of "ParseSequenceNumber (hd media)" "word_of_int (uint b)" msk ssrc] f
    obtain h w where hw: "ReadFecHeader ssrc f = Inr (Some (h, w))" "fh_size h = 18"
      "fh_protection_length h = length d - 18" "length f = length d"
      "fh_stream h = \<lparr>ps_ssrc = ssrc, seq_num_base = ParseSequenceNumber (hd media),
         cur_base_num = word_of_int (uint b), packet_mask_offset = 12, pkt_mask = msk, pkt_arrive = 0,
         packet_mask_size = 4\<rparr>"
      "length w = length d" "\<forall>q. code 18 w q = code 18 d q" by auto
    show "\<exists>h w. ReadFecHeader ssrc f = Inr (Some (h, w)) \<and>
     fh_size h = 18 \<and> fh_protection_length h = max_payload media \<and>
     ps_ssrc (fh_stream h) = ssrc \<and> pkt_arrive (fh_stream h) = 0 \<and>
     packet_mask_offset (fh_stream h) = 12 \<and> packet_mask_size (fh_stream h) = 4 \<and>
     seq_num_base (fh_stream h) = ParseSequenceNumber (hd media) \<and>
     cur_base_num (fh_stream h) = ucast b \<and>
     (\<forall>i. bit (pkt_mask (fh_stream h)) i \<longleftrightarrow> i \<in> set (offsets media)) \<and>
     length w = 18 + max_payload media \<and> length f = length w \<and>
     (\<forall>q. code 18 w q =
        xsum (\<lambda>j. gf8 gmul (rtp_code (media ! j) q) (gf_pow gmul b (offsets media ! j))) (length media))"
      by (intro exI [of _ h] exI [of _ w]) (simp add: hw d msk)
  qed
  thus ?thesis using f by blast
qed

lemma EncodeRSFec_correct:
  assumes wf: "wf_media media" and mp: "max_payload media < 65536"
    and num: "num_fec_packets params (length media) pf = int k" and k: "0 < k" "k \<le> 32"
  shows "\<exists>fecs. EncodeRSFec gmul params (uint (gf_pow gmul 2 c)) media pf =
       Inr (uint (gf_pow gmul 2 (c + k)), 0, fecs) \<and>
     length fecs = k \<and> (\<forall>i < k. parity_packet gmul media (gf_pow gmul 2 (c + i)) (fecs ! i))"
proof -
  have w: "media \<noteq> []" "length media \<le> 32" "\<forall>p \<in> set media. 12 \<le> length p"
    using wf by (auto simp: wf_media_def)
  obtain m n where m: "packet_mask media (ParseSequenceNumber (hd media)) 0 (replicate 32 0) = Some (m, n)"
      "length m = 32" "n \<le> 32" "stream_positions m n 0 = offsets media"
    and bits: "\<And>i. bit (mask_word m n) i \<longleftrightarrow> i \<in> set (offsets media)"
    using packet_mask_wf [OF wf] by auto
  define bs where "bs = map (\<lambda>i. gf_pow gmul 2 (c + i)) [0..<k]"
  have bs: "length bs = k" "\<And>i. i < k \<Longrightarrow> bs ! i = gf_pow gmul 2 (c + i)" by (simp_all add: bs_def)
  have gen: "GenerateBaseNumList gmul (length media) (int k) (uint (gf_pow gmul 2 c)) =
      (uint (gf_pow gmul 2 (c + k)), Some (map uint bs))"
    unfolding bs_def using w(2) by (intro GenerateBaseNumList_powers) simp
  have "length media \<le> length (stream_positions m n 0)" "n \<le> length m"
    using m by (simp_all add: offsets_def)
  then obtain tab where tab: "reed_sol_sub_stream_coding_matrix gmul (length media) k (map uint bs) m n = Inr (Some tab)"
    and cell: "\<And>r j. r < k \<Longrightarrow> j < length media \<Longrightarrow>
      at2 (length media) tab r j = gf_pow gmul (bs ! r) (offsets media ! j)"
    using sub_stream_coding_matrix_cells [OF bs(1), of n m "length media"] m(4) by auto
  have "\<forall>i. \<exists>d. fec_payload gmul tab (i * length media) media [] = Inr d"
    using fec_payload_code [OF w(3), of "[]" tab] by blast
  then obtain P where P: "\<And>i. fec_payload gmul tab (i * length media) media [] = Inr (P i)" by metis
  have "\<exists>f. FinalizeFecHeader (ParseSequenceNumber (hd media)) (word_of_int (uint (bs ! i)))
           (mask_word m n) (P i) = Inr f \<and> parity_packet gmul media (bs ! i) f" if "i < k" for i
    using cell [OF that] by (intro parity_of_payload [OF wf mp P _ bits]) (simp add: at2_def)
  then obtain F where F: "\<And>i. i < k \<Longrightarrow> FinalizeFecHeader (ParseSequenceNumber (hd media))
      (word_of_int (uint (bs ! i))) (mask_word m n) (P i) = Inr (F i) \<and> parity_packet gmul media (bs ! i) (F i)"
    by metis
  have "GenerateFecPayloads gmul media (length media) k tab = Inr (map P [0..<k])"
    unfolding GenerateFecPayloads_def by (rule map_result_Inr) (simp add: P)
  moreover have "FinalizeFecHeaders (map P [0..<k]) (ParseSequenceNumber (hd media)) (map uint bs) m n =
      Inr (map F [0..<k])"
    unfolding FinalizeFecHeaders_def length_map length_upt diff_zero
    by (rule map_result_Inr) (use F bs(1) in auto)
  moreover have "\<not> (\<exists>p \<in> set media. length p < 12)" using w(3) by auto
  ultimately have "EncodeRSFec gmul params (uint (gf_pow gmul 2 c)) media pf =
      Inr (uint (gf_pow gmul 2 (c + k)), 0, map F [0..<k])"
    using w k by (simp add: EncodeRSFec_def Let_def num m(1) gen GenerateCodingMatrix_def tab)
  thus ?thesis using F bs(2) by auto
qed

end

text \<open>Rounding: never more parity packets than media packets, and at least one when asked for.\<close>

lemma NumFecPackets_bounds:
  assumes "0 < n" "0 \<le> f" "f < 256"
  shows "0 \<le> NumFecPackets n f" "NumFecPackets n f \<le> n" "NumFecPackets n f = 0 \<longleftrightarrow> f = 0"
proof -
  define r where "r = (n * f + 128) div 256"
  have nf: "NumFecPackets n f = (if f > 0 \<and> r = 0 then 1 else r)"
    by (simp add: NumFecPackets_def r_def drop_bit_eq_div push_bit_eq_mult Let_def)
  define q where "q = n * f"
  have "q \<le> n * 255" unfolding q_def using assms by (intro mult_left_mono) auto
  hence "q + 128 < (n + 1) * 256" using assms(1) by simp
  hence "n * f + 128 < (n + 1) * 256" by (simp only: q_def)
  hence "r < n + 1" unfolding r_def by (simp add: div_less_iff_less_mult)
  moreover have "0 \<le> n * f" using assms by simp
  hence "0 \<le> r" unfolding r_def by (simp add: div_int_pos_iff)
  ultimately show "0 \<le> NumFecPackets n f" "NumFecPackets n f \<le> n" using assms by (auto simp: nf)
  show "NumFecPackets n f = 0 \<longleftrightarrow> f = 0"
    using assms \<open>0 \<le> r\<close> by (auto simp: nf r_def)
qed

end
