(* ===== verification/Seq_Num.thy ===== *)
theory Seq_Num
  imports Fec_Prelude "HOL-Library.Multiset"
begin

text \<open>
  Sequence numbers that wrap around: the distances of \<^verbatim>\<open>rtc_base/numerics/mod_ops.h\<close> (with
  \<open>M = 0\<close>, so modulo 65536), the order of \<^verbatim>\<open>modules/include/module_common_types_public.h\<close>, and
  the standard library algorithms that the FEC code runs with that order.
\<close>

definition ForwardDiff :: "u16 \<Rightarrow> u16 \<Rightarrow> u16" where
  "ForwardDiff a b = b - a"

definition ReverseDiff :: "u16 \<Rightarrow> u16 \<Rightarrow> u16" where
  "ReverseDiff a b = a - b"

definition MinDiff :: "u16 \<Rightarrow> u16 \<Rightarrow> u16" where
  "MinDiff a b = min (ForwardDiff a b) (ReverseDiff a b)"

text \<open>The first comparison is done in \<^verbatim>\<open>int\<close>, after promotion; the second modulo 65536.\<close>

definition IsNewerSequenceNumber :: "u16 \<Rightarrow> u16 \<Rightarrow> bool" where
  "IsNewerSequenceNumber v prev =
     (if uint v - uint prev = 0x8000 then v > prev else v \<noteq> prev \<and> v - prev < 0x8000)"

subsection \<open>Standard library algorithms\<close>

text \<open>\<^verbatim>\<open>std::lower_bound\<close> with \<open>lt\<close> the comparison of an element with the value: binary search.\<close>

function lower_bound :: "('a \<Rightarrow> bool) \<Rightarrow> 'a list \<Rightarrow> nat \<Rightarrow> nat \<Rightarrow> nat" where
  "lower_bound lt xs first len =
     (if len = 0 then first
      else let half = len div 2
           in if lt (xs ! (first + half)) then lower_bound lt xs (first + half + 1) (len - (half + 1))
              else lower_bound lt xs first half)"
  by pat_completeness auto
termination
  by (relation "measure (\<lambda>(lt, xs, first, len). len)") auto

declare lower_bound.simps [simp del]

text \<open>\<^verbatim>\<open>std::list::sort\<close>: a stable merge sort.\<close>

fun merge_by :: "('a \<Rightarrow> 'a \<Rightarrow> bool) \<Rightarrow> 'a list \<Rightarrow> 'a list \<Rightarrow> 'a list" where
  "merge_by lt [] ys = ys"
| "merge_by lt xs [] = xs"
| "merge_by lt (x # xs) (y # ys) =
     (if lt y x then y # merge_by lt (x # xs) ys else x # merge_by lt xs (y # ys))"

fun sort_by :: "('a \<Rightarrow> 'a \<Rightarrow> bool) \<Rightarrow> 'a list \<Rightarrow> 'a list" where
  "sort_by lt xs =
     (if length xs \<le> 1 then xs
      else merge_by lt (sort_by lt (take (length xs div 2) xs)) (sort_by lt (drop (length xs div 2) xs)))"

declare sort_by.simps [simp del]

subsection \<open>The order on sequence numbers\<close>

lemma IsNewer_irrefl [simp]: "\<not> IsNewerSequenceNumber a a"
  by (simp add: IsNewerSequenceNumber_def)

definition wrap_diff :: "int \<Rightarrow> int \<Rightarrow> int" where
  "wrap_diff a b = (if b \<le> a then a - b else a - b + 65536)"

definition newer_int :: "int \<Rightarrow> int \<Rightarrow> bool" where
  "newer_int a b \<longleftrightarrow> 0 < wrap_diff a b \<and> wrap_diff a b < 0x8000 \<or> wrap_diff a b = 0x8000 \<and> b < a"

lemma newer_int_arith:
  assumes "0 \<le> a" "a < 65536" "0 \<le> b" "b < 65536"
  shows "newer_int a b \<longleftrightarrow> (if a - b = 0x8000 then b < a else a \<noteq> b \<and> wrap_diff a b < 0x8000)"
    and "newer_int a b \<Longrightarrow> \<not> newer_int b a" and "a \<noteq> b \<Longrightarrow> newer_int a b \<or> newer_int b a"
  using assms by (auto simp: newer_int_def wrap_diff_def split: if_splits)

lemma uint_diff: "uint (a - b) = wrap_diff (uint a) (uint b)" for a b :: u16
  by (simp add: uint_sub_if' wrap_diff_def)

lemma uint16_range: "0 \<le> uint a" "uint a < 65536" for a :: u16
  using uint_bounded [of a] by simp_all

text \<open>In terms of the distance modulo 65536; the half-way point goes to the larger number.\<close>

lemma IsNewer_int: "IsNewerSequenceNumber a b \<longleftrightarrow> newer_int (uint a) (uint b)"
proof -
  have "a - b < 0x8000 \<longleftrightarrow> uint (a - b) < 0x8000" by (simp add: word_less_def)
  moreover have "a = b \<longleftrightarrow> uint a = uint b" by (simp add: word_uint_eq_iff)
  ultimately show ?thesis
    by (simp add: IsNewerSequenceNumber_def word_less_def [of b a] uint_diff
        newer_int_arith(1) [OF uint16_range uint16_range])
qed

lemma IsNewer_antisym: "IsNewerSequenceNumber a b \<Longrightarrow> \<not> IsNewerSequenceNumber b a"
  unfolding IsNewer_int by (rule newer_int_arith(2) [OF uint16_range uint16_range])

lemma IsNewer_total: "a \<noteq> b \<Longrightarrow> IsNewerSequenceNumber a b \<or> IsNewerSequenceNumber b a"
  unfolding IsNewer_int by (rule newer_int_arith(3) [OF uint16_range uint16_range]) (simp add: word_uint_eq_iff)

text \<open>Within half of the number space after \<open>s\<close>, the order is that of the distance to \<open>s\<close>.\<close>

definition offset :: "u16 \<Rightarrow> u16 \<Rightarrow> nat" where
  "offset s a = unat (a - s)"

definition in_window :: "u16 \<Rightarrow> u16 \<Rightarrow> bool" where
  "in_window s a \<longleftrightarrow> offset s a < 0x8000"

lemma offset_inj: "offset s a = offset s b \<Longrightarrow> a = b"
  by (simp add: offset_def word_unat_eq_iff [symmetric])

lemma uint_offset_diff: "uint (a - b) = wrap_diff (int (offset s a)) (int (offset s b))"
proof -
  have "uint (a - b) = uint ((a - s) - (b - s))" by simp
  thus ?thesis unfolding uint_diff [of "a - s" "b - s"] offset_def by (simp only: uint_nat)
qed

lemma IsNewer_window:
  assumes "in_window s a" "in_window s b"
  shows "IsNewerSequenceNumber a b \<longleftrightarrow> offset s b < offset s a"
proof -
  have "IsNewerSequenceNumber a b \<longleftrightarrow>
      0 < uint (a - b) \<and> uint (a - b) < 0x8000 \<or> uint (a - b) = 0x8000 \<and> uint b < uint a"
    by (simp add: IsNewer_int newer_int_def uint_diff)
  thus ?thesis using assms unfolding in_window_def uint_offset_diff [of a b s] wrap_diff_def by auto
qed

lemma unat_MinDiff: "unat (MinDiff a b) = min (unat (b - a)) (unat (a - b))"
  by (simp add: MinDiff_def ForwardDiff_def ReverseDiff_def min_def word_le_nat_alt)

lemma MinDiff_commute: "MinDiff a b = MinDiff b a"
  by (simp add: MinDiff_def ForwardDiff_def ReverseDiff_def min.commute)

lemma MinDiff_offset:
  assumes "offset s a \<le> offset s b" "offset s b - offset s a \<le> 0x8000"
  shows "unat (MinDiff a b) = offset s b - offset s a"
proof -
  have "unat (b - a) = offset s b - offset s a"
    unfolding unat_eq_nat_uint uint_offset_diff [of b a s] using assms by (simp add: wrap_diff_def)
  moreover have "unat (a - b) = (if offset s a = offset s b then 0 else 65536 - (offset s b - offset s a))"
    unfolding unat_eq_nat_uint uint_offset_diff [of a b s] using assms by (auto simp: wrap_diff_def)
  ultimately show ?thesis using assms(2) by (simp add: unat_MinDiff)
qed

subsection \<open>Sorting and searching\<close>

lemma mset_merge_by [simp]: "mset (merge_by lt xs ys) = mset xs + mset ys"
  by (induction lt xs ys rule: merge_by.induct) simp_all

lemma mset_sort_by [simp]: "mset (sort_by lt xs) = mset xs"
proof (induction lt xs rule: sort_by.induct)
  case (1 lt xs)
  thus ?case
    by (cases "length xs \<le> 1") (simp_all add: sort_by.simps [of lt xs] union_code [symmetric] flip: mset_append)
qed

lemma length_sort_by [simp]: "length (sort_by lt xs) = length xs"
  using mset_eq_length [OF mset_sort_by] .

lemma set_sort_by [simp]: "set (sort_by lt xs) = set xs"
  using mset_eq_setD [OF mset_sort_by] .

lemma map_distinct_sort_by [simp]: "distinct (map f (sort_by lt xs)) \<longleftrightarrow> distinct (map f xs)"
  using mset_eq_imp_distinct_iff [of "map f (sort_by lt xs)" "map f xs"] by simp

text \<open>On keys where the comparison is a strict linear order the result is sorted.\<close>

lemma sorted_merge_by:
  assumes "\<And>x y. x \<in> set xs \<union> set ys \<Longrightarrow> y \<in> set xs \<union> set ys \<Longrightarrow> lt x y \<longleftrightarrow> (f x :: nat) < f y"
    and "sorted_wrt (\<lambda>x y. f x \<le> f y) xs" "sorted_wrt (\<lambda>x y. f x \<le> f y) ys"
  shows "sorted_wrt (\<lambda>x y. f x \<le> f y) (merge_by lt xs ys)"
  using assms
proof (induction lt xs ys rule: merge_by.induct)
  case (3 lt x xs y ys)
  have set: "set (merge_by lt (x # xs) ys) = set (x # xs) \<union> set ys"
    "set (merge_by lt xs (y # ys)) = set xs \<union> set (y # ys)"
    using mset_eq_setD [of "merge_by lt (x # xs) ys" "(x # xs) @ ys"]
      mset_eq_setD [of "merge_by lt xs (y # ys)" "xs @ y # ys"] by auto
  have lt: "lt y x \<longleftrightarrow> f y < f x" using "3.prems"(1) by simp
  show ?case
  proof (cases "lt y x")
    case True
    have "sorted_wrt (\<lambda>x y. f x \<le> f y) (merge_by lt (x # xs) ys)"
      using "3.prems" by (intro "3.IH"(1) [OF True]) auto
    moreover have "\<forall>z \<in> set (x # xs) \<union> set ys. f y \<le> f z"
      using "3.prems"(2,3) True lt by fastforce
    ultimately show ?thesis using True set(1) by simp
  next
    case False
    have "sorted_wrt (\<lambda>x y. f x \<le> f y) (merge_by lt xs (y # ys))"
      using "3.prems" by (intro "3.IH"(2) [OF False]) auto
    moreover have "\<forall>z \<in> set xs \<union> set (y # ys). f x \<le> f z"
      using "3.prems"(2,3) False lt by fastforce
    ultimately show ?thesis using False set(2) by simp
  qed
qed auto

lemma sorted_sort_by:
  assumes "\<And>x y. x \<in> set xs \<Longrightarrow> y \<in> set xs \<Longrightarrow> lt x y \<longleftrightarrow> (f x :: nat) < f y"
  shows "sorted_wrt (\<lambda>x y. f x \<le> f y) (sort_by lt xs)"
  using assms
proof (induction lt xs rule: sort_by.induct)
  case (1 lt xs)
  show ?case
  proof (cases "length xs \<le> 1")
    case True
    hence "sort_by lt xs = xs" by (simp add: sort_by.simps [of lt xs])
    thus ?thesis using True by (cases xs) simp_all
  next
    case False
    have sub: "set (take (length xs div 2) xs) \<subseteq> set xs" "set (drop (length xs div 2) xs) \<subseteq> set xs"
      by (auto dest: in_set_takeD in_set_dropD)
    have "sorted_wrt (\<lambda>x y. f x \<le> f y) (merge_by lt (sort_by lt (take (length xs div 2) xs))
        (sort_by lt (drop (length xs div 2) xs)))"
      using "1.prems" sub
      by (intro sorted_merge_by "1.IH" [OF False]) (auto dest: subsetD [OF sub(1)] subsetD [OF sub(2)])
    thus ?thesis using False by (simp add: sort_by.simps [of lt xs])
  qed
qed

lemma lower_bound_step:
  "lower_bound lt xs first 0 = first"
  "0 < len \<Longrightarrow> lower_bound lt xs first len =
     (if lt (xs ! (first + len div 2)) then lower_bound lt xs (first + len div 2 + 1) (len - (len div 2 + 1))
      else lower_bound lt xs first (len div 2))"
  by (simp_all add: lower_bound.simps [of _ _ _ len] lower_bound.simps [of _ _ _ 0] Let_def)

text \<open>On a partitioned range the result is the partition point.\<close>

lemma lower_bound_partition:
  assumes "first \<le> p" "p \<le> first + len"
    and "\<And>i. first \<le> i \<Longrightarrow> i < first + len \<Longrightarrow> lt (xs ! i) \<longleftrightarrow> i < p"
  shows "lower_bound lt xs first len = p"
  using assms
proof (induction len arbitrary: first rule: less_induct)
  case (less len)
  show ?case
  proof (cases "len = 0")
    case False
    have mid: "first + len div 2 < first + len" using False by auto
    have l: "lt (xs ! (first + len div 2)) \<longleftrightarrow> first + len div 2 < p" using less.prems(3) mid by simp
    show ?thesis
    proof (cases "first + len div 2 < p")
      case True
      have "lower_bound lt xs (first + len div 2 + 1) (len - (len div 2 + 1)) = p"
        using False True less.prems by (intro less.IH) auto
      thus ?thesis using False True l by (simp add: lower_bound_step)
    next
      case False
      have "lower_bound lt xs first (len div 2) = p"
        using \<open>len \<noteq> 0\<close> False less.prems by (intro less.IH) auto
      thus ?thesis using \<open>len \<noteq> 0\<close> False l by (simp add: lower_bound_step)
    qed
  qed (use less.prems in \<open>simp add: lower_bound_step\<close>)
qed

end
