(* ===== verification/RS_Decoder.thy ===== *)
theory RS_Decoder
  imports RS_Encoder Seq_Num
begin

text \<open>
  The decoder of \<^verbatim>\<open>RS_FEC/RS_forward_error_correction.cc\<close>: its buffers of parity packets and of
  packets considered lost, the search for a decodable group, and the recovery of its packets.
  Objects that the source shares by \<^verbatim>\<open>shared_ptr\<close> carry an identity; a \<^verbatim>\<open>weak_ptr\<close> is that
  number, and locking it looks the object up among those that are alive.  Log files and the receive
  times that only the log files use are left out.
\<close>

abbreviation (input) kOldSequenceThreshold :: nat where "kOldSequenceThreshold \<equiv> 128"
abbreviation (input) kConsiderLossSeqThreadshold :: nat where "kConsiderLossSeqThreadshold \<equiv> 128"
abbreviation (input) kConsiderDecodeMaxN :: nat where "kConsiderDecodeMaxN \<equiv> 128"

type_synonym window = "128 word"

subsection \<open>Data\<close>

record received_packet =
  rcv_ssrc :: u32
  rcv_seq :: u16
  rcv_is_fec :: bool
  rcv_pkt :: "byte list"

record recovered_packet =
  rp_ssrc :: u32
  rp_seq :: u16
  was_recovered :: bool
  returned :: bool
  rp_pkt :: "byte list"

record protected_packet =
  pp_ssrc :: u32
  pp_seq :: u16
  pp_pkt :: "byte list option"

record fec_packet =
  fp_id :: nat
  fp_ssrc :: u32
  fp_seq :: u16
  fp_protected :: "protected_packet list"
  fp_maybe_loss :: "nat list"
  fp_header_size :: nat
  fp_stream :: protected_stream
  fp_protection_length :: nat
  fp_pkt :: "byte list"

record loss_packet =
  lp_id :: nat
  lp_ssrc :: u32
  lp_seq :: u16
  lp_refs :: "nat list"

record rs_fec =
  fec_ssrc :: u32
  protected_media_ssrc :: u32
  received_fec :: "fec_packet list"
  consider_loss :: "loss_packet list"
  next_id :: nat

text \<open>\<^verbatim>\<open>SortablePacket::LessThan\<close>, for the lists that are sorted with it.\<close>

definition rp_less :: "recovered_packet \<Rightarrow> recovered_packet \<Rightarrow> bool" where
  "rp_less a b = IsNewerSequenceNumber (rp_seq b) (rp_seq a)"

definition fp_less :: "fec_packet \<Rightarrow> fec_packet \<Rightarrow> bool" where
  "fp_less a b = IsNewerSequenceNumber (fp_seq b) (fp_seq a)"

definition lp_less :: "loss_packet \<Rightarrow> loss_packet \<Rightarrow> bool" where
  "lp_less a b = IsNewerSequenceNumber (lp_seq b) (lp_seq a)"

subsection \<open>Inserting packets\<close>

definition ResetState :: "rs_fec \<Rightarrow> rs_fec \<times> recovered_packet list" where
  "ResetState st = (st\<lparr>received_fec := [], consider_loss := []\<rparr>, [])"

definition update_covering :: "recovered_packet \<Rightarrow> fec_packet \<Rightarrow> fec_packet" where
  "update_covering packet fec =
     (let ps = fp_protected fec;
          i = lower_bound (\<lambda>p. IsNewerSequenceNumber (rp_seq packet) (pp_seq p)) ps 0 (length ps)
      in if i < length ps \<and> pp_seq (ps ! i) = rp_seq packet then
           let seq_num_diff = unat (MinDiff (pp_seq (ps ! i)) (seq_num_base (fp_stream fec)))
           in fec\<lparr>fp_protected := ps[i := (ps ! i)\<lparr>pp_pkt := Some (rp_pkt packet)\<rparr>],
                  fp_stream := (fp_stream fec)\<lparr>pkt_arrive := set_bit seq_num_diff (pkt_arrive (fp_stream fec))\<rparr>\<rparr>
         else fec)"

definition UpdateCoveringFecPackets :: "recovered_packet \<Rightarrow> rs_fec \<Rightarrow> rs_fec" where
  "UpdateCoveringFecPackets packet st =
     st\<lparr>received_fec := map (update_covering packet) (received_fec st)\<rparr>"

text \<open>
  Locking: parity packets are alive while they are buffered; packets considered lost also while a
  recovery holds them in \<open>held\<close>.
\<close>

definition fec_alive :: "rs_fec \<Rightarrow> nat \<Rightarrow> bool" where
  "fec_alive st i \<longleftrightarrow> i \<in> fp_id ` set (received_fec st)"

definition lock_loss :: "rs_fec \<Rightarrow> loss_packet list \<Rightarrow> nat \<Rightarrow> loss_packet option" where
  "lock_loss st held i = find (\<lambda>l. lp_id l = i) (consider_loss st @ held)"

definition DeleteUnavailableLoss :: "rs_fec \<Rightarrow> loss_packet list \<Rightarrow> nat list \<Rightarrow> nat list" where
  "DeleteUnavailableLoss st held ids = filter (\<lambda>i. lock_loss st held i \<noteq> None) ids"

definition DeleteUnavailableFec :: "rs_fec \<Rightarrow> nat list \<Rightarrow> nat list" where
  "DeleteUnavailableFec st ids = filter (fec_alive st) ids"

text \<open>The first entry for the sequence number is erased from the parity packet's list.\<close>

fun erase_loss :: "rs_fec \<Rightarrow> loss_packet list \<Rightarrow> u16 \<Rightarrow> nat list \<Rightarrow> nat list" where
  "erase_loss st held sn [] = []"
| "erase_loss st held sn (i # is) =
     (case lock_loss st held i of
        Some l \<Rightarrow> if lp_seq l = sn then is else i # erase_loss st held sn is
      | None \<Rightarrow> i # erase_loss st held sn is)"

definition UpdateMaybeLossPackets :: "loss_packet list \<Rightarrow> recovered_packet \<Rightarrow> rs_fec \<Rightarrow> rs_fec" where
  "UpdateMaybeLossPackets held packet st =
     (let cs = consider_loss st;
          i = lower_bound (\<lambda>c. IsNewerSequenceNumber (rp_seq packet) (lp_seq c)) cs 0 (length cs)
      in if i < length cs \<and> lp_seq (cs ! i) = rp_seq packet then
           let refs = DeleteUnavailableFec st (lp_refs (cs ! i));
               received = map (\<lambda>f. if fp_id f \<in> set refs
                   then f\<lparr>fp_maybe_loss :=
                          erase_loss st held (rp_seq packet) (DeleteUnavailableLoss st held (fp_maybe_loss f))\<rparr>
                   else f) (received_fec st)
           in st\<lparr>received_fec := received, consider_loss := take i cs @ drop (Suc i) cs\<rparr>
         else st)"

definition DiscardOldRecoveredPackets :: "recovered_packet list \<Rightarrow> recovered_packet list" where
  "DiscardOldRecoveredPackets rs = drop (length rs - kMaxTrackedMediaPackets) rs"

definition InsertMediaPacket ::
  "received_packet \<Rightarrow> rs_fec \<Rightarrow> recovered_packet list \<Rightarrow> rs_fec \<times> recovered_packet list" where
  "InsertMediaPacket received st recovered =
     (if (\<exists>r \<in> set recovered. rp_seq r = rcv_seq received) then (st, recovered)
      else
        let packet = \<lparr>rp_ssrc = rcv_ssrc received, rp_seq = rcv_seq received, was_recovered = False,
                      returned = True, rp_pkt = rcv_pkt received\<rparr>
        in (UpdateMaybeLossPackets [] packet (UpdateCoveringFecPackets packet st),
            sort_by rp_less (recovered @ [packet])))"

text \<open>The packets a parity packet protects, from the bits of its mask.\<close>

definition protected_of_mask :: "u32 \<Rightarrow> protected_stream \<Rightarrow> protected_packet list" where
  "protected_of_mask ssrc s =
     map (\<lambda>idx. \<lparr>pp_ssrc = ssrc, pp_seq = seq_num_base s + of_nat idx, pp_pkt = None\<rparr>)
       (filter (\<lambda>idx. bit (pkt_mask s) idx) [0..<packet_mask_size s * 8])"

fun AssignRecoveredPackets ::
  "u16 \<Rightarrow> protected_packet list \<Rightarrow> recovered_packet list \<Rightarrow> u32 \<Rightarrow> protected_packet list \<times> u32" where
  "AssignRecoveredPackets baseSN [] rs arrive = ([], arrive)"
| "AssignRecoveredPackets baseSN ps [] arrive = (ps, arrive)"
| "AssignRecoveredPackets baseSN (p # ps) (r # rs) arrive =
     (if IsNewerSequenceNumber (rp_seq r) (pp_seq p) then
        case AssignRecoveredPackets baseSN ps (r # rs) arrive of (qs, a) \<Rightarrow> (p # qs, a)
      else if IsNewerSequenceNumber (pp_seq p) (rp_seq r) then
        AssignRecoveredPackets baseSN (p # ps) rs arrive
      else
        let seq_num_diff = unat (MinDiff baseSN (pp_seq p));
            arrive = (if seq_num_diff < 32 then set_bit seq_num_diff arrive else arrive)
        in case AssignRecoveredPackets baseSN ps rs arrive of
             (qs, a) \<Rightarrow> (p\<lparr>pp_pkt := Some (rp_pkt r)\<rparr> # qs, a))"

text \<open>
  The merge of the missing packets into the list of packets considered lost.  The iterator \<open>it_c\<close>
  splits that list into \<open>passed\<close> and \<open>rest\<close>; an iterator at the end stays there when packets are
  appended.
\<close>

fun assign_loss ::
  "nat \<Rightarrow> protected_packet list \<Rightarrow> loss_packet list \<Rightarrow> loss_packet list \<Rightarrow> nat \<Rightarrow> nat list
     \<Rightarrow> loss_packet list \<times> nat \<times> nat list" where
  "assign_loss fid [] passed rest nid maybe = (passed @ rest, nid, maybe)"
| "assign_loss fid (p # ps) passed rest nid maybe =
     (if pp_pkt p \<noteq> None then assign_loss fid ps passed rest nid maybe
      else
        let prior = (\<lambda>c. IsNewerSequenceNumber (pp_seq p) (lp_seq c));
            passed = passed @ takeWhile prior rest;
            rest = dropWhile prior rest;
            fresh = \<lparr>lp_id = nid, lp_ssrc = pp_ssrc p, lp_seq = pp_seq p, lp_refs = [fid]\<rparr>
        in case rest of
             [] \<Rightarrow> assign_loss fid ps (passed @ [fresh]) [] (Suc nid) (maybe @ [nid])
           | c # cs \<Rightarrow>
               if lp_seq c = pp_seq p
               then assign_loss fid ps passed (c\<lparr>lp_refs := lp_refs c @ [fid]\<rparr> # cs) nid (maybe @ [lp_id c])
               else assign_loss fid ps passed (rest @ [fresh]) (Suc nid) (maybe @ [nid]))"

definition AssignMaybeLossPackets :: "fec_packet \<Rightarrow> rs_fec \<Rightarrow> fec_packet \<times> rs_fec" where
  "AssignMaybeLossPackets fec st =
     (case assign_loss (fp_id fec) (fp_protected fec) [] (consider_loss st) (next_id st) (fp_maybe_loss fec) of
        (cs, nid, maybe) \<Rightarrow>
          let cs = sort_by lp_less cs;
              cs = drop (length cs - kMaxConsiderLossPackets) cs
          in (fec\<lparr>fp_maybe_loss := maybe\<rparr>, st\<lparr>consider_loss := cs, next_id := nid\<rparr>))"

definition InsertFecPacket ::
  "recovered_packet list \<Rightarrow> received_packet \<Rightarrow> rs_fec \<Rightarrow> rs_fec result" where
  "InsertFecPacket recovered received st =
     (if (\<exists>f \<in> set (received_fec st). fp_seq f = rcv_seq received) then Inr st
      else case ReadFecHeader (rcv_ssrc received) (rcv_pkt received) of
        Inl e \<Rightarrow> Inl e
      | Inr None \<Rightarrow> Inr st
      | Inr (Some (h, data)) \<Rightarrow>
          let s = fh_stream h;
              protected = protected_of_mask (protected_media_ssrc st) s
          in if ps_ssrc s \<noteq> protected_media_ssrc st then Inr st
             else if packet_mask_offset s + packet_mask_size s > length data then Inr st
             else if protected = [] then Inr st
             else
               case AssignRecoveredPackets (seq_num_base s) protected recovered (pkt_arrive s) of
                 (protected, arrive) \<Rightarrow>
                   let fec = \<lparr>fp_id = next_id st, fp_ssrc = rcv_ssrc received, fp_seq = rcv_seq received,
                              fp_protected = protected, fp_maybe_loss = [], fp_header_size = fh_size h,
                              fp_stream = s\<lparr>pkt_arrive := arrive\<rparr>,
                              fp_protection_length = fh_protection_length h, fp_pkt = data\<rparr>
                   in case AssignMaybeLossPackets fec (st\<lparr>next_id := Suc (next_id st)\<rparr>) of
                        (fec, st) \<Rightarrow>
                          let fecs = sort_by fp_less (received_fec st @ [fec]);
                              fecs = (if length fecs > kMaxFecPackets then tl fecs else fecs)
                          in Inr (st\<lparr>received_fec := fecs\<rparr>))"

definition InsertPacket ::
  "received_packet \<Rightarrow> rs_fec \<Rightarrow> recovered_packet list \<Rightarrow> (rs_fec \<times> recovered_packet list) result" where
  "InsertPacket received st recovered =
     (let fecs = received_fec st;
          fecs = (if fecs \<noteq> [] \<and> rcv_ssrc received = fp_ssrc (hd fecs)
                  then dropWhile (\<lambda>f. unat (MinDiff (rcv_seq received) (fp_seq f)) > kOldSequenceThreshold) fecs
                  else fecs);
          losses = consider_loss st;
          losses = (if losses \<noteq> [] \<and> rcv_ssrc received = lp_ssrc (hd losses)
                    then dropWhile (\<lambda>l. unat (MinDiff (rcv_seq received) (lp_seq l)) > kConsiderLossSeqThreadshold) losses
                    else losses);
          st = st\<lparr>received_fec := fecs, consider_loss := losses\<rparr>
      in if rcv_is_fec received then
           (case InsertFecPacket recovered received st of
              Inl e \<Rightarrow> Inl e
            | Inr st \<Rightarrow> Inr (st, DiscardOldRecoveredPackets recovered))
         else
           (case InsertMediaPacket received st recovered of
              (st, recovered) \<Rightarrow> Inr (st, DiscardOldRecoveredPackets recovered)))"

subsection \<open>Recovering a group\<close>

text \<open>
  The window: the smallest sequence number base of the group, and which numbers after it are
  protected and have arrived.  Bases too far apart make the recovery fail.
\<close>

fun group_window :: "fec_packet list \<Rightarrow> u16 \<Rightarrow> window \<Rightarrow> window \<Rightarrow> (u16 \<times> window \<times> window) option" where
  "group_window [] min_seq_num consider arrive = Some (min_seq_num, consider, arrive)"
| "group_window (f # fs) min_seq_num consider arrive =
     (let cur_seq_num = seq_num_base (fp_stream f);
          seq_num_diff = unat (MinDiff min_seq_num cur_seq_num);
          now_mask = ucast (pkt_mask (fp_stream f));
          now_arrive = ucast (pkt_arrive (fp_stream f))
      in if seq_num_diff > kConsiderDecodeMaxN - 32 then None
         else if seq_num_diff = 0 then
           group_window fs min_seq_num (consider OR now_mask) (arrive OR now_arrive)
         else if IsNewerSequenceNumber min_seq_num cur_seq_num then
           group_window fs cur_seq_num (push_bit seq_num_diff consider OR now_mask)
             (push_bit seq_num_diff arrive OR now_arrive)
         else if IsNewerSequenceNumber cur_seq_num min_seq_num then
           group_window fs min_seq_num (consider OR push_bit seq_num_diff now_mask)
             (arrive OR push_bit seq_num_diff now_arrive)
         else group_window fs min_seq_num consider arrive)"

definition bits :: "window \<Rightarrow> bool list" where
  "bits w = map (bit w) [0..<kConsiderDecodeMaxN]"

definition group_masks :: "u16 \<Rightarrow> fec_packet list \<Rightarrow> bool list list" where
  "group_masks min_seq_num fecs =
     map (\<lambda>f. bits (push_bit (unat (MinDiff min_seq_num (seq_num_base (fp_stream f))))
                (ucast (pkt_mask (fp_stream f))))) fecs"

definition seq_num_To_id :: "window \<Rightarrow> int list" where
  "seq_num_To_id consider =
     map (\<lambda>i. if bit consider i then int (length (filter (bit consider) [0..<i])) else -1)
       [0..<kConsiderDecodeMaxN]"

definition StartPacketRecovery :: "fec_packet list \<Rightarrow> byte list option" where
  "StartPacketRecovery fecs =
     (if (\<exists>f \<in> set fecs. length (fp_pkt f) < fp_header_size f + fp_protection_length f \<or>
            fp_protection_length f > min (IP_PACKET_SIZE - kRtpHeaderSize) (IP_PACKET_SIZE - fp_header_size f))
      then None
      else Some (replicate (foldr max (map fp_protection_length fecs) 0 + kRtpHeaderSize) 0))"

text \<open>The cell of the decoding table for one window position; it must exist.\<close>

definition table_cell :: "byte list \<Rightarrow> nat \<Rightarrow> nat \<Rightarrow> int list \<Rightarrow> nat \<Rightarrow> byte result" where
  "table_cell decoding_table table_i curN ids pos =
     (if pos \<ge> length ids then Inl OutOfBounds
      else let i = int (table_i * curN) + ids ! pos
           in if i < 0 \<or> i \<ge> int (length decoding_table) then Inl OutOfBounds
              else Inr (decoding_table ! nat i))"

fun add_protected ::
  "gf_op \<Rightarrow> byte list \<Rightarrow> nat \<Rightarrow> nat \<Rightarrow> int list \<Rightarrow> u16 \<Rightarrow> window \<Rightarrow> window \<Rightarrow> protected_packet list
     \<Rightarrow> window \<times> byte list \<Rightarrow> (window \<times> byte list) result" where
  "add_protected g table table_i curN ids min_seq_num consider arrive [] s = Inr s"
| "add_protected g table table_i curN ids min_seq_num consider arrive (p # ps) (if_done, dst) =
     (case pp_pkt p of
        None \<Rightarrow> add_protected g table table_i curN ids min_seq_num consider arrive ps (if_done, dst)
      | Some pkt \<Rightarrow>
          let pos = unat (MinDiff min_seq_num (pp_seq p))
          in if pos \<ge> kConsiderDecodeMaxN then Inl OutOfBounds
             else if bit consider pos \<and> bit arrive pos \<and> \<not> bit if_done pos then
               (case table_cell table table_i curN ids pos of
                  Inl e \<Rightarrow> Inl e
                | Inr v \<Rightarrow>
                    (case add_media g pkt kRtpHeaderSize dst v of
                       Inl e \<Rightarrow> Inl e
                     | Inr dst \<Rightarrow> add_protected g table table_i curN ids min_seq_num consider arrive ps
                                   (set_bit pos if_done, dst)))
             else add_protected g table table_i curN ids min_seq_num consider arrive ps (if_done, dst))"

fun add_group ::
  "gf_op \<Rightarrow> byte list \<Rightarrow> nat \<Rightarrow> nat \<Rightarrow> int list \<Rightarrow> u16 \<Rightarrow> window \<Rightarrow> window \<Rightarrow> fec_packet list \<Rightarrow> loss_packet list
     \<Rightarrow> window \<times> byte list \<Rightarrow> byte list result" where
  "add_group g table table_i curN ids min_seq_num consider arrive [] losses (if_done, dst) = Inr dst"
| "add_group g table table_i curN ids min_seq_num consider arrive (f # fs) losses s =
     (case add_protected g table table_i curN ids min_seq_num consider arrive (fp_protected f) s of
        Inl e \<Rightarrow> Inl e
      | Inr (if_done, dst) \<Rightarrow>
          (case losses of
             [] \<Rightarrow> Inl OutOfBounds
           | l # ls \<Rightarrow>
               (case table_cell table table_i curN ids (unat (MinDiff min_seq_num (lp_seq l))) of
                  Inl e \<Rightarrow> Inl e
                | Inr v \<Rightarrow>
                    (case add_parity g (fp_pkt f) (fp_header_size f) dst v of
                       Inl e \<Rightarrow> Inl e
                     | Inr dst \<Rightarrow> add_group g table table_i curN ids min_seq_num consider arrive fs ls
                                   (if_done, dst)))))"

definition FinishPacketRecovery :: "u16 \<Rightarrow> u32 \<Rightarrow> byte list \<Rightarrow> byte list option" where
  "FinishPacketRecovery sn ssrc data =
     (let new_size = unat (ReadBigEndian16 data 2) + kRtpHeaderSize
      in if new_size > IP_PACKET_SIZE - kRtpHeaderSize then None
         else
           let data = grow (take new_size data) new_size
           in Some (WriteBigEndian32 (WriteBigEndian16 data 2 sn) 8 ssrc))"

fun finish_all :: "(u16 \<times> u32 \<times> byte list) list \<Rightarrow> recovered_packet list option" where
  "finish_all [] = Some []"
| "finish_all ((sn, ssrc, data) # rest) =
     (case FinishPacketRecovery sn ssrc data of
        None \<Rightarrow> None
      | Some pkt \<Rightarrow>
          map_option (\<lambda>rs. \<lparr>rp_ssrc = ssrc, rp_seq = sn, was_recovered = True, returned = False, rp_pkt = pkt\<rparr> # rs)
            (finish_all rest))"

definition RecoverPacket ::
  "gf_op \<Rightarrow> gf_op \<Rightarrow> fec_packet list \<Rightarrow> loss_packet list \<Rightarrow> recovered_packet list option result" where
  "RecoverPacket g gd fecs losses =
     (case fecs of
        [] \<Rightarrow> Inr None
      | f # fs \<Rightarrow>
        (case group_window fs (seq_num_base (fp_stream f)) (ucast (pkt_mask (fp_stream f)))
                (ucast (pkt_arrive (fp_stream f))) of
           None \<Rightarrow> Inr None
         | Some (min_seq_num, consider, arrive) \<Rightarrow>
             let curK = length fecs;
                 ids = seq_num_To_id consider;
                 curN = length (filter (bit consider) [0..<kConsiderDecodeMaxN]);
                 baseNum_list = map (\<lambda>f. uint (cur_base_num (fp_stream f))) fecs
             in case GenerateDecodingMatrix g gd curN curK baseNum_list (bits consider) (bits arrive)
                       (group_masks min_seq_num fecs) of
                  None \<Rightarrow> Inr None
                | Some table \<Rightarrow>
                  (case StartPacketRecovery fecs of
                     None \<Rightarrow> Inr None
                   | Some dst \<Rightarrow>
                     (case map_result (\<lambda>i. if i \<ge> length losses then Inl OutOfBounds
                             else case add_group g table i curN ids min_seq_num consider arrive fecs losses (0, dst) of
                                    Inl e \<Rightarrow> Inl e
                                  | Inr d \<Rightarrow> Inr (lp_seq (losses ! i), lp_ssrc (losses ! i), d)) [0..<curK] of
                        Inl e \<Rightarrow> Inl e
                      | Inr recs \<Rightarrow> Inr (finish_all recs)))))"

subsection \<open>Searching for a decodable group\<close>

text \<open>
  The packets already selected must be lost for the next parity packet too; the result is what it
  adds to them.
\<close>

fun match_selected :: "loss_packet list \<Rightarrow> loss_packet list \<Rightarrow> loss_packet list option" where
  "match_selected [] ms = Some ms"
| "match_selected (s # ss) [] = None"
| "match_selected (s # ss) (c # cs) =
     (if lp_less s c then match_selected ss (c # cs)
      else if lp_seq s \<noteq> lp_seq c then None
      else match_selected ss cs)"

fun lock_all :: "rs_fec \<Rightarrow> nat list \<Rightarrow> loss_packet list result" where
  "lock_all st [] = Inr []"
| "lock_all st (i # is) =
     (case lock_loss st [] i of
        None \<Rightarrow> Inl NullPointer
      | Some l \<Rightarrow> (case lock_all st is of Inl e \<Rightarrow> Inl e | Inr ls \<Rightarrow> Inr (l # ls)))"

fun SearchFECPacket ::
  "rs_fec \<Rightarrow> fec_packet list \<Rightarrow> fec_packet list \<Rightarrow> loss_packet list \<Rightarrow> loss_packet list
     \<Rightarrow> (fec_packet list \<times> loss_packet list) option result" where
  "SearchFECPacket st [] sel_fec sel_loss CMLP =
     Inr (if CMLP = [] \<and> sel_fec \<noteq> [] \<and> length sel_fec = length sel_loss then Some (sel_fec, sel_loss) else None)"
| "SearchFECPacket st (f # fs) sel_fec sel_loss CMLP =
     (case lock_all st (fp_maybe_loss f) of
        Inl e \<Rightarrow> Inl e
      | Inr ms \<Rightarrow>
        (case match_selected sel_loss ms of
           None \<Rightarrow> Inr None
         | Some new \<Rightarrow>
             let sel_fec = sel_fec @ [f];
                 sel_loss = sel_loss @ new;
                 CMLP = CMLP @ new
             in if ms = [] then Inr None
                else if CMLP = [] then Inl BadIterator
                else case dropWhile (\<lambda>c. lp_less c (hd CMLP)) ms of
                  [] \<Rightarrow> Inr None
                | c # cs \<Rightarrow>
                    if lp_seq c \<noteq> lp_seq (hd CMLP) then Inr None
                    else if tl CMLP = [] then
                      Inr (if length sel_fec = length sel_loss then Some (sel_fec, sel_loss) else None)
                    else SearchFECPacket st fs sel_fec sel_loss (tl CMLP)))"

definition NumCoveredPacketsMissing :: "fec_packet \<Rightarrow> nat" where
  "NumCoveredPacketsMissing f = min 2 (length (filter (\<lambda>p. pp_pkt p = None) (fp_protected f)))"

definition IsOldFecPacket :: "fec_packet \<Rightarrow> recovered_packet list \<Rightarrow> bool" where
  "IsOldFecPacket f recovered =
     (if recovered = [] then False
      else unat (MinDiff (rp_seq (last recovered)) (pp_seq (last (fp_protected f)))) > kOldSequenceThreshold)"

text \<open>The first pass of \<^verbatim>\<open>AttemptRecovery\<close>: drop the parity packets that cannot help any more.\<close>

definition valid_fec :: "rs_fec \<Rightarrow> recovered_packet list \<Rightarrow> fec_packet \<Rightarrow> bool" where
  "valid_fec st recovered f \<longleftrightarrow>
     (\<forall>i \<in> set (fp_maybe_loss f). lock_loss st [] i \<noteq> None) \<and>
     NumCoveredPacketsMissing f \<noteq> 0 \<and> \<not> IsOldFecPacket f recovered"

definition sort_maybe_loss :: "rs_fec \<Rightarrow> fec_packet \<Rightarrow> fec_packet" where
  "sort_maybe_loss st f =
     f\<lparr>fp_maybe_loss := sort_by (\<lambda>i j. case (lock_loss st [] i, lock_loss st [] j) of
          (Some a, Some b) \<Rightarrow> lp_less a b | _ \<Rightarrow> False) (fp_maybe_loss f)\<rparr>"

definition ensure_valid :: "recovered_packet list \<Rightarrow> rs_fec \<Rightarrow> rs_fec" where
  "ensure_valid recovered st =
     (let st = st\<lparr>received_fec := map (sort_maybe_loss st) (filter (valid_fec st recovered) (received_fec st))\<rparr>;
          losses = map (\<lambda>l. l\<lparr>lp_refs := DeleteUnavailableFec st (lp_refs l)\<rparr>) (consider_loss st)
      in st\<lparr>consider_loss := filter (\<lambda>l. lp_refs l \<noteq> []) losses\<rparr>)"

fun search_groups ::
  "rs_fec \<Rightarrow> nat \<Rightarrow> (fec_packet list \<times> loss_packet list) option result" where
  "search_groups st 0 = Inr None"
| "search_groups st (Suc i) =
     (case SearchFECPacket st (drop i (received_fec st)) [] [] [] of
        Inl e \<Rightarrow> Inl e
      | Inr (Some g) \<Rightarrow> Inr (Some g)
      | Inr None \<Rightarrow> search_groups st i)"

text \<open>Erasing the used parity packets: both lists are walked in sequence order.\<close>

fun erase_fecs :: "fec_packet list \<Rightarrow> fec_packet list \<Rightarrow> fec_packet list" where
  "erase_fecs [] rs = rs"
| "erase_fecs (c # cs) rs =
     takeWhile (\<lambda>r. fp_less r c) rs @
     (case dropWhile (\<lambda>r. fp_less r c) rs of
        [] \<Rightarrow> []
      | r # rest \<Rightarrow> if fp_seq c = fp_seq r then erase_fecs cs rest else erase_fecs cs (r # rest))"

fun insert_recovered ::
  "loss_packet list \<Rightarrow> recovered_packet list \<Rightarrow> rs_fec \<Rightarrow> recovered_packet list \<Rightarrow> rs_fec \<times> recovered_packet list" where
  "insert_recovered held [] st recovered = (st, recovered)"
| "insert_recovered held (r # rs) st recovered =
     (let recovered = sort_by rp_less (recovered @ [r]);
          st = UpdateCoveringFecPackets r st;
          st = UpdateMaybeLossPackets held r st
      in insert_recovered held rs st (DiscardOldRecoveredPackets recovered))"

text \<open>
  The result value is the number of recovered packets.  When \<^verbatim>\<open>RecoverPacket\<close> fails, the clean-up
  loop reads through \<open>fec_packet_it\<close>, which the first pass has left at the end of the list.
\<close>

definition AttemptRecovery ::
  "gf_op \<Rightarrow> gf_op \<Rightarrow> rs_fec \<Rightarrow> recovered_packet list \<Rightarrow> (rs_fec \<times> recovered_packet list \<times> nat) result" where
  "AttemptRecovery g gd st recovered =
     (let st = ensure_valid recovered st
      in case search_groups st (length (received_fec st)) of
           Inl e \<Rightarrow> Inl e
         | Inr None \<Rightarrow> Inr (st, recovered, 0)
         | Inr (Some (sel_fec, sel_loss)) \<Rightarrow>
             (case RecoverPacket g gd sel_fec sel_loss of
                Inl e \<Rightarrow> Inl e
              | Inr None \<Rightarrow> Inl BadIterator
              | Inr (Some temp) \<Rightarrow>
                  (case insert_recovered sel_loss temp st recovered of
                     (st, recovered) \<Rightarrow>
                       Inr (st\<lparr>received_fec := erase_fecs (sort_by fp_less sel_fec) (received_fec st)\<rparr>,
                            recovered, length temp))))"

partial_function (option) recovery_loop ::
  "gf_op \<Rightarrow> gf_op \<Rightarrow> rs_fec \<Rightarrow> recovered_packet list \<Rightarrow> nat
     \<Rightarrow> (rs_fec \<times> recovered_packet list \<times> nat) result option" where
  "recovery_loop g gd st recovered num_recovered =
     (case AttemptRecovery g gd st recovered of
        Inl e \<Rightarrow> Some (Inl e)
      | Inr (st, recovered, ret) \<Rightarrow>
          if ret = 0 then Some (Inr (st, recovered, num_recovered))
          else recovery_loop g gd st recovered (num_recovered + ret))"

definition DecodeRSFec ::
  "gf_op \<Rightarrow> gf_op \<Rightarrow> received_packet \<Rightarrow> rs_fec \<Rightarrow> recovered_packet list
     \<Rightarrow> (rs_fec \<times> recovered_packet list \<times> nat) result option" where
  "DecodeRSFec g gd received st recovered =
     (let (st, recovered) =
            (if length recovered = kMaxTrackedMediaPackets \<and>
                rcv_ssrc received = rp_ssrc (last recovered) \<and>
                unat (MinDiff (rcv_seq received) (rp_seq (last recovered))) > kMaxTrackedMediaPackets
             then ResetState st else (st, recovered))
      in case InsertPacket received st recovered of
           Inl e \<Rightarrow> Some (Inl e)
         | Inr (st, recovered) \<Rightarrow> recovery_loop g gd st recovered 0)"

end
