(* ===== verification/RS_Recovery.thy ===== *)
theory RS_Recovery
  imports RS_Decoder
begin

text \<open>
  What \<^verbatim>\<open>RecoverPacket\<close> computes: from parity packets that carry the right combinations of the sent
  packets it restores the lost packets byte by byte.
\<close>

subsection \<open>Positions in the window\<close>

definition group_diff :: "u16 \<Rightarrow> fec_packet \<Rightarrow> nat" where
  "group_diff b0 f = offset b0 (seq_num_base (fp_stream f))"

definition protects :: "u16 \<Rightarrow> fec_packet \<Rightarrow> nat \<Rightarrow> bool" where
  "protects b0 f p \<longleftrightarrow> group_diff b0 f \<le> p \<and> bit (pkt_mask (fp_stream f)) (p - group_diff b0 f)"

definition has_arrived :: "u16 \<Rightarrow> fec_packet \<Rightarrow> nat \<Rightarrow> bool" where
  "has_arrived b0 f p \<longleftrightarrow> group_diff b0 f \<le> p \<and> bit (pkt_arrive (fp_stream f)) (p - group_diff b0 f)"

lemma MinDiff_base: "offset b0 a \<le> 0x8000 \<Longrightarrow> unat (MinDiff b0 a) = offset b0 a"
  using MinDiff_offset [of b0 b0 a] by (simp add: offset_def)

lemma offset_add: "r < 65536 \<Longrightarrow> offset b0 (b0 + of_nat r) = r"
  by (simp add: offset_def unsigned_of_nat take_bit_nat_eq_self)

lemma window_pos_eq:
  assumes "r < 128" "r' < 128"
  shows "b0 + of_nat r = (b0 + of_nat r' :: u16) \<longleftrightarrow> r' = r"
proof
  assume "b0 + of_nat r = (b0 + of_nat r' :: u16)"
  hence "offset b0 (b0 + of_nat r) = offset b0 (b0 + of_nat r')" by (rule arg_cong)
  thus "r' = r" using assms by (simp only: offset_add)
qed simp

lemma offset_sum: "b0 + of_nat (offset b0 a) = a"
  by (simp add: offset_def)

lemma bit_shift_window:
  "bit (push_bit d (ucast m :: window)) p \<longleftrightarrow> p < 128 \<and> d \<le> p \<and> bit (m :: u32) (p - d)"
  by (auto simp: bit_simps dest: bit_imp_le_length)

lemma group_window_bits:
  assumes "\<forall>f \<in> set fs. group_diff b0 f \<le> 96"
  shows "\<exists>c' a'. group_window fs b0 c a = Some (b0, c', a') \<and>
     (\<forall>p. bit c' p \<longleftrightarrow> bit c p \<or> p < 128 \<and> (\<exists>f \<in> set fs. protects b0 f p)) \<and>
     (\<forall>p. bit a' p \<longleftrightarrow> bit a p \<or> p < 128 \<and> (\<exists>f \<in> set fs. has_arrived b0 f p))"
  using assms
proof (induction fs arbitrary: c a)
  case (Cons f fs)
  let ?b = "seq_num_base (fp_stream f)"
  define m where "m = push_bit (group_diff b0 f) (ucast (pkt_mask (fp_stream f)) :: window)"
  define r where "r = push_bit (group_diff b0 f) (ucast (pkt_arrive (fp_stream f)) :: window)"
  have d: "group_diff b0 f \<le> 96" "unat (MinDiff b0 ?b) = group_diff b0 f"
    using Cons.prems MinDiff_base [of b0 ?b] by (auto simp: group_diff_def)
  have z: "offset b0 b0 = 0" by (simp add: offset_def)
  have new: "\<not> IsNewerSequenceNumber b0 ?b" "group_diff b0 f > 0 \<Longrightarrow> IsNewerSequenceNumber ?b b0"
    using IsNewer_window [of b0 b0 ?b] IsNewer_window [of b0 ?b b0] d(1) z
    by (auto simp: in_window_def group_diff_def)
  have "group_window (f # fs) b0 c a = group_window fs b0 (c OR m) (a OR r)"
    using d new by (cases "group_diff b0 f = 0") (simp_all add: m_def r_def Let_def)
  moreover have "bit m p \<longleftrightarrow> p < 128 \<and> protects b0 f p" "bit r p \<longleftrightarrow> p < 128 \<and> has_arrived b0 f p" for p
    by (simp_all add: m_def r_def bit_shift_window protects_def has_arrived_def)
  moreover obtain c' a' where "group_window fs b0 (c OR m) (a OR r) = Some (b0, c', a')"
     "\<forall>p. bit c' p \<longleftrightarrow> bit (c OR m) p \<or> p < 128 \<and> (\<exists>f \<in> set fs. protects b0 f p)"
     "\<forall>p. bit a' p \<longleftrightarrow> bit (a OR r) p \<or> p < 128 \<and> (\<exists>f \<in> set fs. has_arrived b0 f p)"
    using Cons.IH [of "c OR m" "a OR r"] Cons.prems by auto
  ultimately show ?case by (auto simp: bit_or_iff)
qed simp

lemma nth_bits: "p < 128 \<Longrightarrow> bits w ! p = bit w p"
  by (simp add: bits_def)

lemma length_bits [simp]: "length (bits w) = 128"
  by (simp add: bits_def)

lemma set_positions_bits: "set_positions (bits w) 0 = filter (bit w) [0..<128]"
  unfolding set_positions_def by (rule filter_cong) (auto simp: nth_bits)

lemma nth_group_masks:
  assumes "a < length fecs" "group_diff b0 (fecs ! a) \<le> 96" "p < 128"
  shows "group_masks b0 fecs ! a ! p = protects b0 (fecs ! a) p"
  using assms MinDiff_base [of b0 "seq_num_base (fp_stream (fecs ! a))"]
  by (simp add: group_masks_def nth_bits bit_shift_window protects_def group_diff_def)

text \<open>The index of a position among the selected ones.\<close>

definition rank :: "(nat \<Rightarrow> bool) \<Rightarrow> nat \<Rightarrow> nat" where
  "rank P p = length (filter P [0..<p])"

lemma nth_rank:
  assumes "P p" "p < n"
  shows "rank P p < length (filter P [0..<n])" "filter P [0..<n] ! rank P p = p"
proof -
  have "[0..<n] = [0..<p] @ p # [Suc p..<n]"
    using assms(2) by (metis le0 less_imp_le_nat upt_add_eq_append upt_conv_Cons le_add_diff_inverse)
  thus "rank P p < length (filter P [0..<n])" "filter P [0..<n] ! rank P p = p"
    using assms(1) by (simp_all add: rank_def nth_append)
qed

lemma rank_nth:
  assumes "j < length (filter P [0..<n])"
  shows "rank P (filter P [0..<n] ! j) = j" "P (filter P [0..<n] ! j)" "filter P [0..<n] ! j < n"
proof -
  let ?p = "filter P [0..<n] ! j"
  have "?p \<in> set (filter P [0..<n])" by (rule nth_mem [OF assms])
  thus p: "P ?p" "?p < n" by auto
  have "distinct (filter P [0..<n])" by simp
  thus "rank P ?p = j"
    using nth_rank [of P ?p n] p assms nth_eq_iff_index_eq [of "filter P [0..<n]" "rank P ?p" j] by simp
qed

lemma seq_num_To_id_nth: "p < 128 \<Longrightarrow> bit c p \<Longrightarrow> seq_num_To_id c ! p = int (rank (bit c) p)"
  by (simp add: seq_num_To_id_def rank_def)

lemma table_cell_Some:
  assumes "bit c p" "p < 128" "n = length (filter (bit c) [0..<128])" "length tab = k * n" "i < k"
  shows "table_cell tab i n (seq_num_To_id c) p = Inr (at2 n tab i (rank (bit c) p))"
proof -
  let ?j = "rank (bit c) p"
  have "?j < n" using nth_rank(1) [where P = "bit c", OF assms(1,2)] assms(3) by simp
  hence "i * n + ?j < length tab" using index2_less [OF assms(5), of ?j n] assms(4) by simp
  moreover have "nat (int i * int n + int ?j) = i * n + ?j" by (simp flip: of_nat_mult of_nat_add)
  ultimately show ?thesis
    using assms(2) seq_num_To_id_nth [OF assms(2,1)]
    by (simp add: table_cell_def Let_def at2_def seq_num_To_id_def flip: of_nat_mult of_nat_add)
qed

subsection \<open>Adding up one recovered packet\<close>

lemma xsum_set_bit:
  assumes "pos < n" "\<not> bit (D :: window) pos" "pos < 128"
  shows "xsum (\<lambda>r. if bit (set_bit pos D) r then F r else 0) n =
     xsum (\<lambda>r. if bit D r then F r else 0) n XOR F pos"
proof -
  have "xsum (\<lambda>r. if bit (set_bit pos D) r then F r else 0) n =
      xsum (\<lambda>r. (if bit D r then F r else 0) XOR (if r = pos then F r else 0)) n"
    using assms by (intro xsum_cong) (auto simp: bit_set_bit_iff)
  thus ?thesis using assms(1) by (simp add: xsum_xor xsum_delta)
qed

text \<open>What has been added: the marked media packets, on top of \<open>base\<close>.\<close>

definition added :: "gf_op \<Rightarrow> (u16 \<Rightarrow> byte list) \<Rightarrow> u16 \<Rightarrow> (nat \<Rightarrow> byte) \<Rightarrow> (nat \<Rightarrow> byte) \<Rightarrow> window \<Rightarrow> byte list \<Rightarrow> bool" where
  "added g M b0 cell base D d \<longleftrightarrow> 12 \<le> length d \<and>
     (\<forall>q. code 12 d q = base q XOR
        xsum (\<lambda>r. if bit D r then gf8 g (rtp_code (M (b0 + of_nat r)) q) (cell r) else 0) 128)"

definition good_protected :: "(u16 \<Rightarrow> byte list) \<Rightarrow> u16 \<Rightarrow> window \<Rightarrow> window \<Rightarrow> protected_packet \<Rightarrow> bool" where
  "good_protected M b0 consider arrive p \<longleftrightarrow> (\<forall>pkt. pp_pkt p = Some pkt \<longrightarrow>
     (\<exists>r < 128. pp_seq p = b0 + of_nat r \<and> pkt = M (pp_seq p) \<and> 12 \<le> length pkt \<and>
        bit consider r \<and> bit arrive r))"

context galois_ring
begin

lemma add_protected_code:
  assumes "\<forall>p \<in> set ps. good_protected M b0 consider arrive p"
    and cell: "\<And>r. r < 128 \<Longrightarrow> bit consider r \<Longrightarrow> table_cell tab i n (seq_num_To_id consider) r = Inr (cell r)"
    and "added gmul M b0 cell base D d"
  shows "\<exists>D' d'. add_protected gmul tab i n (seq_num_To_id consider) b0 consider arrive ps (D, d) = Inr (D', d') \<and>
     added gmul M b0 cell base D' d' \<and>
     (\<forall>r. bit D' r \<longleftrightarrow> bit D r \<or> r < 128 \<and> (\<exists>p \<in> set ps. pp_pkt p \<noteq> None \<and> pp_seq p = b0 + of_nat r))"
  using assms(1,3)
proof (induction ps arbitrary: D d)
  case (Cons p ps)
  have ps: "\<forall>p \<in> set ps. good_protected M b0 consider arrive p" using Cons.prems(1) by simp
  show ?case
  proof (cases "pp_pkt p")
    case None
    thus ?thesis using Cons.IH [OF ps Cons.prems(2)] by simp
  next
    case (Some pkt)
    then obtain r where r: "r < 128" "pp_seq p = b0 + of_nat r" "pkt = M (pp_seq p)" "12 \<le> length pkt"
      "bit consider r" "bit arrive r"
      using Cons.prems(1) by (auto simp: good_protected_def)
    have pos: "unat (MinDiff b0 (pp_seq p)) = r"
      using MinDiff_base [of b0 "pp_seq p"] offset_add [of r b0] r(1,2) by simp
    have same: "pp_seq p = b0 + of_nat r' \<longleftrightarrow> r' = r" if "r' < 128" for r'
      unfolding r(2) by (rule window_pos_eq [OF r(1) that])
    have marks: "r' < 128 \<and> (\<exists>p \<in> set (p # ps). pp_pkt p \<noteq> None \<and> pp_seq p = b0 + of_nat r') \<longleftrightarrow>
        r' = r \<or> r' < 128 \<and> (\<exists>p \<in> set ps. pp_pkt p \<noteq> None \<and> pp_seq p = b0 + of_nat r')" for r'
      using same [of r'] r(1) Some by auto
    let ?add = "add_protected gmul tab i n (seq_num_To_id consider) b0 consider arrive"
    show ?thesis
    proof (cases "bit D r")
      case True
      have "?add (p # ps) (D, d) = ?add ps (D, d)" using pos r(1) Some True by (simp add: Let_def)
      thus ?thesis using Cons.IH [OF ps Cons.prems(2)] True unfolding marks by auto
    next
      case False
      have len: "12 \<le> length d" using Cons.prems(2) by (simp add: added_def)
      from add_media_code [OF r(4) _ len, of "cell r"] obtain d' where
        d': "add_media gmul pkt 12 d (cell r) = Inr d'" "length d' = max (length d) (12 + (length pkt - 12))"
          "\<And>q. code 12 d' q = code 12 d q XOR gf8 gmul (rtp_code pkt q) (cell r)" by auto
      have "added gmul M b0 cell base (set_bit r D) d'"
        using Cons.prems(2) d'(2,3) r(1-3) False by (auto simp: added_def xsum_set_bit xor.assoc)
      moreover have "?add (p # ps) (D, d) = ?add ps (set_bit r D, d')"
        using pos r(1,5,6) Some False cell [OF r(1,5)] d'(1) by (simp add: Let_def)
      moreover have "bit (set_bit r D) r' \<longleftrightarrow> bit D r' \<or> r' = r" for r'
        using r(1) by (auto simp: bit_set_bit_iff)
      ultimately show ?thesis using Cons.IH [OF ps] unfolding marks by fastforce
    qed
  qed
qed simp

lemma add_group_code:
  assumes "\<forall>f \<in> set fs. fp_header_size f = 18 \<and> 18 \<le> length (fp_pkt f) \<and>
      (\<forall>p \<in> set (fp_protected f). good_protected M b0 consider arrive p)"
    and cell: "\<And>r. r < 128 \<Longrightarrow> bit consider r \<Longrightarrow> table_cell tab i n (seq_num_To_id consider) r = Inr (cell r)"
    and "map lp_seq losses = map (\<lambda>r. b0 + of_nat r) P" "\<forall>r \<in> set P. r < 128 \<and> bit consider r"
    and "length fs \<le> length P" "added gmul M b0 cell base D d"
  shows "\<exists>D' d'. add_group gmul tab i n (seq_num_To_id consider) b0 consider arrive fs losses (D, d) = Inr d' \<and>
     added gmul M b0 cell (\<lambda>q. base q XOR
       xsum (\<lambda>a. gf8 gmul (code 18 (fp_pkt (fs ! a)) q) (cell (P ! a))) (length fs)) D' d' \<and>
     (\<forall>r. bit D' r \<longleftrightarrow> bit D r \<or> r < 128 \<and>
        (\<exists>f \<in> set fs. \<exists>p \<in> set (fp_protected f). pp_pkt p \<noteq> None \<and> pp_seq p = b0 + of_nat r))"
  using assms(1,3-6)
proof (induction fs arbitrary: losses P base D d)
  case (Cons f fs)
  let ?ids = "seq_num_To_id consider"
  obtain r P' where P: "P = r # P'" using Cons.prems(4) by (cases P) auto
  then obtain l ls where L: "losses = l # ls" "lp_seq l = b0 + of_nat r" "map lp_seq ls = map (\<lambda>r. b0 + of_nat r) P'"
    using Cons.prems(2) by (cases losses) auto
  have r: "r < 128" "bit consider r" using Cons.prems(3) P by auto
  have f: "fp_header_size f = 18" "18 \<le> length (fp_pkt f)"
    "\<forall>p \<in> set (fp_protected f). good_protected M b0 consider arrive p" using Cons.prems(1) by auto
  from add_protected_code [OF f(3) cell Cons.prems(5)] obtain D1 d1 where
    d1: "add_protected gmul tab i n ?ids b0 consider arrive (fp_protected f) (D, d) = Inr (D1, d1)"
      "added gmul M b0 cell base D1 d1"
      "\<And>q. bit D1 q \<longleftrightarrow> bit D q \<or> q < 128 \<and> (\<exists>p \<in> set (fp_protected f). pp_pkt p \<noteq> None \<and> pp_seq p = b0 + of_nat q)"
    by blast
  have "12 \<le> length d1" using d1(2) by (simp add: added_def)
  from add_parity_code [OF f(2) _ this, of "cell r"] obtain d2 where
    d2: "add_parity gmul (fp_pkt f) 18 d1 (cell r) = Inr d2" "length d2 = max (length d1) (12 + (length (fp_pkt f) - 18))"
      "\<And>q. code 12 d2 q = code 12 d1 q XOR gf8 gmul (code 18 (fp_pkt f) q) (cell r)" by auto
  let ?base = "\<lambda>q. base q XOR gf8 gmul (code 18 (fp_pkt f) q) (cell r)"
  have "added gmul M b0 cell ?base D1 d2"
    using d1(2) d2(2,3) by (auto simp: added_def xor.assoc xor.commute xor.left_commute)
  from Cons.IH [OF _ L(3) _ _ this] Cons.prems P obtain D' d' where
    d': "add_group gmul tab i n ?ids b0 consider arrive fs ls (D1, d2) = Inr d'"
      "added gmul M b0 cell (\<lambda>q. ?base q XOR
         xsum (\<lambda>a. gf8 gmul (code 18 (fp_pkt (fs ! a)) q) (cell (P' ! a))) (length fs)) D' d'"
      "\<And>q. bit D' q \<longleftrightarrow> bit D1 q \<or> q < 128 \<and>
        (\<exists>f \<in> set fs. \<exists>p \<in> set (fp_protected f). pp_pkt p \<noteq> None \<and> pp_seq p = b0 + of_nat q)"
    by auto
  have "unat (MinDiff b0 (lp_seq l)) = r"
    using MinDiff_base [of b0 "lp_seq l"] offset_add [of r b0] r(1) L(2) by simp
  hence "add_group gmul tab i n ?ids b0 consider arrive (f # fs) losses (D, d) = Inr d'"
    using L(1) d1(1) cell [OF r] d2(1) d'(1) f(1) by simp
  moreover have "(\<lambda>q. base q XOR
      xsum (\<lambda>a. gf8 gmul (code 18 (fp_pkt ((f # fs) ! a)) q) (cell (P ! a))) (length (f # fs))) =
      (\<lambda>q. ?base q XOR xsum (\<lambda>a. gf8 gmul (code 18 (fp_pkt (fs ! a)) q) (cell (P' ! a))) (length fs))"
    unfolding list.size add_Suc_right add_0_right xsum_Suc_shift P by (simp add: xor.assoc)
  moreover have "\<forall>q. bit D' q \<longleftrightarrow> bit D q \<or> q < 128 \<and>
      (\<exists>f \<in> set (f # fs). \<exists>p \<in> set (fp_protected f). pp_pkt p \<noteq> None \<and> pp_seq p = b0 + of_nat q)"
    unfolding d'(3) d1(3) list.set by blast
  ultimately show ?case using d'(2) by (intro exI [of _ D'] exI [of _ d'] conjI) (simp_all only: simp_thms)
qed auto

end

subsection \<open>Finishing a packet\<close>

text \<open>The code word of a packet, its sequence number and its source determine the packet.\<close>

lemma Finish_original:
  assumes len: "12 \<le> length d" "12 \<le> length p" "length p - 12 < 65536"
    and code: "\<And>q. code 12 d q = rtp_code p q"
  shows "FinishPacketRecovery (ParseSequenceNumber p) (ParseSsrc p) d = (if length p > 1488 then None else Some p)"
proof -
  have h: "d ! i = rtp_header p ! i" if "i < 8" for i
    using code [of i] that by (simp add: code_def rtp_code_def)
  have ph: "rtp_header p ! i = p ! i" if "i < 2 \<or> 4 \<le> i \<and> i < 8" for i
  proof -
    have "i = 0 \<or> i = 1 \<or> i = 4 \<or> i = 5 \<or> i = 6 \<or> i = 7" using that by linarith
    thus ?thesis by (auto simp: rtp_header_def Let_def)
  qed
  have sz: "unat (ReadBigEndian16 d 2) = length p - 12" by (rule Read_rtp_header [OF len(2,3)]) (simp_all add: h)
  define e where "e = grow (take (length p) d) (length p)"
  have le: "length e = length p" by (simp add: e_def)
  have e: "e ! i = (if i < length d then d ! i else 0)" if "i < length p" for i
    using that le by (simp add: e_def nth_grow)
  define u where "u = WriteBigEndian16 e 2 (ReadBigEndian16 p 2)"
  have lu: "length u = length p" by (simp add: u_def le)
  have "WriteBigEndian32 u 8 (ReadBigEndian32 p 8) ! i = p ! i" if i: "i < length p" for i
  proof -
    consider "i < 2 \<or> 4 \<le> i \<and> i < 8" | "i = 2" | "i = 3" | k where "i = 8 + k" "k < 4" | k where "i = 12 + k"
      using le_Suc_ex [of 8 i] le_Suc_ex [of 12 i] by fastforce
    thus ?thesis
    proof cases
      case 1
      thus ?thesis using len(1) i le lu e [OF i] h [of i] ph [of i] unfolding u_def by (auto simp: fec_buf)
    next
      case 2
      thus ?thesis using len lu le nth_Write_Read16(1) [of 2 e p 2] by (simp add: fec_buf u_def [symmetric])
    next
      case 3
      thus ?thesis using len lu le nth_Write_Read16(2) [of 2 e p 2] by (simp add: fec_buf u_def [symmetric])
    next
      case 4
      thus ?thesis using nth_Write_Read32 [of 8 u k p 8] len lu by simp
    next
      case 5
      have "e ! i = p ! i" using code [of "8 + k"] 5 i e [OF i] by (auto simp: code_def rtp_code_def diff_add_inverse)
      thus ?thesis using 5 i le lu unfolding u_def by (simp add: fec_buf)
    qed
  qed
  hence "WriteBigEndian32 u 8 (ReadBigEndian32 p 8) = p" by (intro nth_equalityI) (simp_all add: lu)
  moreover have "length p - 12 + 12 = length p" using len(2) by simp
  ultimately show ?thesis
    by (simp add: FinishPacketRecovery_def sz Let_def Parse_Read16 Parse_Read32 u_def e_def)
qed
subsection \<open>Groups of parity packets\<close>

definition base_byte :: "fec_packet \<Rightarrow> byte" where
  "base_byte f = ucast (cur_base_num (fp_stream f))"

text \<open>The packet that was sent with a sequence number.\<close>

definition sent :: "(u16 \<Rightarrow> byte list) \<Rightarrow> u16 \<Rightarrow> bool" where
  "sent M s \<longleftrightarrow> 12 \<le> length (M s) \<and> length (M s) - 12 < 65536 \<and> ParseSequenceNumber (M s) = s"

text \<open>
  A buffered parity packet that carries a combination of sent packets, and whose list of protected
  packets holds those that have arrived.
\<close>

definition carries :: "gf_op \<Rightarrow> (u16 \<Rightarrow> byte list) \<Rightarrow> fec_packet \<Rightarrow> bool" where
  "carries g M f \<longleftrightarrow>
     (let s = fp_stream f; base = seq_num_base s in
      cur_base_num s = ucast (base_byte f) \<and> bit (pkt_mask s) 0 \<and>
      fp_header_size f = 18 \<and> 18 \<le> length (fp_pkt f) \<and>
      (\<forall>q. code 18 (fp_pkt f) q = xsum (\<lambda>i. if bit (pkt_mask s) i
         then gf8 g (rtp_code (M (base + of_nat i)) q) (gf_pow g (base_byte f) i) else 0) 32) \<and>
      (\<forall>i. bit (pkt_mask s) i \<longrightarrow> sent M (base + of_nat i)) \<and>
      (\<forall>p \<in> set (fp_protected f). \<exists>i. bit (pkt_mask s) i \<and> pp_seq p = base + of_nat i \<and>
         pp_pkt p = (if bit (pkt_arrive s) i then Some (M (pp_seq p)) else None)) \<and>
      (\<forall>i. bit (pkt_arrive s) i \<longrightarrow> bit (pkt_mask s) i \<and> (\<exists>p \<in> set (fp_protected f). pp_seq p = base + of_nat i)))"

definition group_ok :: "gf_op \<Rightarrow> (u16 \<Rightarrow> byte list) \<Rightarrow> u16 \<Rightarrow> fec_packet list \<Rightarrow> window \<Rightarrow> window \<Rightarrow> bool" where
  "group_ok g M b0 fecs c a \<longleftrightarrow>
     (\<forall>f \<in> set fecs. carries g M f \<and> group_diff b0 f \<le> 96) \<and>
     (\<forall>p. bit c p \<longleftrightarrow> p < 128 \<and> (\<exists>f \<in> set fecs. protects b0 f p)) \<and>
     (\<forall>p. bit a p \<longleftrightarrow> p < 128 \<and> (\<exists>f \<in> set fecs. has_arrived b0 f p))"

lemma group_window_ok:
  assumes "\<forall>f \<in> set (f0 # fs). carries g M f \<and> group_diff b0 f \<le> 96" "b0 = seq_num_base (fp_stream f0)"
  shows "\<exists>c a. group_window fs b0 (ucast (pkt_mask (fp_stream f0))) (ucast (pkt_arrive (fp_stream f0))) = Some (b0, c, a) \<and>
     group_ok g M b0 (f0 # fs) c a"
proof -
  have d: "group_diff b0 f0 = 0" by (simp add: group_diff_def offset_def assms(2))
  define c0 :: window where "c0 = ucast (pkt_mask (fp_stream f0))"
  define a0 :: window where "a0 = ucast (pkt_arrive (fp_stream f0))"
  have b: "bit c0 p \<longleftrightarrow> p < 128 \<and> protects b0 f0 p" "bit a0 p \<longleftrightarrow> p < 128 \<and> has_arrived b0 f0 p" for p
    by (auto simp: protects_def has_arrived_def d bit_simps c0_def a0_def)
  have "\<forall>f \<in> set fs. group_diff b0 f \<le> 96" using assms(1) by simp
  then obtain c a where ca: "group_window fs b0 c0 a0 = Some (b0, c, a)"
     "\<And>p. bit c p \<longleftrightarrow> bit c0 p \<or> p < 128 \<and> (\<exists>f \<in> set fs. protects b0 f p)"
     "\<And>p. bit a p \<longleftrightarrow> bit a0 p \<or> p < 128 \<and> (\<exists>f \<in> set fs. has_arrived b0 f p)"
    using group_window_bits [of fs b0 c0 a0] by blast
  have "group_ok g M b0 (f0 # fs) c a" unfolding group_ok_def ca(2,3) b list.set using assms(1) by auto
  thus ?thesis using ca(1) unfolding c0_def a0_def by blast
qed

lemma protects_base: "group_diff b0 f \<le> 96 \<Longrightarrow> b0 + of_nat (group_diff b0 f + i) = seq_num_base (fp_stream f) + of_nat i"
  by (simp add: group_diff_def offset_def)

lemma hd_filter_eq:
  assumes "sorted_wrt (<) (ps :: nat list)" "d \<in> set ps" "P d" "\<And>p. P p \<Longrightarrow> d \<le> p"
  shows "hd (filter P ps) = d"
proof -
  have "filter P ps \<noteq> []" using assms(2,3) by (auto simp: filter_empty_conv)
  hence "P (hd (filter P ps))" using hd_in_set [of "filter P ps"] by auto
  thus ?thesis using hd_filter_least [of ps d P] assms by (simp add: order_antisym)
qed

text \<open>The positions of the window, and those of them that are lost.\<close>

definition positions :: "window \<Rightarrow> nat list" where
  "positions c = filter (bit c) [0..<128]"

definition lost_index :: "window \<Rightarrow> window \<Rightarrow> nat list" where
  "lost_index c a = window_lost (length (positions c)) (bits c) (bits a)"

lemma set_positions_eq: "set_positions (bits c) 0 = positions c"
  by (simp add: set_positions_bits positions_def)

lemma positions_props: "distinct (positions c)" "sorted_wrt (<) (positions c)"
  "p \<in> set (positions c) \<longleftrightarrow> p < 128 \<and> bit c p" "j < length (positions c) \<Longrightarrow> positions c ! j < 128"
  "j < length (positions c) \<Longrightarrow> bit c (positions c ! j)"
  "j < length (positions c) \<Longrightarrow> rank (bit c) (positions c ! j) = j"
  using rank_nth [of j "bit c" 128] by (auto simp: positions_def sorted_wrt_filter)

lemma lost_index_eq: "lost_index c a = filter (\<lambda>i. \<not> bit a (positions c ! i)) [0..<length (positions c)]"
  unfolding lost_index_def window_lost_def lost_rows_def set_positions_eq
  by (rule filter_cong) (auto simp: nth_bits positions_props)

lemma map_nth_filter: "map (\<lambda>i. xs ! i) (filter (\<lambda>i. Q (xs ! i)) [0..<length xs]) = filter Q xs"
  using filter_map [of Q "\<lambda>i. xs ! i" "[0..<length xs]"] by (simp add: map_nth comp_def)

lemma lost_positions: "map (\<lambda>i. positions c ! i) (lost_index c a) = filter (\<lambda>p. bit c p \<and> \<not> bit a p) [0..<128]"
proof -
  have "map (\<lambda>i. positions c ! i) (lost_index c a) = filter (\<lambda>p. \<not> bit a p) (positions c)"
    unfolding lost_index_eq by (rule map_nth_filter)
  thus ?thesis unfolding positions_def by (simp add: conj_commute)
qed

definition group_coef :: "gf_op \<Rightarrow> u16 \<Rightarrow> fec_packet list \<Rightarrow> window \<Rightarrow> nat \<Rightarrow> nat \<Rightarrow> byte" where
  "group_coef g b0 fecs c = window_coef g (map base_byte fecs) (group_masks b0 fecs) (bits c)"

lemma carriesD:
  assumes "carries g M f"
  shows "cur_base_num (fp_stream f) = ucast (base_byte f)" "bit (pkt_mask (fp_stream f)) 0"
    "fp_header_size f = 18" "18 \<le> length (fp_pkt f)"
    "code 18 (fp_pkt f) q = xsum (\<lambda>i. if bit (pkt_mask (fp_stream f)) i
       then gf8 g (rtp_code (M (seq_num_base (fp_stream f) + of_nat i)) q) (gf_pow g (base_byte f) i) else 0) 32"
    "bit (pkt_mask (fp_stream f)) i \<Longrightarrow> sent M (seq_num_base (fp_stream f) + of_nat i)"
    "p \<in> set (fp_protected f) \<Longrightarrow> \<exists>i. bit (pkt_mask (fp_stream f)) i \<and> pp_seq p = seq_num_base (fp_stream f) + of_nat i \<and>
         pp_pkt p = (if bit (pkt_arrive (fp_stream f)) i then Some (M (pp_seq p)) else None)"
    "bit (pkt_arrive (fp_stream f)) i \<Longrightarrow> bit (pkt_mask (fp_stream f)) i \<and>
       (\<exists>p \<in> set (fp_protected f). pp_seq p = seq_num_base (fp_stream f) + of_nat i)"
  using assms unfolding carries_def Let_def by blast+

text \<open>What the receiver has for each position: the arrived packet, or a parity packet.\<close>

definition received :: "window \<Rightarrow> window \<Rightarrow> (nat \<Rightarrow> byte) \<Rightarrow> (nat \<Rightarrow> byte) \<Rightarrow> nat \<Rightarrow> byte" where
  "received c a X z j = (if bit a (positions c ! j) then X (positions c ! j)
     else z (rank (\<lambda>i. \<not> bit a (positions c ! i)) j))"

lemma received_lost: "k < length (lost_index c a) \<Longrightarrow> received c a X z (lost_index c a ! k) = z k"
  using rank_nth [of k "\<lambda>i. \<not> bit a (positions c ! i)" "length (positions c)"]
  by (simp add: received_def lost_index_eq)

lemma lost_index_props: "distinct (lost_index c a)"
  "j \<in> set (lost_index c a) \<longleftrightarrow> j < length (positions c) \<and> \<not> bit a (positions c ! j)"
  by (auto simp: lost_index_eq)

context galois_ring
begin

text \<open>In the window, a parity packet is the sum over the selected positions.\<close>

lemma parity_window_sum:
  assumes ok: "group_ok gmul M b0 fecs c a" and i: "i < length fecs"
  shows "code 18 (fp_pkt (fecs ! i)) q = xsum (\<lambda>j. gf8 gmul (group_coef gmul b0 fecs c i j)
     (rtp_code (M (b0 + of_nat (positions c ! j))) q)) (length (positions c))"
proof -
  let ?f = "fecs ! i"
  let ?d = "group_diff b0 ?f" and ?m = "pkt_mask (fp_stream ?f)" and ?b = "base_byte ?f"
  have f: "carries gmul M ?f" and d: "?d \<le> 96" using ok i by (auto simp: group_ok_def)
  have cbit: "bit c p" if "protects b0 ?f p" "p < 128" for p
    using ok i that nth_mem [OF i] by (auto simp: group_ok_def)
  define G where "G p = (if protects b0 ?f p
     then gf8 gmul (rtp_code (M (b0 + of_nat p)) q) (gf_pow gmul ?b (p - ?d)) else 0)" for p
  have "code 18 (fp_pkt ?f) q = xsum (\<lambda>k. G (?d + k)) 32"
    unfolding carriesD(5) [OF f] by (intro xsum_cong) (simp add: G_def protects_def protects_base [OF d] del: of_nat_add)
  also have "\<dots> = xsum (\<lambda>k. G ([?d..<?d + 32] ! k)) (length [?d..<?d + 32])"
    unfolding length_upt diff_add_inverse by (intro xsum_cong) simp
  also have "\<dots> = xsum G 128"
    by (rule xsum_support [symmetric]) (use d in \<open>auto simp: G_def protects_def dest!: bit_imp_le_length\<close>)
  also have "\<dots> = xsum (\<lambda>j. G (positions c ! j)) (length (positions c))"
    by (rule xsum_support) (use cbit in \<open>auto simp: G_def positions_props\<close>)
  also have "\<dots> = xsum (\<lambda>j. gf8 gmul (group_coef gmul b0 fecs c i j)
     (rtp_code (M (b0 + of_nat (positions c ! j))) q)) (length (positions c))"
  proof (rule xsum_cong)
    fix j assume j: "j < length (positions c)"
    have k: "group_masks b0 fecs ! i ! p = protects b0 ?f p" if "p < 128" for p
      by (rule nth_group_masks [OF i d that])
    have "filter (\<lambda>p. group_masks b0 fecs ! i ! p) (positions c) = filter (protects b0 ?f) (positions c)"
      by (rule filter_cong) (auto simp: positions_props k)
    moreover have "hd (filter (protects b0 ?f) (positions c)) = ?d"
    proof (rule hd_filter_eq [OF positions_props(2)])
      show pd: "protects b0 ?f ?d" using carriesD(2) [OF f] by (simp add: protects_def)
      show "?d \<in> set (positions c)" using cbit [OF pd] d by (simp add: positions_props)
    qed (simp add: protects_def)
    ultimately show "G (positions c ! j) = gf8 gmul (group_coef gmul b0 fecs c i j)
        (rtp_code (M (b0 + of_nat (positions c ! j))) q)"
      using i k positions_props(4) [OF j]
      by (simp add: G_def group_coef_def window_coef_def skip_coef_def set_positions_eq mul_commute mul_zero_left)
  qed
  finally show ?thesis .
qed

lemma recovered_sum:
  assumes sub: "\<And>r. bit a r \<Longrightarrow> bit c r \<and> r < 128"
  shows "xsum (\<lambda>k. gf8 gmul (z k) (v (rank (bit c) (positions c ! (lost_index c a ! k))))) (length (lost_index c a)) XOR
      xsum (\<lambda>r. if bit a r then gf8 gmul (X r) (v (rank (bit c) r)) else 0) 128 =
    xsum (\<lambda>j. gf8 gmul (v j) (received c a X z j)) (length (positions c))"
proof -
  let ?ps = "positions c" and ?W = "lost_index c a" and ?y = "received c a X z"
  let ?n = "length ?ps"
  let ?lost = "\<lambda>j. if bit a (?ps ! j) then 0 else gf8 gmul (v j) (?y j)"
  let ?known = "\<lambda>j. if bit a (?ps ! j) then gf8 gmul (v j) (?y j) else 0"
  have W: "?W ! k < ?n" "\<not> bit a (?ps ! (?W ! k))" if "k < length ?W" for k
    using nth_mem [OF that] unfolding lost_index_props by auto
  have "xsum (\<lambda>k. gf8 gmul (z k) (v (rank (bit c) (?ps ! (?W ! k))))) (length ?W) =
      xsum (\<lambda>k. ?lost (?W ! k)) (length ?W)"
    by (intro xsum_cong) (simp add: W positions_props received_lost mul_commute)
  also have "\<dots> = xsum ?lost ?n"
    by (rule xsum_support [symmetric]) (use lost_index_props in \<open>auto simp: lost_index_props\<close>)
  finally have l: "xsum (\<lambda>k. gf8 gmul (z k) (v (rank (bit c) (?ps ! (?W ! k))))) (length ?W) = xsum ?lost ?n" .
  define H where "H r = (if bit a r then gf8 gmul (X r) (v (rank (bit c) r)) else 0)" for r
  have "xsum H 128 = xsum (\<lambda>j. H (?ps ! j)) ?n"
    by (rule xsum_support) (use sub in \<open>auto simp: positions_props H_def\<close>)
  also have "\<dots> = xsum ?known ?n"
    by (intro xsum_cong) (simp add: H_def positions_props received_def mul_commute)
  finally have k: "xsum H 128 = xsum ?known ?n" .
  have "xsum ?lost ?n XOR xsum ?known ?n = xsum (\<lambda>j. gf8 gmul (v j) (?y j)) ?n"
    unfolding xsum_xor [symmetric] by (intro xsum_cong) simp
  thus ?thesis unfolding l k [unfolded H_def] .
qed

end

end
