(* ===== verification/RS_Properties.thy ===== *)
theory RS_Properties
  imports RS_Encoder
begin

text \<open>
  What the matrices of \<^verbatim>\<open>reed_sol_matrix.cc\<close>, the FEC header and the encoder guarantee, stated for any
  arithmetic that satisfies the laws of the locale \<open>galois_field\<close> or \<open>galois_primitive\<close> and
  evaluated on the field with 256 elements.
\<close>



text \<open>
  C10: Maximum distance separable: parity packets with one mask and consecutive base numbers (powers
  of 2, as the encoder draws them) always give a decoding matrix when there are at least as many of
  them as lost packets; no pivot is ever zero.
\<close>

theorem skipped_decoding_mds:
  assumes "galois_primitive g gd"
    and "k \<le> length bs" "length m \<le> 255" "n \<le> length (set_positions m 0)"
    and "length (window_lost n m arrive) \<le> k"
    and "\<forall>a < k. bs ! a = gf_pow g 2 (c + a) \<and> k_mask ! a = pm"
    and "\<forall>i \<in> set (window_lost n m arrive). pm ! (set_positions m 0 ! i)"
  shows "\<exists>dist. reed_sol_skipped_stream_decoding_matrix g gd n k (map uint bs) m arrive k_mask = Some dist"
proof -
  have f: "galois_field g gd" using assms(1) by (simp add: galois_primitive_def)
  have "leading_regular g (window_coef g bs k_mask m) (window_lost n m arrive)"
    using assms(5-7)
    by (intro galois_primitive.window_regular_consecutive [OF assms(1,3,4), of arrive bs c k_mask pm]) auto
  thus ?thesis by (rule galois_field.skipped_decoding_exists [OF f assms(2,4,5)])
qed

theorem skipped_decoding_mds_witness:
  "\<exists>dist. reed_sol_skipped_stream_decoding_matrix gf256_mul gf256_div 3 2 (map uint [1 :: byte, 2])
     [True, False, True, True] [False, False, True, False]
     [[True, False, True, True], [True, False, True, True]] = Some dist"
proof (rule skipped_decoding_mds [OF gf256.galois_primitive_axioms, where c = 0 and pm = "[True, False, True, True]"])
  have l: "window_lost 3 [True, False, True, True] [False, False, True, False] = [0, 2]" by code_simp
  have s: "set_positions [True, False, True, True] 0 = [0, 2, 3]" by code_simp
  have g: "gf_pow gf256_mul 2 1 = 2" by code_simp
  show "length (window_lost 3 [True, False, True, True] [False, False, True, False]) \<le> 2" by (simp add: l)
  show "3 \<le> length (set_positions [True, False, True, True] 0)" by (simp add: s)
  show "\<forall>a < 2. [1, 2] ! a = gf_pow gf256_mul 2 (0 + a) \<and>
      [[True, False, True, True], [True, False, True, True]] ! a = [True, False, True, True]"
    using g by (auto simp: less_2_cases_iff)
  show "\<forall>i \<in> set (window_lost 3 [True, False, True, True] [False, False, True, False]).
      [True, False, True, True] ! (set_positions [True, False, True, True] 0 ! i)" by (simp add: l s)
qed simp_all

text \<open>
  C11: A burst is recovered from parity packets of different batches: distinct non-zero base numbers
  suffice when the lost packets have consecutive sequence numbers, whatever else the packets protect.
\<close>

theorem skipped_decoding_burst:
  fixes bs :: "byte list"
  assumes "galois_field g gd"
    and "k \<le> length bs" "n \<le> length (set_positions m 0)" "length (window_lost n m arrive) \<le> k"
    and "distinct (take k bs)" "0 \<notin> set (take k bs)"
    and "map (\<lambda>i. set_positions m 0 ! i) (window_lost n m arrive) = [start..<start + length (window_lost n m arrive)]"
    and "\<forall>a < k. \<forall>b < length (window_lost n m arrive). k_mask ! a ! (start + b)"
  shows "\<exists>dist. reed_sol_skipped_stream_decoding_matrix g gd n k (map uint bs) m arrive k_mask = Some dist"
proof -
  let ?R = "window_lost n m arrive"
  have nth: "take k bs ! a = bs ! a" "a < length (take k bs)" if "a < length ?R" for a
    using that assms(2,4) by auto
  have "set_positions m 0 ! (?R ! b) = start + b" if "b < length ?R" for b
  proof -
    have "map (\<lambda>i. set_positions m 0 ! i) ?R ! b = [start..<start + length ?R] ! b" by (simp only: assms(7))
    thus ?thesis using that by simp
  qed
  hence "leading_regular g (window_coef g bs k_mask m) ?R"
    using assms(4,8)
  proof (intro galois_field.window_regular_burst [OF assms(1,3)])
    fix a assume a: "a < length ?R"
    thus "bs ! a \<noteq> 0" using assms(6) nth [OF a] nth_mem [of a "take k bs"] by metis
  next
    fix a a' assume "a < length ?R" "a' < length ?R" "bs ! a = bs ! a'"
    thus "a = a'" using assms(5) nth nth_eq_iff_index_eq [of "take k bs" a a'] by metis
  qed auto
  thus ?thesis by (rule galois_field.skipped_decoding_exists [OF assms(1-4)])
qed

theorem skipped_decoding_burst_witness:
  "\<exists>dist. reed_sol_skipped_stream_decoding_matrix gf256_mul gf256_div 3 2 (map uint [1 :: byte, 4])
     [True, True, True] [True, False, False] [[True, True, True], [False, True, True]] = Some dist"
proof -
  have l: "window_lost 3 [True, True, True] [True, False, False] = [1, 2]" by code_simp
  have s: "set_positions [True, True, True] 0 = [0, 1, 2]" by code_simp
  show ?thesis
    by (rule skipped_decoding_burst [OF gf256.galois_field_axioms, where start = 1])
       (auto simp: l s less_2_cases_iff less_Suc_eq)
qed

text \<open>
  C14: The block decoder, which does not test its pivots, is safe on consecutive base numbers: for at
  most 255 packets it returns a matrix, and its rows recover the lost packets.
\<close>

theorem block_decoding_mds:
  assumes "galois_primitive g gd"
    and "n \<le> 255" "k \<le> length bs" "\<forall>a < k. bs ! a = gf_pow g 2 (c + a)"
    and "length (lost_rows n (\<lambda>i. pmask ! i AND 1 \<noteq> 0)) \<le> k"
  shows "\<exists>dist. reed_sol_block_decoding_matrix g gd n k (map uint bs) pmask = Some dist \<and> length dist = n * n \<and>
    (\<forall>x y. (\<forall>i < n. pmask ! i AND 1 \<noteq> 0 \<longrightarrow> y i = x i) \<longrightarrow>
      (\<forall>a < length (lost_rows n (\<lambda>i. pmask ! i AND 1 \<noteq> 0)).
         y (lost_rows n (\<lambda>i. pmask ! i AND 1 \<noteq> 0) ! a) = xsum (\<lambda>j. gf8 g (gf_pow g (bs ! a) j) (x j)) n) \<longrightarrow>
      (\<forall>i \<in> set (lost_rows n (\<lambda>i. pmask ! i AND 1 \<noteq> 0)). xsum (\<lambda>j. gf8 g (at2 n dist i j) (y j)) n = x i))"
proof -
  let ?known = "\<lambda>i. pmask ! i AND 1 \<noteq> 0"
  let ?coef = "\<lambda>a j. gf_pow g (bs ! a) j"
  have f: "galois_field g gd" and r: "galois_ring g"
    using assms(1) by (simp_all add: galois_primitive_def galois_field_def)
  have "writes_row n (\<lambda>l i v. fill_powers g (n * 2) i n (map uint bs ! l) v) ?coef l" if "l < k" for l
    using that assms(3)
    by (auto simp: writes_row_def galois_ring.at2_fill_powers [OF r, where rows = n])
  moreover have "leading_regular g ?coef (lost_rows n ?known)"
    by (rule galois_primitive.lost_regular_consecutive [OF assms(1,2)]) (use assms(4,5) in auto)
  ultimately show ?thesis
    unfolding reed_sol_block_decoding_matrix_def
    by (intro galois_field.decoding_matrix_solves [OF f _ assms(5)]) auto
qed

theorem block_decoding_mds_witness:
  "\<exists>dist. reed_sol_block_decoding_matrix gf256_mul gf256_div 2 1 (map uint [1 :: byte]) [1, 0] = Some dist"
proof -
  have "lost_rows 2 (\<lambda>i. [1, 0 :: int] ! i AND 1 \<noteq> 0) = [1]" by code_simp
  thus ?thesis
    using block_decoding_mds [OF gf256.galois_primitive_axioms, of 2 1 "[1]" 0 "[1, 0]"] by auto
qed

text \<open>
  C20: The coding matrix of a batch with gaps: whatever the positions of the set bits of the mask are,
  the cell of parity packet \<open>r\<close> and media packet \<open>c\<close> is the base number of \<open>r\<close> to the power of the
  position of \<open>c\<close>, and neither NULL nor an out-of-bounds read can happen.
\<close>

theorem sub_stream_coding_matrix_powers:
  assumes "galois_ring g" "length bs = k" "mask_len \<le> length pmask"
    and "n \<le> length (stream_positions pmask mask_len 0)"
  shows "\<exists>w. reed_sol_sub_stream_coding_matrix g n k (map uint bs) pmask mask_len = Inr (Some w) \<and>
     length w = k * n \<and> (\<forall>r < k. \<forall>c < n.
       at2 n w r c = gf_pow g (bs ! r) (stream_positions pmask mask_len 0 ! c))"
  using galois_ring.sub_stream_coding_matrix_cells [OF assms] by blast

theorem sub_stream_coding_matrix_powers_witness:
  "\<exists>w. reed_sol_sub_stream_coding_matrix gf256_mul 2 1 (map uint [2 :: byte]) [1, 0, 1] 3 = Inr (Some w) \<and>
     at2 2 w 0 1 = 4"
proof -
  have p: "stream_positions [1, 0, 1] 3 0 = [0, 2]" by code_simp
  have g: "gf_pow gf256_mul 2 2 = 4" by code_simp
  show ?thesis
    using sub_stream_coding_matrix_powers [OF gf256r.galois_ring_axioms, of "[2]" 1 3 "[1, 0, 1]" 2] p g
    by auto
qed

text \<open>
  C13: The FEC header round trip: reading a finalized header gives back the sequence number base, the
  base number, the mask and the protection length, and the coded bytes of the packet are unchanged.
\<close>

theorem fec_header_round_trip:
  assumes "18 \<le> length d" "length d - 18 < 65536"
  shows "\<exists>f h w. FinalizeFecHeader base base_num msk d = Inr f \<and> ReadFecHeader ssrc f = Inr (Some (h, w)) \<and>
     fh_protection_length h = length d - 18 \<and> seq_num_base (fh_stream h) = base \<and>
     cur_base_num (fh_stream h) = base_num \<and> pkt_mask (fh_stream h) = msk \<and>
     length w = length d \<and> (\<forall>q. code 18 w q = code 18 d q)"
  using Read_Finalize [OF assms, of base base_num msk ssrc] by force

theorem fec_header_round_trip_witness:
  "\<exists>f h w. FinalizeFecHeader 7 2 5 (replicate 20 1) = Inr f \<and> ReadFecHeader 9 f = Inr (Some (h, w)) \<and>
     fh_protection_length h = 2 \<and> pkt_mask (fh_stream h) = 5"
  using fec_header_round_trip [of "replicate 20 1" 7 2 5 9] by force

text \<open>
  C21: The header reader checks for 12 bytes only: on every packet of 12 to 17 bytes it reads past the
  end of the packet.
\<close>

theorem ReadFecHeader_short:
  "ReadFecHeader ssrc data = Inl OutOfBounds \<longleftrightarrow> 12 \<le> length data \<and> length data < 18"
  by (auto simp: ReadFecHeader_def read16_def read32_def Let_def)

text \<open>
  C12: The encoder meets its contract: for a batch of RTP packets in sequence order within 32 numbers and
  at most 32 parity packets, it returns 0 and one packet per base number, the base numbers being the
  next powers of 2; each packet has a readable header that names the batch, and its coded bytes are the
  sum of the media packets' coded bytes multiplied by the powers of its base number.
\<close>

theorem EncodeRSFec_contract:
  assumes "galois_ring g" "wf_media media" "max_payload media < 65536"
    and "num_fec_packets params (length media) pf = int k" "0 < k" "k \<le> 32"
  shows "\<exists>fecs. EncodeRSFec g params (uint (gf_pow g 2 c)) media pf = Inr (uint (gf_pow g 2 (c + k)), 0, fecs) \<and>
     length fecs = k \<and> (\<forall>i < k. parity_packet g media (gf_pow g 2 (c + i)) (fecs ! i))"
  by (rule galois_ring.EncodeRSFec_correct [OF assms])

theorem EncodeRSFec_contract_witness:
  "\<exists>fecs. EncodeRSFec gf256_mul \<lparr>param_type = RSFECStreamStableRate, generate_fec_num = 1, param_M = 0\<rparr>
       (uint (gf_pow gf256_mul 2 0)) [[128, 96, 0, 7, 0, 0, 0, 1, 0, 0, 0, 9, 42]] 0 =
     Inr (uint (gf_pow gf256_mul 2 (0 + 1)), 0, fecs) \<and> length fecs = 1"
proof -
  let ?m = "[[128, 96, 0, 7, 0, 0, 0, 1, 0, 0, 0, 9, 42]] :: byte list list"
  have "wf_media ?m" "max_payload ?m < 65536"
    by (simp_all add: wf_media_def offsets_def seq_offset_def max_payload_def)
  from EncodeRSFec_contract [OF gf256r.galois_ring_axioms this, where k = 1 and c = 0 and pf = 0 and
      params = "\<lparr>param_type = RSFECStreamStableRate, generate_fec_num = 1, param_M = 0\<rparr>"]
  show ?thesis by (auto simp: num_fec_packets_def)
qed

text \<open>
  C22: The number of parity packets never exceeds the number of media packets, and is zero exactly when
  no protection is asked for.
\<close>

theorem NumFecPackets_range:
  assumes "0 < n" "0 \<le> f" "f < 256"
  shows "0 \<le> NumFecPackets n f \<and> NumFecPackets n f \<le> n \<and> (NumFecPackets n f = 0 \<longleftrightarrow> f = 0)"
  using NumFecPackets_bounds [OF assms] by blast

theorem NumFecPackets_range_witness: "NumFecPackets 10 26 = 1 \<and> NumFecPackets 10 26 \<le> 10"
  using NumFecPackets_range [of 10 26] by (simp add: NumFecPackets_def drop_bit_eq_div push_bit_eq_mult)

text \<open>
  C23: The base numbers continue from call to call: \<open>k\<close> numbers drawn at \<open>2^c\<close> are the powers
  \<open>2^c\<close> to \<open>2^(c+k-1)\<close>, and the generator is left at \<open>2^(c+k)\<close>.
\<close>

theorem GenerateBaseNumList_consecutive:
  assumes "galois_ring g" "n \<le> 40"
  shows "GenerateBaseNumList g n (int k) (uint (gf_pow g 2 c)) =
     (uint (gf_pow g 2 (c + k)), Some (map (\<lambda>i. uint (gf_pow g 2 (c + i))) [0..<k]))"
  using galois_ring.GenerateBaseNumList_powers [OF assms] by (simp add: comp_def)

theorem GenerateBaseNumList_consecutive_witness:
  "GenerateBaseNumList gf256_mul 3 (int 2) (uint (gf_pow gf256_mul 2 0)) =
     (uint (gf_pow gf256_mul 2 2), Some [uint (gf_pow gf256_mul 2 0), uint (gf_pow gf256_mul 2 1)])"
  using GenerateBaseNumList_consecutive [OF gf256r.galois_ring_axioms, of 3 2 0]
  by (simp add: numeral_2_eq_2 del: gf_pow.simps)

end
