(* ===== verification/RS_Restore.thy ===== *)
theory RS_Restore
imports RS_Recovery RS_Properties
begin

text \<open>
  The theorem of the Reed-Solomon decoder: a group of parity packets that satisfies its contract
  gives back exactly the packets that were sent.
\<close>

subsection \<open>The recovered packets\<close>

lemma group_protected:
  assumes ok: "group_ok g M b0 fecs c a" and f: "f \<in> set fecs" and p: "p \<in> set (fp_protected f)" "pp_pkt p = Some pkt"
  shows "\<exists>r < 128. pp_seq p = b0 + of_nat r \<and> pkt = M (pp_seq p) \<and> 12 \<le> length pkt \<and> bit c r \<and> bit a r"
proof -
  have cf: "carries g M f" and d: "group_diff b0 f \<le> 96" using ok f by (auto simp: group_ok_def)
  from carriesD(7) [OF cf p(1)] p(2) obtain i where i: "bit (pkt_mask (fp_stream f)) i"
    "bit (pkt_arrive (fp_stream f)) i" "pp_seq p = seq_num_base (fp_stream f) + of_nat i" "pkt = M (pp_seq p)"
    by (auto split: if_splits)
  let ?r = "group_diff b0 f + i"
  have r: "?r < 128" using d bit_imp_le_length [OF i(1)] by simp
  moreover have "pp_seq p = b0 + of_nat ?r" using protects_base [OF d, of i] i(3) by (simp only:)
  moreover have "protects b0 f ?r" "has_arrived b0 f ?r" using i by (simp_all add: protects_def has_arrived_def)
  hence "bit c ?r" "bit a ?r" using ok f r unfolding group_ok_def by blast+
  moreover have "12 \<le> length pkt" using carriesD(6) [OF cf i(1)] i(3,4) by (simp add: sent_def)
  ultimately show ?thesis using i(4) by blast
qed

lemma group_arrived:
  assumes ok: "group_ok g M b0 fecs c a" and r: "r < 128"
  shows "(\<exists>f \<in> set fecs. \<exists>p \<in> set (fp_protected f). pp_pkt p \<noteq> None \<and> pp_seq p = b0 + of_nat r) \<longleftrightarrow> bit a r"
proof
  assume "\<exists>f \<in> set fecs. \<exists>p \<in> set (fp_protected f). pp_pkt p \<noteq> None \<and> pp_seq p = b0 + of_nat r"
  then obtain f p pkt where p: "f \<in> set fecs" "p \<in> set (fp_protected f)" "pp_pkt p = Some pkt" "pp_seq p = b0 + of_nat r"
    by blast
  from group_protected [OF ok p(1-3)] obtain r' where r': "r' < 128" "b0 + of_nat r = b0 + of_nat r'" "bit a r'"
    unfolding p(4) by (elim exE conjE)
  thus "bit a r" using window_pos_eq [OF r r'(1), of b0] by simp
next
  assume "bit a r"
  then obtain f where f: "f \<in> set fecs" "has_arrived b0 f r" using ok unfolding group_ok_def by blast
  have cf: "carries g M f" and d: "group_diff b0 f \<le> 96" using ok f by (auto simp: group_ok_def)
  define i where "i = r - group_diff b0 f"
  have i: "bit (pkt_arrive (fp_stream f)) i" "r = group_diff b0 f + i" using f(2) by (auto simp: has_arrived_def i_def)
  from carriesD(8) [OF cf i(1)] obtain p where p: "p \<in> set (fp_protected f)" "pp_seq p = seq_num_base (fp_stream f) + of_nat i"
    by blast
  from carriesD(7) [OF cf p(1)] obtain i' where i': "bit (pkt_mask (fp_stream f)) i'"
    "pp_seq p = seq_num_base (fp_stream f) + of_nat i'"
    "pp_pkt p = (if bit (pkt_arrive (fp_stream f)) i' then Some (M (pp_seq p)) else None)" by blast
  have "i < 128" "i' < 128" using bit_imp_le_length [OF i(1)] bit_imp_le_length [OF i'(1)] by simp_all
  hence "i' = i" using window_pos_eq [of i i' "seq_num_base (fp_stream f)"] p(2) i'(2) by simp
  hence "pp_pkt p \<noteq> None" using i'(3) i(1) by simp
  moreover have "pp_seq p = b0 + of_nat r" unfolding i(2) protects_base [OF d] by (rule p(2))
  ultimately show "\<exists>f \<in> set fecs. \<exists>p \<in> set (fp_protected f). pp_pkt p \<noteq> None \<and> pp_seq p = b0 + of_nat r"
    using f(1) p(1) by blast
qed

definition group_matrix :: "gf_op \<Rightarrow> gf_op \<Rightarrow> u16 \<Rightarrow> window \<Rightarrow> window \<Rightarrow> fec_packet list \<Rightarrow> byte list option" where
  "group_matrix g gd b0 c a fecs =
     GenerateDecodingMatrix g gd (length (positions c)) (length fecs)
       (map (\<lambda>f. uint (cur_base_num (fp_stream f))) fecs) (bits c) (bits a) (group_masks b0 fecs)"

lemma group_matrix_bytes:
  assumes "group_ok g M b0 fecs c a"
  shows "group_matrix g gd b0 c a fecs = reed_sol_skipped_stream_decoding_matrix g gd (length (positions c)) (length fecs)
     (map uint (map base_byte fecs)) (bits c) (bits a) (group_masks b0 fecs)"
proof -
  have "uint (cur_base_num (fp_stream f)) = uint (base_byte f)" if "f \<in> set fecs" for f
  proof -
    have "cur_base_num (fp_stream f) = ucast (base_byte f)"
      using carriesD(1) [of g M f] assms that by (auto simp: group_ok_def)
    thus ?thesis using uint_up_ucast [of "base_byte f", where 'b = 16] by (simp add: is_up)
  qed
  hence "map (\<lambda>f. uint (cur_base_num (fp_stream f))) fecs = map uint (map base_byte fecs)" by simp
  thus ?thesis by (simp only: group_matrix_def GenerateDecodingMatrix_def)
qed

text \<open>The packets considered lost are those of the window that have not arrived, in order.\<close>

definition group_losses :: "u16 \<Rightarrow> window \<Rightarrow> window \<Rightarrow> loss_packet list \<Rightarrow> bool" where
  "group_losses b0 c a losses \<longleftrightarrow>
     map lp_seq losses = map (\<lambda>r. b0 + of_nat r) (filter (\<lambda>p. bit c p \<and> \<not> bit a p) [0..<128])"

lemma group_lost:
  assumes L: "group_losses b0 c a losses" "length losses = length fecs"
  shows "length (lost_index c a) = length fecs"
    "k < length fecs \<Longrightarrow> lp_seq (losses ! k) = b0 + of_nat (positions c ! (lost_index c a ! k))"
proof -
  let ?P = "map (\<lambda>j. positions c ! j) (lost_index c a)"
  have m: "map lp_seq losses = map (\<lambda>r. b0 + of_nat r) ?P"
    using L(1) unfolding group_losses_def lost_positions .
  thus l: "length (lost_index c a) = length fecs" using L(2) map_eq_imp_length_eq [OF m] by simp
  show "lp_seq (losses ! k) = b0 + of_nat (positions c ! (lost_index c a ! k))" if k: "k < length fecs"
    using arg_cong [OF m, of "\<lambda>xs. xs ! k"] k l L(2) by simp
qed

lemma group_ok_window:
  assumes ok: "group_ok g M b0 (f0 # fs) c a" and b0: "b0 = seq_num_base (fp_stream f0)"
  shows "group_window fs b0 (ucast (pkt_mask (fp_stream f0))) (ucast (pkt_arrive (fp_stream f0))) = Some (b0, c, a)"
proof -
  obtain c' a' where w: "group_window fs b0 (ucast (pkt_mask (fp_stream f0))) (ucast (pkt_arrive (fp_stream f0))) = Some (b0, c', a')"
    and ok': "group_ok g M b0 (f0 # fs) c' a'"
    using group_window_ok [OF conjunct1 [OF ok [unfolded group_ok_def]] b0] by (elim exE conjE)
  note eqs = conjunct2 [OF ok [unfolded group_ok_def]] conjunct2 [OF ok' [unfolded group_ok_def]]
  have "c' = c" "a' = a" by (intro bit_eqI; simp only: eqs)+
  thus ?thesis using w by simp
qed

lemma group_sub: "group_ok g M b0 fecs c a \<Longrightarrow> bit a r \<Longrightarrow> bit c r \<and> r < 128"
  using carriesD(8) unfolding group_ok_def has_arrived_def protects_def by blast

context galois_field
begin

lemma group_matrix_solves:
  assumes ok: "group_ok gmul M b0 fecs c a" and l: "length (lost_index c a) = length fecs"
    and tab: "group_matrix gmul gdiv b0 c a fecs = Some tab" and i: "i < length fecs"
  shows "length tab = length fecs * length (positions c)"
    "xsum (\<lambda>j. gf8 gmul (at2 (length (positions c)) tab i j) (received c a (\<lambda>r. rtp_code (M (b0 + of_nat r)) q)
         (\<lambda>k. code 18 (fp_pkt (fecs ! k)) q) j)) (length (positions c)) =
       rtp_code (M (b0 + of_nat (positions c ! (lost_index c a ! i)))) q"
proof -
  let ?ps = "positions c" and ?W = "lost_index c a"
  let ?n = "length ?ps" and ?X = "\<lambda>r. rtp_code (M (b0 + of_nat r)) q"
  let ?y = "received c a ?X (\<lambda>k. code 18 (fp_pkt (fecs ! k)) q)"
  note mt = tab [unfolded group_matrix_bytes [OF ok]]
  have par: "?y (?W ! k) = xsum (\<lambda>j. gf8 gmul (group_coef gmul b0 fecs c k j) (?X (?ps ! j))) ?n"
    if "k < length ?W" for k
    unfolding received_lost [OF that] by (rule parity_window_sum [OF ok]) (use that l in simp)
  have kn: "?y j = ?X (?ps ! j)" if "j < ?n" "bits a ! (set_positions (bits c) 0 ! j)" for j
    using that by (simp add: set_positions_eq nth_bits positions_props received_def)
  note s = skipped_decoding_solves [OF mt, where x = "\<lambda>j. ?X (?ps ! j)" and a = i and y = ?y,
    folded lost_index_def group_coef_def, OF _ kn par]
  show "length tab = length fecs * ?n" using s(3) i l by simp
  show "xsum (\<lambda>j. gf8 gmul (at2 ?n tab i j) (?y j)) ?n = ?X (?ps ! (?W ! i))"
    using s(4) i l by simp
qed

lemma add_group_recovers:
  assumes ok: "group_ok gmul M b0 fecs c a" and L: "group_losses b0 c a losses" "length losses = length fecs"
    and tab: "group_matrix gmul gdiv b0 c a fecs = Some tab" and i: "i < length fecs"
  shows "\<exists>d. add_group gmul tab i (length (positions c)) (seq_num_To_id c) b0 c a fecs losses
      (0, replicate (l + 12) 0) = Inr d \<and> 12 \<le> length d \<and>
     (\<forall>q. code 12 d q = rtp_code (M (lp_seq (losses ! i))) q)"
proof -
  let ?ps = "positions c" and ?W = "lost_index c a"
  let ?P = "map (\<lambda>j. ?ps ! j) ?W" and ?v = "at2 (length ?ps) tab i"
  define cell where "cell r = ?v (rank (bit c) r)" for r
  note lW = group_lost [OF L]
  note solve = group_matrix_solves [OF ok lW(1) tab i]
  have g: "\<forall>f \<in> set fecs. fp_header_size f = 18 \<and> 18 \<le> length (fp_pkt f) \<and>
      (\<forall>p \<in> set (fp_protected f). good_protected M b0 c a p)"
    using ok group_protected [OF ok] carriesD(3,4) unfolding group_ok_def good_protected_def by blast
  have cell: "table_cell tab i (length ?ps) (seq_num_To_id c) r = Inr (cell r)" if "r < 128" "bit c r" for r
    unfolding cell_def by (rule table_cell_Some [OF that(2,1) _ solve(1) i]) (simp add: positions_def)
  have init: "added gmul M b0 cell (\<lambda>q. 0) 0 (replicate (l + 12) 0)"
    by (auto simp: added_def code_def xsum_zero nth_append)
  have P: "\<forall>r \<in> set ?P. r < 128 \<and> bit c r" unfolding lost_positions by auto
  have m: "map lp_seq losses = map (\<lambda>r. b0 + of_nat r) ?P"
    using L(1) unfolding group_losses_def lost_positions .
  have lP: "length fecs \<le> length ?P" using lW(1) by simp
  obtain D d where d: "add_group gmul tab i (length ?ps) (seq_num_To_id c) b0 c a fecs losses (0, replicate (l + 12) 0) = Inr d"
      "added gmul M b0 cell (\<lambda>q. 0 XOR xsum (\<lambda>k. gf8 gmul (code 18 (fp_pkt (fecs ! k)) q) (cell (?P ! k))) (length fecs)) D d"
      "\<forall>r. bit D r \<longleftrightarrow> bit (0 :: window) r \<or> r < 128 \<and>
        (\<exists>f \<in> set fecs. \<exists>p \<in> set (fp_protected f). pp_pkt p \<noteq> None \<and> pp_seq p = b0 + of_nat r)"
    using add_group_code [OF g cell m P lP init] by blast
  have "D = a" using d(3) group_arrived [OF ok] group_sub [OF ok] by (intro bit_eqI) auto
  have "code 12 d q = rtp_code (M (lp_seq (losses ! i))) q" for q
  proof -
    have "code 12 d q = xsum (\<lambda>k. gf8 gmul (code 18 (fp_pkt (fecs ! k)) q) (?v (rank (bit c) (?ps ! (?W ! k))))) (length ?W) XOR
        xsum (\<lambda>r. if bit a r then gf8 gmul (rtp_code (M (b0 + of_nat r)) q) (?v (rank (bit c) r)) else 0) 128"
      using d(2) unfolding added_def \<open>D = a\<close> cell_def lW(1) by (simp add: lW(1) cong: xsum_cong)
    also have "\<dots> = xsum (\<lambda>j. gf8 gmul (?v j) (received c a (\<lambda>r. rtp_code (M (b0 + of_nat r)) q)
         (\<lambda>k. code 18 (fp_pkt (fecs ! k)) q) j)) (length ?ps)"
      by (rule recovered_sum) (rule group_sub [OF ok])
    also have "\<dots> = rtp_code (M (lp_seq (losses ! i))) q" unfolding solve(2) lW(2) [OF i] ..
    finally show ?thesis .
  qed
  thus ?thesis using d(1,2) unfolding added_def by blast
qed

end

text \<open>A packet that was sent, as the decoder inserts it into the list of recovered packets.\<close>

definition original :: "(u16 \<Rightarrow> byte list) \<Rightarrow> loss_packet \<Rightarrow> recovered_packet" where
  "original M l = \<lparr>rp_ssrc = lp_ssrc l, rp_seq = lp_seq l, was_recovered = True, returned = False, rp_pkt = M (lp_seq l)\<rparr>"

text \<open>The loss is of a packet of the sender; the decoder restores at most 1488 bytes.\<close>

definition lost_sent :: "(u16 \<Rightarrow> byte list) \<Rightarrow> loss_packet \<Rightarrow> bool" where
  "lost_sent M l \<longleftrightarrow> sent M (lp_seq l) \<and> lp_ssrc l = ParseSsrc (M (lp_seq l))"

lemma finish_all_original:
  assumes "length ds = length ls" "\<forall>l \<in> set ls. lost_sent M l"
    "\<forall>i < length ls. 12 \<le> length (ds ! i) \<and> (\<forall>q. code 12 (ds ! i) q = rtp_code (M (lp_seq (ls ! i))) q)"
  shows "finish_all (map (\<lambda>(l, d). (lp_seq l, lp_ssrc l, d)) (zip ls ds)) =
    (if \<exists>l \<in> set ls. length (M (lp_seq l)) > 1488 then None else Some (map (original M) ls))"
  using assms
proof (induction ls arbitrary: ds)
  case (Cons l ls)
  obtain d ds' where ds: "ds = d # ds'" "length ds' = length ls" using Cons.prems(1) by (cases ds) auto
  have "FinishPacketRecovery (lp_seq l) (lp_ssrc l) d = (if length (M (lp_seq l)) > 1488 then None else Some (M (lp_seq l)))"
    using Finish_original [of d "M (lp_seq l)"] Cons.prems(2) spec [OF Cons.prems(3), of 0] ds
    by (simp add: lost_sent_def sent_def)
  moreover have "\<forall>i < length ls. 12 \<le> length (ds' ! i) \<and> (\<forall>q. code 12 (ds' ! i) q = rtp_code (M (lp_seq (ls ! i))) q)"
    using Cons.prems(3) ds by fastforce
  ultimately show ?case using Cons.IH [OF ds(2)] Cons.prems(2) ds by (auto simp: original_def)
qed simp

context galois_field
begin

theorem RecoverPacket_original:
  assumes ok: "group_ok gmul M b0 (f0 # fs) c a" and b0: "b0 = seq_num_base (fp_stream f0)"
    and L: "group_losses b0 c a losses" "length losses = length (f0 # fs)" "\<forall>l \<in> set losses. lost_sent M l"
  shows "RecoverPacket gmul gdiv (f0 # fs) losses = Inr
      (if group_matrix gmul gdiv b0 c a (f0 # fs) = None \<or> StartPacketRecovery (f0 # fs) = None \<or>
          (\<exists>l \<in> set losses. length (M (lp_seq l)) > 1488)
       then None else Some (map (original M) losses))"
proof -
  let ?fs = "f0 # fs"
  have w: "group_window fs b0 (ucast (pkt_mask (fp_stream f0))) (ucast (pkt_arrive (fp_stream f0))) = Some (b0, c, a)"
    by (rule group_ok_window [OF ok b0])
  note m = group_matrix_def [of gmul gdiv b0 c a ?fs, unfolded positions_def]
  show ?thesis
  proof (cases "group_matrix gmul gdiv b0 c a ?fs = None \<or> StartPacketRecovery ?fs = None")
    case True
    hence "RecoverPacket gmul gdiv ?fs losses = Inr None"
      using w b0 m by (auto simp: RecoverPacket_def Let_def split: option.split)
    thus ?thesis using True by auto
  next
    case False
    then obtain tab dst where tab: "group_matrix gmul gdiv b0 c a ?fs = Some tab" and dst: "StartPacketRecovery ?fs = Some dst"
      by auto
    then obtain z where z: "dst = replicate (z + 12) 0" by (auto simp: StartPacketRecovery_def split: if_splits)
    have "\<forall>i. \<exists>d. i < length ?fs \<longrightarrow> add_group gmul tab i (length (positions c)) (seq_num_To_id c) b0 c a ?fs losses (0, dst) = Inr d
        \<and> 12 \<le> length d \<and> (\<forall>q. code 12 d q = rtp_code (M (lp_seq (losses ! i))) q)"
      unfolding z using add_group_recovers [OF ok L(1,2) tab] by blast
    then obtain D where D: "\<And>i. i < length ?fs \<Longrightarrow> add_group gmul tab i (length (positions c)) (seq_num_To_id c) b0 c a ?fs losses (0, dst) = Inr (D i)"
      "\<And>i. i < length ?fs \<Longrightarrow> 12 \<le> length (D i) \<and> (\<forall>q. code 12 (D i) q = rtp_code (M (lp_seq (losses ! i))) q)"
      by metis
    let ?ds = "map D [0..<length losses]"
    have "RecoverPacket gmul gdiv ?fs losses = Inr (finish_all (map (\<lambda>i. (lp_seq (losses ! i), lp_ssrc (losses ! i), D i)) [0..<length ?fs]))"
    proof -
      have "map_result (\<lambda>i. if i \<ge> length losses then Inl OutOfBounds
           else case add_group gmul tab i (length (positions c)) (seq_num_To_id c) b0 c a ?fs losses (0, dst) of
                  Inl e \<Rightarrow> Inl e | Inr d \<Rightarrow> Inr (lp_seq (losses ! i), lp_ssrc (losses ! i), d)) [0..<length ?fs] =
         Inr (map (\<lambda>i. (lp_seq (losses ! i), lp_ssrc (losses ! i), D i)) [0..<length ?fs])"
        by (rule map_result_Inr) (use D(1) L(2) in auto)
      thus ?thesis
        by (simp only: RecoverPacket_def list.case option.case prod.case Let_def sum.case b0 [symmetric] w
            positions_def [symmetric] tab [unfolded group_matrix_def] dst)
    qed
    also have "map (\<lambda>i. (lp_seq (losses ! i), lp_ssrc (losses ! i), D i)) [0..<length ?fs] =
        map (\<lambda>(l, d). (lp_seq l, lp_ssrc l, d)) (zip losses ?ds)"
      using L(2) by (intro nth_equalityI) (auto simp del: upt_Suc)
    also have "finish_all \<dots> = (if \<exists>l \<in> set losses. length (M (lp_seq l)) > 1488 then None else Some (map (original M) losses))"
      by (rule finish_all_original) (use L D(2) in \<open>auto simp del: upt_Suc\<close>)
    finally show ?thesis using tab dst by auto
  qed
qed

end

end
