(* ===== verification/RS_Sound.thy ===== *)
theory RS_Sound
  imports RS_Restore
begin

text \<open>
  The recovery of a group that the search has selected: whatever it returns are sent packets.
\<close>

subsection \<open>Groups with bases too far apart\<close>

lemma group_window_far:
  assumes "\<forall>f \<in> set fs. group_diff b0 f < 0x8000" "\<exists>f \<in> set fs. 96 < group_diff b0 f"
  shows "group_window fs b0 c a = None"
  using assms
proof (induction fs arbitrary: c a)
  case (Cons f fs)
  let ?b = "seq_num_base (fp_stream f)"
  have d: "unat (MinDiff b0 ?b) = group_diff b0 f"
    using Cons.prems(1) MinDiff_base [of b0 ?b] by (auto simp: group_diff_def)
  show ?case
  proof (cases "96 < group_diff b0 f")
    case False
    have "\<not> IsNewerSequenceNumber b0 ?b"
      using IsNewer_window [of b0 b0 ?b] False by (auto simp: in_window_def group_diff_def offset_def)
    moreover have "group_window fs b0 c a = None" for c a
      using Cons.IH Cons.prems False by auto
    ultimately show ?thesis using d False by (simp add: Let_def)
  qed (simp add: d Let_def)
qed simp

subsection \<open>Groups with fewer lost packets than selected\<close>

text \<open>
  When a selected packet is known to another parity packet of the group, the decoding table has
  fewer rows than the loop that applies it expects.
\<close>

lemma table_cell_beyond:
  assumes "bit c p" "p < 128" "length tab \<le> i * n"
  shows "table_cell tab i n (seq_num_To_id c) p = Inl OutOfBounds"
proof -
  have "\<not> int i * int n + int (rank (bit c) p) < int (length tab)"
    using assms(3) by (simp flip: of_nat_mult of_nat_add)
  thus ?thesis
    using assms(2) seq_num_To_id_nth [OF assms(2,1)] by (simp add: table_cell_def Let_def seq_num_To_id_def)
qed

lemma add_group_beyond:
  assumes "\<forall>l \<in> set losses. \<exists>r < 128. lp_seq l = b0 + of_nat r \<and> bit c r" "fs \<noteq> []" "losses \<noteq> []"
    and "length tab \<le> i * n"
  shows "\<exists>e. add_group g tab i n (seq_num_To_id c) b0 c a fs losses s = Inl e"
proof -
  obtain f fs' l ls where fs: "fs = f # fs'" "losses = l # ls"
    using assms(2,3) by (cases fs; cases losses) auto
  obtain r where r: "r < 128" "lp_seq l = b0 + of_nat r" "bit c r" using assms(1) fs by auto
  have "unat (MinDiff b0 (lp_seq l)) = r"
    using MinDiff_base [of b0 "b0 + of_nat r"] r(1) by (simp add: r(2) offset_add del: of_nat_add)
  thus ?thesis
    using table_cell_beyond [OF r(3,1) assms(4)] fs
    by (cases s) (auto split: sum.split)
qed

lemma map_result_Inl: "x \<in> set xs \<Longrightarrow> f x = Inl e \<Longrightarrow> \<exists>e. map_result f xs = Inl e"
  by (induction xs) (auto split: sum.split)

text \<open>What the search promises: the selected packets are those missing for some packet of the group, in order.\<close>

definition missing :: "fec_packet \<Rightarrow> u16 list" where
  "missing f = map pp_seq (filter (\<lambda>p. pp_pkt p = None) (fp_protected f))"

definition all_protected :: "fec_packet \<Rightarrow> bool" where
  "all_protected f \<longleftrightarrow> map pp_seq (fp_protected f) =
     map (\<lambda>i. seq_num_base (fp_stream f) + of_nat i) (filter (bit (pkt_mask (fp_stream f))) [0..<32])"

definition selected :: "u16 \<Rightarrow> fec_packet list \<Rightarrow> loss_packet list \<Rightarrow> bool" where
  "selected b0 fecs losses \<longleftrightarrow> length losses = length fecs \<and>
     sorted_wrt (\<lambda>l l'. offset b0 (lp_seq l) < offset b0 (lp_seq l')) losses \<and>
     lp_seq ` set losses = (\<Union>f \<in> set fecs. set (missing f))"

lemma missing_window:
  assumes ok: "group_ok g M b0 fecs c a" and f: "f \<in> set fecs" and s: "s \<in> set (missing f)"
  shows "\<exists>r < 128. s = b0 + of_nat r \<and> bit c r"
proof -
  have cf: "carries g M f" and d: "group_diff b0 f \<le> 96" using ok f by (auto simp: group_ok_def)
  obtain p where p: "p \<in> set (fp_protected f)" "s = pp_seq p" using s by (auto simp: missing_def)
  from carriesD(7) [OF cf p(1)] obtain i where i: "bit (pkt_mask (fp_stream f)) i"
    "pp_seq p = seq_num_base (fp_stream f) + of_nat i" by blast
  have "group_diff b0 f + i < 128" using d bit_imp_le_length [OF i(1)] by simp
  moreover have "protects b0 f (group_diff b0 f + i)" using i by (simp add: protects_def)
  ultimately have "bit c (group_diff b0 f + i)" using ok f unfolding group_ok_def by blast
  moreover have "s = b0 + of_nat (group_diff b0 f + i)" unfolding protects_base [OF d] using i p by simp
  ultimately show ?thesis using \<open>group_diff b0 f + i < 128\<close> by blast
qed

lemma lost_missing:
  assumes ok: "group_ok g M b0 fecs c a" and all: "\<forall>f \<in> set fecs. all_protected f"
    and r: "bit c r" "\<not> bit a r"
  shows "\<exists>f \<in> set fecs. b0 + of_nat r \<in> set (missing f)"
proof -
  from ok r(1) obtain f where f: "f \<in> set fecs" "protects b0 f r" "r < 128" unfolding group_ok_def by blast
  have cf: "carries g M f" and d: "group_diff b0 f \<le> 96" using ok f by (auto simp: group_ok_def)
  define i where "i = r - group_diff b0 f"
  have i: "r = group_diff b0 f + i" "bit (pkt_mask (fp_stream f)) i" using f by (auto simp: i_def protects_def)
  have i32: "i < 32" using bit_imp_le_length [OF i(2)] by simp
  have s: "b0 + of_nat r = seq_num_base (fp_stream f) + of_nat i" unfolding i(1) by (rule protects_base [OF d])
  have "seq_num_base (fp_stream f) + of_nat i \<in> set (map pp_seq (fp_protected f))"
    using all f(1) i(2) i32 unfolding all_protected_def by auto
  then obtain p where p: "p \<in> set (fp_protected f)" "pp_seq p = b0 + of_nat r" using s by auto
  have "pp_pkt p = None" using group_arrived [OF ok f(3)] r(2) f(1) p by auto
  thus ?thesis using f(1) p unfolding missing_def by force
qed

lemma sorted_offset_unique:
  assumes "sorted_wrt (\<lambda>x y. offset b x < offset b y) xs" "sorted_wrt (\<lambda>x y. offset b x < offset b y) ys"
    and "set xs = set ys"
  shows "xs = ys"
proof -
  have "sorted_wrt (<) (map (offset b) xs)" "sorted_wrt (<) (map (offset b) ys)"
    using assms(1,2) by (simp_all add: sorted_wrt_map)
  hence "map (offset b) xs = map (offset b) ys"
    using assms(3) strict_sorted_equal [of "map (offset b) xs" "map (offset b) ys"] by simp
  moreover have "inj (offset b)" by (rule injI) (rule offset_inj)
  ultimately show ?thesis by (metis inj_map_eq_map)
qed

lemma lost_sorted:
  "sorted_wrt (\<lambda>x y. offset b0 x < offset b0 y) (map (\<lambda>r. b0 + of_nat r) (filter P [0..<128]))"
proof -
  have "sorted_wrt (\<lambda>x y. offset b0 (b0 + of_nat x) < offset b0 (b0 + of_nat y)) (filter P [0..<128])"
    by (rule sorted_wrt_mono_rel [of _ "(<)"]) (auto simp: offset_add sorted_wrt_filter simp del: of_nat_add)
  thus ?thesis by (simp only: sorted_wrt_map)
qed

lemma sorted_offset_distinct: "sorted_wrt (\<lambda>x y. offset b (f x) < offset b (f y)) xs \<Longrightarrow> distinct (map f xs)"
  by (induction xs) auto

lemma selected_lost:
  assumes ok: "group_ok g M b0 fecs c a" and all: "\<forall>f \<in> set fecs. all_protected f" and sel: "selected b0 fecs losses"
  shows "length (lost_index c a) \<le> length fecs"
    "length (lost_index c a) = length fecs \<Longrightarrow> group_losses b0 c a losses"
proof -
  let ?P = "\<lambda>p. bit c p \<and> \<not> bit a p"
  let ?L = "map (\<lambda>r. b0 + of_nat r) (filter ?P [0..<128])" and ?S = "map lp_seq losses"
  have len: "length ?L = length (lost_index c a)" using arg_cong [OF lost_positions [of c a], of length] by simp
  have srt: "sorted_wrt (\<lambda>x y. offset b0 x < offset b0 y) ?S" using sel by (simp add: selected_def sorted_wrt_map)
  have d: "distinct ?L" "distinct ?S"
    using sorted_offset_distinct [where f = "\<lambda>x. x"] lost_sorted [of b0 ?P] srt by (simp_all only: list.map_ident)
  have sub: "set ?L \<subseteq> set ?S"
  proof
    fix x assume "x \<in> set ?L"
    then obtain r where "x = b0 + of_nat r" "bit c r" "\<not> bit a r" by auto
    then obtain f where "f \<in> set fecs" "x \<in> set (missing f)" using lost_missing [OF ok all] by blast
    thus "x \<in> set ?S" using sel by (auto simp: selected_def)
  qed
  have "card (set ?L) \<le> card (set ?S)" using sub by (intro card_mono) auto
  thus "length (lost_index c a) \<le> length fecs"
    using sel len unfolding distinct_card [OF d(1)] distinct_card [OF d(2)] by (simp add: selected_def)
  assume e: "length (lost_index c a) = length fecs"
  have "card (set ?L) = card (set ?S)"
    using sel len e unfolding distinct_card [OF d(1)] distinct_card [OF d(2)] by (simp add: selected_def)
  hence "set ?S = set ?L" using card_subset_eq [OF _ sub] by simp
  thus "group_losses b0 c a losses"
    unfolding group_losses_def by (rule sorted_offset_unique [OF srt lost_sorted])
qed

context galois_field
begin

lemma group_matrix_length:
  assumes "group_ok gmul M b0 fecs c a" "group_matrix gmul gdiv b0 c a fecs = Some tab"
  shows "length tab = length (lost_index c a) * length (positions c)"
  using assms(2) skipped_matrix_cases [of "length fecs" "map base_byte fecs" "length (positions c)" "bits c" "bits a" "group_masks b0 fecs"]
  unfolding group_matrix_bytes [OF assms(1)] lost_index_def
  by (auto simp: eq_commute [of "Some tab"] split: if_splits)

lemma RecoverPacket_short:
  assumes ok: "group_ok gmul M b0 (f0 # fs) c a" and b0: "b0 = seq_num_base (fp_stream f0)"
    and sel: "selected b0 (f0 # fs) losses" and less: "length (lost_index c a) < length (f0 # fs)"
  shows "RecoverPacket gmul gdiv (f0 # fs) losses \<noteq> Inr (Some rs)"
proof
  let ?fs = "f0 # fs"
  assume R: "RecoverPacket gmul gdiv ?fs losses = Inr (Some rs)"
  have w: "group_window fs b0 (ucast (pkt_mask (fp_stream f0))) (ucast (pkt_arrive (fp_stream f0))) = Some (b0, c, a)"
    by (rule group_ok_window [OF ok b0])
  note m = group_matrix_def [of gmul gdiv b0 c a ?fs, unfolded positions_def]
  from R obtain tab dst where tab: "group_matrix gmul gdiv b0 c a ?fs = Some tab" and dst: "StartPacketRecovery ?fs = Some dst"
    by (auto simp: RecoverPacket_def Let_def w [unfolded b0] m [unfolded b0] b0 split: option.splits)
  let ?F = "\<lambda>i. if i \<ge> length losses then Inl OutOfBounds
      else case add_group gmul tab i (length (positions c)) (seq_num_To_id c) b0 c a ?fs losses (0, dst) of
             Inl e \<Rightarrow> Inl e | Inr d \<Rightarrow> Inr (lp_seq (losses ! i), lp_ssrc (losses ! i), d)"
  have "length (lost_index c a) * length (positions c) \<le> length fs * length (positions c)" using less by (intro mult_right_mono) auto
  hence "length tab \<le> length fs * length (positions c)" by (simp add: group_matrix_length [OF ok tab])
  moreover have "\<forall>l \<in> set losses. \<exists>r < 128. lp_seq l = b0 + of_nat r \<and> bit c r"
    using sel missing_window [OF ok] unfolding selected_def by blast
  moreover have "losses \<noteq> []" "length losses = Suc (length fs)" using sel by (auto simp: selected_def)
  ultimately obtain e where "?F (length fs) = Inl e"
    using add_group_beyond [of losses b0 c ?fs tab "length fs" "length (positions c)" gmul a "(0, dst)"] by auto
  hence "\<exists>e. map_result ?F [0..<length ?fs] = Inl e" by (intro map_result_Inl [of "length fs"]) auto
  then obtain e where e: "map_result ?F [0..<length ?fs] = Inl e" ..
  have "RecoverPacket gmul gdiv ?fs losses = Inl e"
    by (simp only: RecoverPacket_def list.case option.case prod.case Let_def sum.case b0 [symmetric] w
        positions_def [symmetric] tab [unfolded group_matrix_def] dst e)
  thus False using R by simp
qed

theorem RecoverPacket_genuine:
  assumes f: "\<forall>f \<in> set (f0 # fs). carries gmul M f \<and> all_protected f \<and> group_diff b0 f < 0x8000"
    and b0: "b0 = seq_num_base (fp_stream f0)" and sel: "selected b0 (f0 # fs) losses"
    and l: "\<forall>l \<in> set losses. lost_sent M l"
    and R: "RecoverPacket gmul gdiv (f0 # fs) losses = Inr (Some rs)"
  shows "rs = map (original M) losses"
proof (cases "\<exists>f \<in> set (f0 # fs). 96 < group_diff b0 f")
  case True
  have "group_diff b0 f0 = 0" by (simp add: group_diff_def offset_def b0)
  hence "\<exists>f \<in> set fs. 96 < group_diff b0 f" using True by auto
  hence "group_window fs b0 c a = None" for c a using f by (intro group_window_far) auto
  hence False using R by (simp add: RecoverPacket_def b0)
  thus ?thesis ..
next
  case False
  hence "\<forall>f \<in> set (f0 # fs). carries gmul M f \<and> group_diff b0 f \<le> 96" using f by force
  then obtain c a where ok: "group_ok gmul M b0 (f0 # fs) c a" using group_window_ok [OF _ b0] by metis
  have "\<forall>f \<in> set (f0 # fs). all_protected f" using f by blast
  note s = selected_lost [OF ok this sel]
  have "length (lost_index c a) = length (f0 # fs)"
    using s(1) RecoverPacket_short [OF ok b0 sel] R by (metis le_neq_implies_less)
  hence "group_losses b0 c a losses" by (rule s(2))
  moreover have "length losses = length (f0 # fs)" using sel by (simp add: selected_def)
  ultimately have "RecoverPacket gmul gdiv (f0 # fs) losses = Inr
      (if group_matrix gmul gdiv b0 c a (f0 # fs) = None \<or> StartPacketRecovery (f0 # fs) = None \<or>
          (\<exists>l \<in> set losses. length (M (lp_seq l)) > 1488)
       then None else Some (map (original M) losses))"
    by (rule RecoverPacket_original [OF ok b0 _ _ l])
  thus ?thesis using R by (simp split: if_splits)
qed

end

end
