(* ===== verification/RS_State.thy ===== *)
theory RS_State
  imports RS_Sound "HOL-Library.Sublist"
begin

text \<open>
  The state of the Reed-Solomon decoder over a session: the buffered parity packets and the packets
  considered lost refer to each other, and stay consistent with what was sent.
\<close>

subsection \<open>Sorted lists in a half window\<close>

definition sorted_window :: "u16 \<Rightarrow> ('a \<Rightarrow> u16) \<Rightarrow> 'a list \<Rightarrow> bool" where
  "sorted_window w k xs \<longleftrightarrow> (\<forall>x \<in> set xs. in_window w (k x)) \<and>
     sorted_wrt (\<lambda>x y. offset w (k x) < offset w (k y)) xs"

lemma sorted_window_distinct: "sorted_window w k xs \<Longrightarrow> distinct (map k xs)"
  unfolding sorted_window_def by (blast intro: sorted_offset_distinct)

lemma subseq_set: "subseq xs ys \<Longrightarrow> set xs \<subseteq> set ys"
  by (auto simp: subseq_conv_nths dest: in_set_nthsD)

lemma sorted_wrt_subseq: "subseq xs ys \<Longrightarrow> sorted_wrt P ys \<Longrightarrow> sorted_wrt P xs"
  by (induction rule: list_emb.induct) (auto dest: subseq_set)

lemma sorted_window_subseq: "subseq xs ys \<Longrightarrow> sorted_window w k ys \<Longrightarrow> sorted_window w k xs"
  unfolding sorted_window_def using subseq_set [of xs ys] by (auto intro: sorted_wrt_subseq)

lemma sorted_window_map [simp]: "sorted_window w k (map h xs) \<longleftrightarrow> sorted_window w (\<lambda>x. k (h x)) xs"
  by (simp add: sorted_window_def sorted_wrt_map)

lemma sorted_strict:
  "sorted_wrt (\<lambda>x y. offset w (k x) \<le> offset w (k y)) xs \<Longrightarrow> distinct (map k xs) \<Longrightarrow>
     sorted_wrt (\<lambda>x y. offset w (k x) < offset w (k y)) xs"
proof (induction xs)
  case (Cons x xs)
  have "offset w (k x) \<noteq> offset w (k y)" if "y \<in> set xs" for y
    using Cons.prems(2) that offset_inj [of w "k x" "k y"] by auto
  thus ?case using Cons by (auto simp: order_less_le)
qed simp

lemma sorted_window_sort:
  assumes "\<forall>x \<in> set xs. in_window w (k x)" "distinct (map k xs)"
    and "\<And>x y. lt x y \<longleftrightarrow> IsNewerSequenceNumber (k y) (k x)"
  shows "sorted_window w k (sort_by lt xs)"
proof -
  have "sorted_wrt (\<lambda>x y. offset w (k x) \<le> offset w (k y)) (sort_by lt xs)"
    using assms(1,3) by (intro sorted_sort_by) (simp add: IsNewer_window)
  thus ?thesis using assms(1,2) by (simp add: sorted_window_def sorted_strict)
qed

lemma lower_bound_window:
  fixes k :: "'a \<Rightarrow> u16"
  assumes xs: "sorted_window w k xs" and s: "in_window w s"
    and i: "i = lower_bound (\<lambda>x. IsNewerSequenceNumber s (k x)) xs 0 (length xs)"
  shows "i < length xs \<and> k (xs ! i) = s \<longleftrightarrow> s \<in> k ` set xs"
proof
  assume "s \<in> k ` set xs"
  then obtain j where j: "j < length xs" "k (xs ! j) = s" by (auto simp: in_set_conv_nth)
  have "IsNewerSequenceNumber s (k (xs ! a)) \<longleftrightarrow> a < j" if "a < length xs" for a
  proof -
    have "IsNewerSequenceNumber s (k (xs ! a)) \<longleftrightarrow> offset w (k (xs ! a)) < offset w (k (xs ! j))"
      using xs s that j by (simp add: sorted_window_def IsNewer_window)
    thus ?thesis
      using sorted_wrt_nth_less [OF conjunct2 [OF xs [unfolded sorted_window_def]]] that j(1)
      by (metis linorder_neqE_nat order_less_asym)
  qed
  hence "i = j" unfolding i using j(1) by (intro lower_bound_partition) auto
  thus "i < length xs \<and> k (xs ! i) = s" using j by simp
qed auto

text \<open>Sorting a sorted list changes nothing.\<close>

lemma merge_by_append: "\<forall>x \<in> set xs. \<forall>y \<in> set ys. \<not> lt y x \<Longrightarrow> merge_by lt xs ys = xs @ ys"
  by (induction lt xs ys rule: merge_by.induct) auto

lemma sort_by_sorted: "sorted_wrt (\<lambda>x y. \<not> lt y x) xs \<Longrightarrow> sort_by lt xs = xs"
proof (induction lt xs rule: sort_by.induct)
  case (1 lt xs)
  let ?n = "length xs div 2"
  have "sorted_wrt (\<lambda>x y. \<not> lt y x) (take ?n xs @ drop ?n xs)" using "1.prems" by simp
  hence "sorted_wrt (\<lambda>x y. \<not> lt y x) (take ?n xs)" "sorted_wrt (\<lambda>x y. \<not> lt y x) (drop ?n xs)"
    "\<forall>x \<in> set (take ?n xs). \<forall>y \<in> set (drop ?n xs). \<not> lt y x"
    unfolding sorted_wrt_append by auto
  thus ?case using "1.IH" by (simp add: sort_by.simps [of lt xs] merge_by_append)
qed

subsection \<open>The invariant\<close>

text \<open>
  All numbers of a session lie in the half window after \<open>w\<close>.  A parity packet sent later does not have
  an older base: \<open>bo\<close> gives the base of the parity packet with a sequence number.
\<close>

abbreviation protected_seqs :: "fec_packet \<Rightarrow> u16 set" where
  "protected_seqs f \<equiv> pp_seq ` set (fp_protected f)"

definition fec_inv :: "gf_op \<Rightarrow> (u16 \<Rightarrow> byte list) \<Rightarrow> u16 \<Rightarrow> (nat \<Rightarrow> nat) \<Rightarrow> fec_packet \<Rightarrow> bool" where
  "fec_inv g M w bo f \<longleftrightarrow> carries g M f \<and> all_protected f \<and> in_window w (fp_seq f) \<and>
     offset w (seq_num_base (fp_stream f)) = bo (offset w (fp_seq f)) \<and>
     offset w (seq_num_base (fp_stream f)) + 32 \<le> 0x8000"

text \<open>A parity packet all of whose weak pointers can be locked refers to exactly the packets it misses.\<close>

definition tracked :: "loss_packet list \<Rightarrow> fec_packet \<Rightarrow> bool" where
  "tracked cs f \<longleftrightarrow> (set (fp_maybe_loss f) \<subseteq> lp_id ` set cs \<longrightarrow>
     (\<exists>ls. set ls \<subseteq> set cs \<and> map lp_id ls = fp_maybe_loss f \<and> map lp_seq ls = missing f))"

definition linked :: "nat \<Rightarrow> fec_packet list \<Rightarrow> loss_packet list \<Rightarrow> bool" where
  "linked nid fecs cs \<longleftrightarrow> distinct (map fp_id fecs) \<and> distinct (map lp_id cs) \<and>
     (\<forall>f \<in> set fecs. fp_id f < nid \<and> (\<forall>i \<in> set (fp_maybe_loss f). i < nid) \<and> tracked cs f \<and>
        (\<forall>l \<in> set cs. (lp_id l \<in> set (fp_maybe_loss f) \<longrightarrow> fp_id f \<in> set (lp_refs l)) \<and>
           (fp_id f \<in> set (lp_refs l) \<longrightarrow> lp_seq l \<in> protected_seqs f))) \<and>
     (\<forall>l \<in> set cs. lp_id l < nid \<and> (\<forall>i \<in> set (lp_refs l). i < nid))"

definition decoder_inv :: "gf_op \<Rightarrow> (u16 \<Rightarrow> byte list) \<Rightarrow> u16 \<Rightarrow> (nat \<Rightarrow> nat) \<Rightarrow> rs_fec \<Rightarrow> bool" where
  "decoder_inv g M w bo st \<longleftrightarrow>
     (\<forall>f \<in> set (received_fec st). fec_inv g M w bo f) \<and> sorted_window w fp_seq (received_fec st) \<and>
     (\<forall>l \<in> set (consider_loss st). lost_sent M l) \<and> sorted_window w lp_seq (consider_loss st) \<and>
     linked (next_id st) (received_fec st) (consider_loss st)"

definition all_alive :: "rs_fec \<Rightarrow> bool" where
  "all_alive st \<longleftrightarrow> (\<forall>f \<in> set (received_fec st). set (fp_maybe_loss f) \<subseteq> lp_id ` set (consider_loss st))"

lemma distinct_key: "distinct (map k xs) \<Longrightarrow> x \<in> set xs \<Longrightarrow> y \<in> set xs \<Longrightarrow> k x = k y \<Longrightarrow> x = y"
  by (auto simp: distinct_map dest: inj_onD)

lemma tracked_sub:
  assumes "tracked cs f" "distinct (map lp_id cs)" "set cs' \<subseteq> set cs"
  shows "tracked cs' f"
  unfolding tracked_def
proof
  assume a: "set (fp_maybe_loss f) \<subseteq> lp_id ` set cs'"
  hence "set (fp_maybe_loss f) \<subseteq> lp_id ` set cs" using assms(3) by blast
  then obtain ls where ls: "set ls \<subseteq> set cs" "map lp_id ls = fp_maybe_loss f" "map lp_seq ls = missing f"
    using assms(1) unfolding tracked_def by blast
  have "set ls \<subseteq> set cs'"
  proof
    fix l assume l: "l \<in> set ls"
    hence "lp_id l \<in> lp_id ` set cs'" using a ls(2) by (metis in_set_conv_nth length_map nth_map subsetD nth_mem)
    then obtain l' where "l' \<in> set cs'" "lp_id l' = lp_id l" by auto
    thus "l \<in> set cs'" using distinct_key [OF assms(2), of l' l] l ls(1) assms(3) by auto
  qed
  thus "\<exists>ls. set ls \<subseteq> set cs' \<and> map lp_id ls = fp_maybe_loss f \<and> map lp_seq ls = missing f" using ls by blast
qed

lemma distinct_map_subseq: "subseq xs ys \<Longrightarrow> distinct (map k ys) \<Longrightarrow> distinct (map k xs)"
  by (metis subseq_map subseqs_distinctD in_set_subseqs)

lemma linked_sub:
  assumes "linked nid fecs cs" "subseq fecs' fecs" "subseq cs' cs"
  shows "linked nid fecs' cs'"
proof -
  note sub = subseq_set [OF assms(2)] subseq_set [OF assms(3)]
  have d: "distinct (map lp_id cs)" and t: "\<And>f. f \<in> set fecs \<Longrightarrow> tracked cs f"
    using assms(1) by (auto simp: linked_def)
  have "tracked cs' f" if "f \<in> set fecs'" for f
    by (rule tracked_sub [OF t d sub(2)]) (use that sub in blast)
  thus ?thesis
    using assms(1) sub distinct_map_subseq [OF assms(2), of fp_id] distinct_map_subseq [OF assms(3), of lp_id]
    unfolding linked_def by blast
qed

lemma decoder_inv_sub:
  assumes "decoder_inv g M w bo st" "subseq fecs (received_fec st)" "subseq cs (consider_loss st)"
  shows "decoder_inv g M w bo (st\<lparr>received_fec := fecs, consider_loss := cs\<rparr>)"
  using assms subseq_set [OF assms(2)] subseq_set [OF assms(3)] linked_sub [OF _ assms(2,3)]
    sorted_window_subseq [OF assms(2), of w fp_seq] sorted_window_subseq [OF assms(3), of w lp_seq]
  unfolding decoder_inv_def by auto

lemma offset_plus:
  assumes "offset w b + i < 65536"
  shows "offset w (b + of_nat i) = offset w b + i"
proof -
  have "b + of_nat i = w + of_nat (offset w b + i)" by (simp add: offset_def)
  thus ?thesis by (simp only: offset_add [OF assms])
qed

text \<open>The protected packets of one parity packet lie close together.\<close>

lemma protected_seq:
  assumes "fec_inv g M w bo f" "s \<in> protected_seqs f"
  shows "\<exists>i < 32. bit (pkt_mask (fp_stream f)) i \<and> s = seq_num_base (fp_stream f) + of_nat i \<and>
     offset w s = offset w (seq_num_base (fp_stream f)) + i \<and> in_window w s"
proof -
  from assms(2) obtain p where p: "p \<in> set (fp_protected f)" "s = pp_seq p" by auto
  have c: "carries g M f" and o: "offset w (seq_num_base (fp_stream f)) + 32 \<le> 0x8000"
    using assms(1) by (simp_all add: fec_inv_def)
  from carriesD(7) [OF c p(1)] obtain i where i: "bit (pkt_mask (fp_stream f)) i"
    "pp_seq p = seq_num_base (fp_stream f) + of_nat i" by blast
  have i32: "i < 32" using bit_imp_le_length [OF i(1)] by simp
  let ?b = "seq_num_base (fp_stream f)"
  have "offset w s = offset w ?b + i" using o i32 offset_plus [of w ?b i] by (simp add: i(2) p(2))
  thus ?thesis using i i32 p(2) o by (auto simp: in_window_def)
qed

lemma MinDiff_window:
  assumes "in_window w a" "in_window w b"
  shows "unat (MinDiff a b) = (if offset w a \<le> offset w b then offset w b - offset w a else offset w a - offset w b)"
proof (cases "offset w a \<le> offset w b")
  case True
  thus ?thesis using MinDiff_offset [of w a b] assms by (simp add: in_window_def)
next
  case False
  thus ?thesis using MinDiff_offset [of w b a] assms MinDiff_commute [of a b] by (simp add: in_window_def)
qed

lemma protected_near:
  assumes "fec_inv g M w bo f" "s \<in> protected_seqs f" "t \<in> protected_seqs f"
  shows "unat (MinDiff s t) < 32"
proof -
  obtain i j where "i < 32" "offset w s = offset w (seq_num_base (fp_stream f)) + i" "in_window w s"
    "j < 32" "offset w t = offset w (seq_num_base (fp_stream f)) + j" "in_window w t"
    using protected_seq [OF assms(1,2)] protected_seq [OF assms(1,3)] by blast
  thus ?thesis using MinDiff_window [of w s t] by auto
qed

lemma sorted_protected:
  assumes "fec_inv g M w bo f"
  shows "sorted_window w pp_seq (fp_protected f)"
proof -
  let ?b = "seq_num_base (fp_stream f)"
  have o: "offset w ?b + 32 \<le> 0x8000" and a: "all_protected f" using assms by (simp_all add: fec_inv_def)
  have e: "offset w (?b + of_nat i) = offset w ?b + i" if "i < 32" for i
    by (rule offset_plus) (use o that in simp)
  have "sorted_wrt (\<lambda>i j. offset w (?b + of_nat i) < offset w (?b + of_nat j)) (filter (bit (pkt_mask (fp_stream f))) [0..<32])"
    by (rule sorted_wrt_mono_rel [of _ "(<)"]) (simp_all add: e sorted_wrt_filter)
  hence "sorted_wrt (\<lambda>x y. offset w x < offset w y) (map pp_seq (fp_protected f))"
    unfolding a [unfolded all_protected_def] sorted_wrt_map .
  hence "sorted_wrt (\<lambda>x y. offset w (pp_seq x) < offset w (pp_seq y)) (fp_protected f)"
    unfolding sorted_wrt_map .
  thus ?thesis using protected_seq [OF assms] by (auto simp: sorted_window_def)
qed

lemma missing_protected: "set (missing f) \<subseteq> protected_seqs f"
  by (auto simp: missing_def)

end
