(* ===== verification/RS_Arrival.thy ===== *)
theory RS_Arrival
  imports RS_State
begin

text \<open>
  A media packet arrives, or is recovered: the parity packets that protect it learn about it, and
  it is no longer considered lost.
\<close>

lemma set_bit_u32: "bit (set_bit i m) j \<longleftrightarrow> bit (m :: u32) j \<or> j = i \<and> i < 32"
  by (auto simp: bit_set_bit_iff)

lemma map_update_key:
  assumes "distinct (map k xs)" "i < length xs"
  shows "xs[i := h (xs ! i)] = map (\<lambda>x. if k x = k (xs ! i) then h x else x) xs"
  using assms by (intro nth_equalityI) (auto simp: nth_list_update distinct_conv_nth)

lemma update_covering_eq:
  assumes f: "fec_inv g M w bo f" and s: "in_window w (rp_seq r)"
  shows "rp_seq r \<notin> protected_seqs f \<Longrightarrow> update_covering r f = f"
    "rp_seq r = seq_num_base (fp_stream f) + of_nat i \<Longrightarrow> bit (pkt_mask (fp_stream f)) i \<Longrightarrow> update_covering r f =
       f\<lparr>fp_protected := map (\<lambda>p. if pp_seq p = rp_seq r then p\<lparr>pp_pkt := Some (rp_pkt r)\<rparr> else p) (fp_protected f),
         fp_stream := (fp_stream f)\<lparr>pkt_arrive := set_bit i (pkt_arrive (fp_stream f))\<rparr>\<rparr>"
proof -
  let ?ps = "fp_protected f" and ?s = "rp_seq r" and ?b = "seq_num_base (fp_stream f)"
  define k where "k = lower_bound (\<lambda>p. IsNewerSequenceNumber ?s (pp_seq p)) ?ps 0 (length ?ps)"
  note lb = lower_bound_window [OF sorted_protected [OF f] s k_def]
  show "update_covering r f = f" if "?s \<notin> protected_seqs f"
    using lb that by (auto simp: update_covering_def Let_def simp flip: k_def)
  assume i: "?s = ?b + of_nat i" "bit (pkt_mask (fp_stream f)) i"
  have i32: "i < 32" using bit_imp_le_length [OF i(2)] by simp
  have "?s \<in> set (map pp_seq ?ps)" using f i i32 unfolding fec_inv_def all_protected_def by auto
  hence k: "k < length ?ps" "pp_seq (?ps ! k) = ?s" using lb by auto
  have "unat (MinDiff ?b ?s) = i" unfolding i(1) using MinDiff_base [of ?b "?b + of_nat i"] i32 by (simp add: offset_add)
  hence "unat (MinDiff ?s ?b) = i" by (simp only: MinDiff_commute [of ?s ?b])
  moreover have "?ps[k := (?ps ! k)\<lparr>pp_pkt := Some (rp_pkt r)\<rparr>] =
      map (\<lambda>p. if pp_seq p = ?s then p\<lparr>pp_pkt := Some (rp_pkt r)\<rparr> else p) ?ps"
    using map_update_key [OF sorted_window_distinct [OF sorted_protected [OF f]] k(1),
        of "\<lambda>p. p\<lparr>pp_pkt := Some (rp_pkt r)\<rparr>"] k(2) by simp
  ultimately show "update_covering r f =
      f\<lparr>fp_protected := map (\<lambda>p. if pp_seq p = ?s then p\<lparr>pp_pkt := Some (rp_pkt r)\<rparr> else p) ?ps,
        fp_stream := (fp_stream f)\<lparr>pkt_arrive := set_bit i (pkt_arrive (fp_stream f))\<rparr>\<rparr>"
    using k by (simp add: update_covering_def Let_def flip: k_def)
qed

text \<open>A packet of the sender.\<close>

definition genuine :: "(u16 \<Rightarrow> byte list) \<Rightarrow> u16 \<Rightarrow> recovered_packet \<Rightarrow> bool" where
  "genuine M w r \<longleftrightarrow> in_window w (rp_seq r) \<and> rp_pkt r = M (rp_seq r)"

lemma update_covering_protected: "map pp_seq (fp_protected (update_covering r f)) = map pp_seq (fp_protected f)"
  by (simp add: update_covering_def Let_def map_update list_update_same_conv)

lemma update_covering_simps [simp]:
  "fp_id (update_covering r f) = fp_id f" "fp_seq (update_covering r f) = fp_seq f"
  "fp_maybe_loss (update_covering r f) = fp_maybe_loss f" "protected_seqs (update_covering r f) = protected_seqs f"
  "seq_num_base (fp_stream (update_covering r f)) = seq_num_base (fp_stream f)"
  "pkt_mask (fp_stream (update_covering r f)) = pkt_mask (fp_stream f)"
  using arg_cong [OF update_covering_protected [of r f], of set]
  by (simp_all add: update_covering_def Let_def)

lemma update_covering_missing:
  assumes f: "fec_inv g M w bo f" and s: "in_window w (rp_seq r)"
  shows "missing (update_covering r f) = filter (\<lambda>s. s \<noteq> rp_seq r) (missing f)"
proof (cases "rp_seq r \<in> protected_seqs f")
  case False
  hence "rp_seq r \<notin> set (missing f)" using missing_protected by blast
  hence "filter (\<lambda>s. s \<noteq> rp_seq r) (missing f) = missing f" by (intro filter_True) auto
  thus ?thesis using update_covering_eq(1) [OF f s False] by simp
next
  case True
  then obtain i where i: "bit (pkt_mask (fp_stream f)) i" "rp_seq r = seq_num_base (fp_stream f) + of_nat i"
    using protected_seq [OF f] by blast
  have "map pp_seq (filter (\<lambda>p. pp_pkt p = None) (map (\<lambda>p. if pp_seq p = rp_seq r then p\<lparr>pp_pkt := Some (rp_pkt r)\<rparr> else p) ps)) =
      filter (\<lambda>s. s \<noteq> rp_seq r) (map pp_seq (filter (\<lambda>p. pp_pkt p = None) ps))" for ps
    by (induction ps) auto
  thus ?thesis by (simp add: update_covering_eq(2) [OF f s i(2,1)] missing_def)
qed

lemma carries_update:
  assumes "carries g M f" "seq_num_base (fp_stream f') = seq_num_base (fp_stream f)"
    "pkt_mask (fp_stream f') = pkt_mask (fp_stream f)" "cur_base_num (fp_stream f') = cur_base_num (fp_stream f)"
    "fp_header_size f' = fp_header_size f" "fp_pkt f' = fp_pkt f"
    and "\<And>p. p \<in> set (fp_protected f') \<Longrightarrow> \<exists>j. bit (pkt_mask (fp_stream f)) j \<and>
      pp_seq p = seq_num_base (fp_stream f) + of_nat j \<and>
      pp_pkt p = (if bit (pkt_arrive (fp_stream f')) j then Some (M (pp_seq p)) else None)"
    and "\<And>j. bit (pkt_arrive (fp_stream f')) j \<Longrightarrow> bit (pkt_mask (fp_stream f)) j \<and>
      (\<exists>p \<in> set (fp_protected f'). pp_seq p = seq_num_base (fp_stream f) + of_nat j)"
  shows "carries g M f'"
  using assms unfolding carries_def Let_def base_byte_def assms(2-6) by blast

lemma update_covering_inv:
  assumes f: "fec_inv g M w bo f" and r: "genuine M w r"
  shows "fec_inv g M w bo (update_covering r f)"
proof (cases "rp_seq r \<in> protected_seqs f")
  case False
  thus ?thesis using update_covering_eq(1) [OF f _ False] f r by (simp add: genuine_def)
next
  case True
  then obtain i where i: "bit (pkt_mask (fp_stream f)) i" "rp_seq r = seq_num_base (fp_stream f) + of_nat i" "i < 32"
    using protected_seq [OF f] by blast
  have r': "in_window w (rp_seq r)" "rp_pkt r = M (rp_seq r)" using r by (simp_all add: genuine_def)
  note e = update_covering_eq(2) [OF f r'(1) i(2,1)]
  have c: "carries g M f" using f by (simp add: fec_inv_def)
  have same: "j = i" if "seq_num_base (fp_stream f) + of_nat j = rp_seq r" "bit (pkt_mask (fp_stream f)) j" for j
  proof -
    have l: "i < 128" "j < 128" using i(3) bit_imp_le_length [OF that(2)] by simp_all
    have "seq_num_base (fp_stream f) + of_nat i = seq_num_base (fp_stream f) + of_nat j" using that(1) i(2) by (simp only:)
    thus ?thesis by (simp only: window_pos_eq [OF l])
  qed
  have prot: "\<exists>j. bit (pkt_mask (fp_stream f)) j \<and> pp_seq p = seq_num_base (fp_stream f) + of_nat j \<and>
      pp_pkt p = (if bit (set_bit i (pkt_arrive (fp_stream f))) j then Some (M (pp_seq p)) else None)"
    if p: "p \<in> (\<lambda>p. if pp_seq p = rp_seq r then p\<lparr>pp_pkt := Some (rp_pkt r)\<rparr> else p) ` set (fp_protected f)" for p
  proof -
    obtain p0 where p0: "p0 \<in> set (fp_protected f)" "p = (if pp_seq p0 = rp_seq r then p0\<lparr>pp_pkt := Some (rp_pkt r)\<rparr> else p0)"
      using p by blast
    obtain j where j: "bit (pkt_mask (fp_stream f)) j" "pp_seq p0 = seq_num_base (fp_stream f) + of_nat j"
      "pp_pkt p0 = (if bit (pkt_arrive (fp_stream f)) j then Some (M (pp_seq p0)) else None)"
      using carriesD(7) [OF c p0(1)] by blast
    have "pp_seq p = pp_seq p0" using p0(2) by simp
    moreover have "pp_pkt p = (if bit (set_bit i (pkt_arrive (fp_stream f))) j then Some (M (pp_seq p)) else None)"
      using same [of j] j i(2,3) p0(2) r'(2) unfolding set_bit_u32 by (cases "pp_seq p0 = rp_seq r") auto
    ultimately show ?thesis using j(1,2) by auto
  qed
  have arr: "bit (pkt_mask (fp_stream f)) j \<and> (\<exists>p \<in> set (fp_protected (update_covering r f)). pp_seq p = seq_num_base (fp_stream f) + of_nat j)"
    if "bit (set_bit i (pkt_arrive (fp_stream f))) j" for j
  proof -
    have "seq_num_base (fp_stream f) + of_nat j \<in> protected_seqs f \<and> bit (pkt_mask (fp_stream f)) j"
      using that carriesD(8) [OF c, of j] i(1,2) True unfolding set_bit_u32 by force
    hence "seq_num_base (fp_stream f) + of_nat j \<in> protected_seqs (update_covering r f) \<and> bit (pkt_mask (fp_stream f)) j" by simp
    thus ?thesis by force
  qed
  have "carries g M (update_covering r f)"
    by (rule carries_update [OF c]) (use prot arr in \<open>simp_all add: e\<close>)
  thus ?thesis using f update_covering_protected [of r f] by (simp add: fec_inv_def all_protected_def)
qed

subsection \<open>Weak pointers\<close>

lemma find_key: "distinct (map k xs) \<Longrightarrow> x \<in> set xs \<Longrightarrow> find (\<lambda>y. k y = k x) (xs @ ys) = Some x"
  by (induction xs) (auto dest: distinct_key)

lemma lock_loss_alive:
  "distinct (map lp_id (consider_loss st)) \<Longrightarrow> l \<in> set (consider_loss st) \<Longrightarrow> lock_loss st held (lp_id l) = Some l"
  by (simp add: lock_loss_def find_key)

lemma erase_loss_map:
  "\<forall>l \<in> set ls. lock_loss st held (lp_id l) = Some l \<Longrightarrow> distinct (map lp_seq ls) \<Longrightarrow>
     erase_loss st held s (map lp_id ls) = map lp_id (filter (\<lambda>l. lp_seq l \<noteq> s) ls)"
proof (induction ls)
  case (Cons l ls)
  show ?case
  proof (cases "lp_seq l = s")
    case True
    hence "filter (\<lambda>l. lp_seq l \<noteq> s) ls = ls" using Cons.prems(2) by (intro filter_True) (metis distinct.simps(2) image_eqI list.simps(9) set_map)
    thus ?thesis using Cons.prems True by simp
  qed (use Cons in simp)
qed simp

text \<open>What becomes of the list of pointers of a parity packet.\<close>

definition pointers_after :: "rs_fec \<Rightarrow> loss_packet list \<Rightarrow> u16 \<Rightarrow> fec_packet \<Rightarrow> nat list" where
  "pointers_after st held s f =
     (if \<exists>l \<in> set (consider_loss st). lp_seq l = s \<and> fp_id f \<in> set (lp_refs l)
      then erase_loss st held s (DeleteUnavailableLoss st held (fp_maybe_loss f)) else fp_maybe_loss f)"

lemma filter_neq: "a \<notin> k ` set xs \<Longrightarrow> filter (\<lambda>x. k x \<noteq> a) xs = xs"
  by (induction xs) auto

lemma remove_nth_key:
  assumes "distinct (map k xs)" "i < length xs"
  shows "take i xs @ drop (Suc i) xs = filter (\<lambda>x. k x \<noteq> k (xs ! i)) xs"
proof -
  have e: "xs = take i xs @ xs ! i # drop (Suc i) xs" using assms(2) by (rule id_take_nth_drop)
  have "k (xs ! i) \<notin> k ` set (take i xs)" "k (xs ! i) \<notin> k ` set (drop (Suc i) xs)"
    using assms(1) by (subst (asm) e, simp del: append_take_drop_id)+
  hence "filter (\<lambda>x. k x \<noteq> k (xs ! i)) (take i xs @ xs ! i # drop (Suc i) xs) = take i xs @ drop (Suc i) xs"
    by (simp add: filter_neq)
  thus ?thesis using e by simp
qed

lemma UpdateMaybeLoss_eq:
  assumes cs: "sorted_window w lp_seq (consider_loss st)" and s: "in_window w (rp_seq r)"
  shows "UpdateMaybeLossPackets held r st =
     st\<lparr>received_fec := map (\<lambda>f. f\<lparr>fp_maybe_loss := pointers_after st held (rp_seq r) f\<rparr>) (received_fec st),
        consider_loss := filter (\<lambda>l. lp_seq l \<noteq> rp_seq r) (consider_loss st)\<rparr>"
proof -
  let ?cs = "consider_loss st" and ?s = "rp_seq r"
  define i where "i = lower_bound (\<lambda>c. IsNewerSequenceNumber ?s (lp_seq c)) ?cs 0 (length ?cs)"
  note lb = lower_bound_window [OF cs s i_def]
  note d = sorted_window_distinct [OF cs]
  show ?thesis
  proof (cases "?s \<in> lp_seq ` set ?cs")
    case True
    hence i: "i < length ?cs" "lp_seq (?cs ! i) = ?s" using lb by auto
    have "(\<exists>l \<in> set ?cs. lp_seq l = ?s \<and> fp_id f \<in> set (lp_refs l)) \<longleftrightarrow> fp_id f \<in> set (lp_refs (?cs ! i))" for f
      using i nth_mem [OF i(1)] distinct_key [OF d, of "?cs ! i"] by metis
    hence "(\<lambda>f. f\<lparr>fp_maybe_loss := pointers_after st held ?s f\<rparr>) f = (if fp_id f \<in> set (DeleteUnavailableFec st (lp_refs (?cs ! i)))
        then f\<lparr>fp_maybe_loss := erase_loss st held ?s (DeleteUnavailableLoss st held (fp_maybe_loss f))\<rparr> else f)"
      if "f \<in> set (received_fec st)" for f
      using that by (auto simp: pointers_after_def DeleteUnavailableFec_def fec_alive_def)
    thus ?thesis
      using i remove_nth_key [OF d i(1)]
      by (simp add: UpdateMaybeLossPackets_def Let_def flip: i_def cong: map_cong)
  next
    case False
    hence "\<not> (i < length ?cs \<and> lp_seq (?cs ! i) = ?s)" using lb by simp
    moreover have "filter (\<lambda>l. lp_seq l \<noteq> ?s) ?cs = ?cs" by (rule filter_neq [OF False])
    moreover have "pointers_after st held ?s f = fp_maybe_loss f" for f
      using False unfolding pointers_after_def by (metis image_eqI)
    ultimately show ?thesis by (auto simp: UpdateMaybeLossPackets_def Let_def simp flip: i_def cong: map_cong)
  qed
qed

subsection \<open>Arrival keeps the invariant\<close>

definition arrive :: "loss_packet list \<Rightarrow> recovered_packet \<Rightarrow> rs_fec \<Rightarrow> rs_fec" where
  "arrive held r st = UpdateMaybeLossPackets held r (UpdateCoveringFecPackets r st)"

lemma linkedD:
  assumes "linked nid fecs cs" "f \<in> set fecs" "l \<in> set cs"
  shows "lp_id l \<in> set (fp_maybe_loss f) \<Longrightarrow> fp_id f \<in> set (lp_refs l)"
    "fp_id f \<in> set (lp_refs l) \<Longrightarrow> lp_seq l \<in> protected_seqs f"
  using assms unfolding linked_def by auto

lemma pointers_after_alive:
  assumes l: "linked nid fecs (consider_loss st)" "f \<in> set fecs" and cs: "distinct (map lp_seq (consider_loss st))"
    and ls: "set ls \<subseteq> set (consider_loss st)" "map lp_id ls = fp_maybe_loss f" "map lp_seq ls = missing f"
    and d: "distinct (missing f)"
  shows "pointers_after st held s f = map lp_id (filter (\<lambda>l. lp_seq l \<noteq> s) ls)"
proof (cases "\<exists>l \<in> set (consider_loss st). lp_seq l = s \<and> fp_id f \<in> set (lp_refs l)")
  case True
  have lk: "\<forall>l \<in> set ls. lock_loss st held (lp_id l) = Some l"
    using l ls(1) by (auto simp: linked_def intro: lock_loss_alive)
  have "DeleteUnavailableLoss st held (fp_maybe_loss f) = map lp_id ls"
    unfolding DeleteUnavailableLoss_def ls(2) [symmetric] by (rule filter_True) (use lk in auto)
  thus ?thesis using True erase_loss_map [OF lk] ls(3) d by (simp add: pointers_after_def)
next
  case False
  have "lp_seq x \<noteq> s" if "x \<in> set ls" for x
  proof -
    have "lp_id x \<in> set (fp_maybe_loss f)" using that by (simp flip: ls(2))
    hence "fp_id f \<in> set (lp_refs x)" using l that ls(1) unfolding linked_def by blast
    thus ?thesis using False that ls(1) by blast
  qed
  hence "filter (\<lambda>l. lp_seq l \<noteq> s) ls = ls" by (intro filter_True) auto
  thus ?thesis unfolding pointers_after_def if_not_P [OF False] by (simp add: ls(2))
qed

lemma missing_distinct: "fec_inv g M w bo f \<Longrightarrow> distinct (missing f)"
  unfolding missing_def by (intro distinct_map_filter sorted_window_distinct sorted_protected)

lemma missing_pointers [simp]: "missing (f\<lparr>fp_maybe_loss := is\<rparr>) = missing f"
  by (simp add: missing_def)

lemma pointers_after_covering: "pointers_after (UpdateCoveringFecPackets r st) held s (update_covering r f) = pointers_after st held s f"
proof -
  have lk: "lock_loss (UpdateCoveringFecPackets r st) held i = lock_loss st held i" for i
    by (simp add: lock_loss_def UpdateCoveringFecPackets_def)
  have er: "erase_loss (UpdateCoveringFecPackets r st) held s is = erase_loss st held s is" for "is"
    by (induction "is") (simp_all add: lk split: option.split)
  have "consider_loss (UpdateCoveringFecPackets r st) = consider_loss st" by (simp add: UpdateCoveringFecPackets_def)
  thus ?thesis by (simp only: pointers_after_def DeleteUnavailableLoss_def lk er update_covering_simps)
qed

lemma arrival_fec:
  assumes inv: "decoder_inv g M w bo st" and f: "f \<in> set (received_fec st)" and s: "in_window w (rp_seq r)"
    and near: "rp_seq r \<in> protected_seqs f \<Longrightarrow> set (fp_maybe_loss f) \<subseteq> lp_id ` set (consider_loss st)"
    and ids: "ids = pointers_after st held (rp_seq r) f"
    and cs': "cs' = filter (\<lambda>l. lp_seq l \<noteq> rp_seq r) (consider_loss st)"
  shows "tracked cs' ((update_covering r f)\<lparr>fp_maybe_loss := ids\<rparr>)" "set ids \<subseteq> set (fp_maybe_loss f)"
    "set (fp_maybe_loss f) \<subseteq> lp_id ` set (consider_loss st) \<Longrightarrow> set ids \<subseteq> lp_id ` set cs'"
proof -
  let ?cs = "consider_loss st" and ?f = "update_covering r f"
  have link: "linked (next_id st) (received_fec st) ?cs" and fi: "fec_inv g M w bo f"
    and cs: "distinct (map lp_seq ?cs)"
    using inv f sorted_window_distinct by (auto simp: decoder_inv_def)
  have t: "tracked ?cs f" "distinct (map lp_id ?cs)" using link f by (auto simp: linked_def)
  have "tracked cs' (?f\<lparr>fp_maybe_loss := ids\<rparr>) \<and> set ids \<subseteq> set (fp_maybe_loss f) \<and>
    (set (fp_maybe_loss f) \<subseteq> lp_id ` set ?cs \<longrightarrow> set ids \<subseteq> lp_id ` set cs')"
  proof (cases "set (fp_maybe_loss f) \<subseteq> lp_id ` set ?cs")
    case True
    then obtain ls where ls: "set ls \<subseteq> set ?cs" "map lp_id ls = fp_maybe_loss f" "map lp_seq ls = missing f"
      using t(1) by (auto simp: tracked_def)
    let ?ls = "filter (\<lambda>l. lp_seq l \<noteq> rp_seq r) ls"
    have e: "ids = map lp_id ?ls"
      unfolding ids by (rule pointers_after_alive [OF link f cs ls missing_distinct [OF fi]])
    have m: "map lp_seq ?ls = missing (?f\<lparr>fp_maybe_loss := ids\<rparr>)"
      by (simp add: update_covering_missing [OF fi s] filter_map comp_def flip: ls(3))
    have sub: "set ?ls \<subseteq> set cs'" using ls(1) by (auto simp: cs')
    hence "tracked cs' (?f\<lparr>fp_maybe_loss := ids\<rparr>)" unfolding tracked_def
      by (intro impI exI [of _ ?ls] conjI m) (simp_all add: e)
    moreover have "set ids \<subseteq> set (fp_maybe_loss f)" unfolding e ls(2) [symmetric] by auto
    ultimately show ?thesis using sub e by auto
  next
    case False
    hence s': "rp_seq r \<notin> protected_seqs f" using near by blast
    have "\<not> (\<exists>l \<in> set ?cs. lp_seq l = rp_seq r \<and> fp_id f \<in> set (lp_refs l))"
      using linkedD(2) [OF link f] s' by metis
    hence e: "ids = fp_maybe_loss f" unfolding ids pointers_after_def by (rule if_not_P)
    have "?f = f" by (rule update_covering_eq(1) [OF fi s s'])
    note e = e this
    have "tracked cs' f" by (rule tracked_sub [OF t]) (auto simp: cs')
    thus ?thesis using e False by simp
  qed
  thus "tracked cs' (?f\<lparr>fp_maybe_loss := ids\<rparr>)" "set ids \<subseteq> set (fp_maybe_loss f)"
    "set (fp_maybe_loss f) \<subseteq> lp_id ` set ?cs \<Longrightarrow> set ids \<subseteq> lp_id ` set cs'" by blast+
qed

lemma fec_inv_pointers [simp]: "fec_inv g M w bo (f\<lparr>fp_maybe_loss := is\<rparr>) = fec_inv g M w bo f"
proof -
  have "fp_stream (f\<lparr>fp_maybe_loss := is\<rparr>) = fp_stream f" "fp_protected (f\<lparr>fp_maybe_loss := is\<rparr>) = fp_protected f"
    "fp_pkt (f\<lparr>fp_maybe_loss := is\<rparr>) = fp_pkt f" "fp_seq (f\<lparr>fp_maybe_loss := is\<rparr>) = fp_seq f"
    "fp_header_size (f\<lparr>fp_maybe_loss := is\<rparr>) = fp_header_size f" by simp_all
  thus ?thesis by (simp only: fec_inv_def carries_def all_protected_def base_byte_def)
qed

lemma arrive_eq:
  assumes "decoder_inv g M w bo st" "in_window w (rp_seq r)"
  shows "arrive held r st =
    st\<lparr>received_fec := map (\<lambda>f. (update_covering r f)\<lparr>fp_maybe_loss := pointers_after st held (rp_seq r) f\<rparr>) (received_fec st),
       consider_loss := filter (\<lambda>l. lp_seq l \<noteq> rp_seq r) (consider_loss st)\<rparr>"
proof -
  have c: "sorted_window w lp_seq (consider_loss (UpdateCoveringFecPackets r st))"
    using assms(1) by (simp add: decoder_inv_def UpdateCoveringFecPackets_def)
  show ?thesis
    unfolding arrive_def UpdateMaybeLoss_eq [OF c assms(2)]
    using pointers_after_covering [of r st held "rp_seq r"]
    by (simp add: UpdateCoveringFecPackets_def comp_def)
qed

lemma arrive_inv:
  assumes inv: "decoder_inv g M w bo st" and r: "genuine M w r"
    and near: "\<forall>f \<in> set (received_fec st). rp_seq r \<in> protected_seqs f \<longrightarrow>
      set (fp_maybe_loss f) \<subseteq> lp_id ` set (consider_loss st)"
  shows "decoder_inv g M w bo (arrive held r st)" "all_alive st \<Longrightarrow> all_alive (arrive held r st)"
    "map fp_seq (received_fec (arrive held r st)) = map fp_seq (received_fec st)"
proof -
  let ?cs = "consider_loss st" and ?fs = "received_fec st"
  let ?A = "\<lambda>f. (update_covering r f)\<lparr>fp_maybe_loss := pointers_after st held (rp_seq r) f\<rparr>"
  define cs' where "cs' = filter (\<lambda>l. lp_seq l \<noteq> rp_seq r) ?cs"
  have s: "in_window w (rp_seq r)" using r by (simp add: genuine_def)
  note e = arrive_eq [OF inv s, of held]
  have F: "tracked cs' (?A f)" "set (pointers_after st held (rp_seq r) f) \<subseteq> set (fp_maybe_loss f)"
    "set (fp_maybe_loss f) \<subseteq> lp_id ` set ?cs \<Longrightarrow> set (pointers_after st held (rp_seq r) f) \<subseteq> lp_id ` set cs'"
    if "f \<in> set ?fs" for f
    using arrival_fec [OF inv that s _ refl cs'_def] near that by blast+
  have link: "linked (next_id st) ?fs ?cs" using inv by (simp add: decoder_inv_def)
  have sub: "subseq cs' ?cs" "set cs' \<subseteq> set ?cs" by (auto simp: cs'_def)
  have "linked (next_id st) (map ?A ?fs) cs'"
    using link F(1,2) sub(2) distinct_map_subseq [OF sub(1), of lp_id]
    unfolding linked_def by (simp add: comp_def) blast
  moreover have "\<forall>f \<in> set ?fs. fec_inv g M w bo (?A f)"
    using inv update_covering_inv [OF _ r] by (simp add: decoder_inv_def)
  ultimately show "decoder_inv g M w bo (arrive held r st)"
    using inv sub sorted_window_subseq [OF sub(1), of w lp_seq]
    unfolding decoder_inv_def e by (auto simp flip: cs'_def)
  show "all_alive (arrive held r st)" if "all_alive st"
    using that F(3) unfolding all_alive_def e by (simp flip: cs'_def)
  show "map fp_seq (received_fec (arrive held r st)) = map fp_seq (received_fec st)"
    unfolding e by (simp add: comp_def)
qed

end
