(* ===== verification/RS_Insert.thy ===== *)
theory RS_Insert
  imports RS_Arrival
begin

text \<open>
  Inserting a parity packet: the packets it protects are matched with those that have arrived, and
  the others are merged into the list of packets considered lost.
\<close>

subsection \<open>Matching with the packets that have arrived\<close>

definition assigned :: "(u16 \<Rightarrow> byte list) \<Rightarrow> u16 \<Rightarrow> protected_packet list \<Rightarrow> u32 \<Rightarrow> protected_packet list \<Rightarrow> u32 \<Rightarrow> bool" where
  "assigned M base ps arr qs a \<longleftrightarrow> map pp_seq qs = map pp_seq ps \<and> map pp_ssrc qs = map pp_ssrc ps \<and>
     (\<forall>q \<in> set qs. pp_pkt q = None \<or> pp_pkt q = Some (M (pp_seq q))) \<and>
     (\<forall>i < 32. bit a i \<longleftrightarrow> bit arr i \<or> (\<exists>q \<in> set qs. pp_seq q = base + of_nat i \<and> pp_pkt q \<noteq> None))"

lemma AssignRecovered_spec:
  assumes "\<forall>r \<in> set rs. rp_pkt r = M (rp_seq r)"
    "\<forall>p \<in> set ps. pp_pkt p = None \<and> (\<exists>i < 32. pp_seq p = base + of_nat i)"
    and "AssignRecoveredPackets base ps rs arr = (qs, a)"
  shows "assigned M base ps arr qs a"
  using assms
proof (induction base ps rs arr arbitrary: qs a rule: AssignRecoveredPackets.induct)
  case (3 base p ps r rs arr)
  consider (old) "IsNewerSequenceNumber (rp_seq r) (pp_seq p)"
    | (new) "\<not> IsNewerSequenceNumber (rp_seq r) (pp_seq p)" "IsNewerSequenceNumber (pp_seq p) (rp_seq r)"
    | (eq) "\<not> IsNewerSequenceNumber (rp_seq r) (pp_seq p)" "\<not> IsNewerSequenceNumber (pp_seq p) (rp_seq r)" by blast
  thus ?case
  proof cases
    case old
    obtain qs' a' where r: "AssignRecoveredPackets base ps (r # rs) arr = (qs', a')" by fastforce
    have e: "qs = p # qs'" "a = a'" using "3.prems"(3) old r by simp_all
    have "assigned M base ps arr qs' a'" using "3.IH"(1) [OF old _ _ r] "3.prems" by simp
    thus ?thesis using e "3.prems"(2) by (auto simp: assigned_def)
  next
    case new
    thus ?thesis using "3.IH"(2) [OF new] "3.prems" by simp
  next
    case eq
    hence s: "pp_seq p = rp_seq r" using IsNewer_total by blast
    obtain i where i: "i < 32" "pp_seq p = base + of_nat i" using "3.prems"(2) by auto
    have d: "unat (MinDiff base (pp_seq p)) = i"
      unfolding i(2) using MinDiff_base [of base "base + of_nat i"] i(1) by (simp add: offset_add)
    obtain qs' a' where r: "AssignRecoveredPackets base ps rs (set_bit i arr) = (qs', a')" by fastforce
    have e: "qs = p\<lparr>pp_pkt := Some (rp_pkt r)\<rparr> # qs'" "a = a'" using "3.prems"(3) eq r d i(1) by (simp_all add: Let_def)
    have "assigned M base ps (set_bit i arr) qs' a'" using "3.IH"(3) [OF eq refl refl] "3.prems" r d i(1) by simp
    moreover have "pp_seq p = base + of_nat j \<longleftrightarrow> j = i" if "j < 32" for j
      unfolding i(2) using window_pos_eq [of i j base] i(1) that by simp
    ultimately show ?thesis using e s "3.prems"(1) by (auto simp: assigned_def set_bit_u32)
  qed
qed (auto simp: assigned_def)

subsection \<open>Parity packets of the sender\<close>

text \<open>The batch a parity packet was computed from consists of sent packets.\<close>

definition sent_batch :: "(u16 \<Rightarrow> byte list) \<Rightarrow> u32 \<Rightarrow> byte list list \<Rightarrow> bool" where
  "sent_batch M ssrc media \<longleftrightarrow> wf_media media \<and>
     (\<forall>p \<in> set media. M (ParseSequenceNumber p) = p \<and> length p - 12 < 65536 \<and> ParseSsrc p = ssrc)"

lemma batch_nth:
  assumes "sent_batch M ssrc media" "j < length media"
  shows "M (ParseSequenceNumber (hd media) + of_nat (offsets media ! j)) = media ! j" "offsets media ! j < 32"
  using assms by (simp_all add: sent_batch_def wf_media_def offsets_def seq_offset_def)

lemma batch_sum:
  assumes b: "sent_batch M ssrc media" and m: "\<And>i. bit (m :: u32) i \<longleftrightarrow> i \<in> set (offsets media)"
  shows "xsum (\<lambda>j. gf8 g (rtp_code (media ! j) q) (gf_pow g b (offsets media ! j))) (length media) =
    xsum (\<lambda>i. if bit m i then gf8 g (rtp_code (M (ParseSequenceNumber (hd media) + of_nat i)) q) (gf_pow g b i) else 0) 32"
proof -
  let ?G = "\<lambda>i. if bit m i then gf8 g (rtp_code (M (ParseSequenceNumber (hd media) + of_nat i)) q) (gf_pow g b i) else 0"
  have l: "length (offsets media) = length media" by (simp add: offsets_def)
  have "distinct (offsets media)" using b by (auto simp: sent_batch_def wf_media_def strict_sorted_iff)
  hence "xsum ?G 32 = xsum (\<lambda>j. ?G (offsets media ! j)) (length (offsets media))"
    using b by (intro xsum_support) (auto simp: m sent_batch_def wf_media_def)
  also have "\<dots> = xsum (\<lambda>j. gf8 g (rtp_code (media ! j) q) (gf_pow g b (offsets media ! j))) (length media)"
    unfolding l by (rule xsum_cong) (use l in \<open>simp add: m batch_nth [OF b]\<close>)
  finally show ?thesis ..
qed

lemma batch_sent:
  assumes b: "sent_batch M ssrc media" and i: "i \<in> set (offsets media)"
  shows "sent M (ParseSequenceNumber (hd media) + of_nat i)"
    "ParseSsrc (M (ParseSequenceNumber (hd media) + of_nat i)) = ssrc"
proof -
  obtain j where j: "j < length media" "offsets media ! j = i" using i by (auto simp: in_set_conv_nth offsets_def)
  have p: "M (ParseSequenceNumber (hd media) + of_nat i) = media ! j" using batch_nth(1) [OF b j(1)] j(2) by simp
  have m: "media ! j \<in> set media" using j(1) by simp
  have "ParseSequenceNumber (media ! j) = ParseSequenceNumber (hd media) + of_nat i"
    using j by (simp add: offsets_def seq_offset_def flip: j(2))
  thus "sent M (ParseSequenceNumber (hd media) + of_nat i)" "ParseSsrc (M (ParseSequenceNumber (hd media) + of_nat i)) = ssrc"
    using b m p by (auto simp: sent_batch_def wf_media_def sent_def)
qed

lemma parity_packetD:
  assumes "parity_packet g media b pkt" "ReadFecHeader ssrc pkt = Inr (Some (h, data))"
  shows "fh_size h = 18 \<and> fh_protection_length h = max_payload media \<and>
     ps_ssrc (fh_stream h) = ssrc \<and> pkt_arrive (fh_stream h) = 0 \<and>
     packet_mask_offset (fh_stream h) = 12 \<and> packet_mask_size (fh_stream h) = 4 \<and>
     seq_num_base (fh_stream h) = ParseSequenceNumber (hd media) \<and> cur_base_num (fh_stream h) = ucast b \<and>
     (\<forall>i. bit (pkt_mask (fh_stream h)) i \<longleftrightarrow> i \<in> set (offsets media)) \<and>
     length data = 18 + max_payload media \<and>
     (\<forall>q. code 18 data q =
        xsum (\<lambda>j. gf8 g (rtp_code (media ! j) q) (gf_pow g b (offsets media ! j))) (length media))"
  using spec [OF assms(1) [unfolded parity_packet_def], of ssrc]
  unfolding assms(2) by (elim exE conjE) (simp only: sum.inject option.inject prod.inject simp_thms)

lemma parity_carries:
  assumes b: "sent_batch M ssrc media" and pp: "parity_packet g media bn pkt" and h: "ReadFecHeader ssrc' pkt = Inr (Some (h, data))"
    and rs: "\<forall>r \<in> set rs. rp_pkt r = M (rp_seq r)"
    and A: "AssignRecoveredPackets (seq_num_base (fh_stream h)) (protected_of_mask ssrc (fh_stream h)) rs (pkt_arrive (fh_stream h)) = (qs, a)"
    and f: "fp_stream f = (fh_stream h)\<lparr>pkt_arrive := a\<rparr>" "fp_pkt f = data" "fp_header_size f = fh_size h" "fp_protected f = qs"
  shows "carries g M f" "all_protected f" "seq_num_base (fp_stream f) = ParseSequenceNumber (hd media)"
    "\<forall>p \<in> set qs. pp_ssrc p = ssrc \<and> sent M (pp_seq p) \<and> ParseSsrc (M (pp_seq p)) = ssrc"
proof -
  let ?s = "fh_stream h" and ?b = "ParseSequenceNumber (hd media)"
  have H: "fh_size h = 18" "pkt_arrive ?s = 0" "packet_mask_size ?s = 4" "seq_num_base ?s = ?b" "cur_base_num ?s = ucast bn"
    "\<And>i. bit (pkt_mask ?s) i \<longleftrightarrow> i \<in> set (offsets media)" "18 \<le> length data"
    "\<And>q. code 18 data q = xsum (\<lambda>j. gf8 g (rtp_code (media ! j) q) (gf_pow g bn (offsets media ! j))) (length media)"
    using parity_packetD [OF pp h] by auto
  have ps: "protected_of_mask ssrc ?s = map (\<lambda>i. \<lparr>pp_ssrc = ssrc, pp_seq = ?b + of_nat i, pp_pkt = None\<rparr>) (filter (bit (pkt_mask ?s)) [0..<32])"
    by (simp add: protected_of_mask_def H(3,4))
  have as: "assigned M ?b (protected_of_mask ssrc ?s) 0 qs a"
    by (rule AssignRecovered_spec [OF rs]) (use A in \<open>auto simp: ps H(2,4)\<close>)
  have seqs: "map pp_seq qs = map (\<lambda>i. ?b + of_nat i) (filter (bit (pkt_mask ?s)) [0..<32])"
    and ssrcs: "map pp_ssrc qs = map (\<lambda>i. ssrc) (filter (bit (pkt_mask ?s)) [0..<32])"
    using as by (simp_all add: assigned_def ps comp_def)
  show "all_protected f" using seqs f by (simp add: all_protected_def H)
  show "seq_num_base (fp_stream f) = ?b" using f by (simp add: H)
  have "ucast (ucast bn :: u16) = bn" by (rule bit_word_eqI) (auto simp: bit_simps)
  hence bb: "base_byte f = bn" using f by (simp add: base_byte_def H)
  have "0 \<in> set (offsets media)" using b by (cases media) (auto simp: sent_batch_def wf_media_def offsets_def seq_offset_def)
  hence m0: "bit (pkt_mask ?s) 0" by (simp add: H)
  have q: "\<exists>i < 32. bit (pkt_mask ?s) i \<and> pp_seq p = ?b + of_nat i \<and> pp_ssrc p = ssrc" if p: "p \<in> set qs" for p
  proof -
    obtain k where k: "k < length qs" "p = qs ! k" using p by (auto simp: in_set_conv_nth)
    have len: "length qs = length (filter (bit (pkt_mask ?s)) [0..<32])" using seqs map_eq_imp_length_eq by fastforce
    have "filter (bit (pkt_mask ?s)) [0..<32] ! k \<in> set (filter (bit (pkt_mask ?s)) [0..<32])" using k len by (intro nth_mem) simp
    moreover have "pp_seq p = ?b + of_nat (filter (bit (pkt_mask ?s)) [0..<32] ! k)" "pp_ssrc p = ssrc"
      using arg_cong [OF seqs, of "\<lambda>xs. xs ! k"] arg_cong [OF ssrcs, of "\<lambda>xs. xs ! k"] k len by simp_all
    ultimately show ?thesis by auto
  qed
  have arr: "bit a i \<longleftrightarrow> (\<exists>q \<in> set qs. pp_seq q = ?b + of_nat i \<and> pp_pkt q \<noteq> None)" if "i < 32" for i
    using as that by (simp add: assigned_def)
  have same: "j = i" if "?b + of_nat i = ?b + of_nat j" "i < 32" "j < 32" for i j
    using window_pos_eq [of i j ?b] that by simp
  have st: "pkt_mask (fp_stream f) = pkt_mask ?s" "pkt_arrive (fp_stream f) = a" "cur_base_num (fp_stream f) = ucast bn"
    "seq_num_base (fp_stream f) = ?b" using f(1) by (simp_all add: H(4,5))
  show "carries g M f"
    unfolding carries_def Let_def st bb f(2-4) H(1)
  proof (intro conjI allI ballI impI m0 H(7) refl)
    show "code 18 data q = xsum (\<lambda>i. if bit (pkt_mask ?s) i then gf8 g (rtp_code (M (?b + of_nat i)) q) (gf_pow g bn i) else 0) 32" for q
      unfolding H(8) by (rule batch_sum [OF b H(6)])
    show "sent M (?b + of_nat i)" if "bit (pkt_mask ?s) i" for i
      by (rule batch_sent(1) [OF b]) (use that H(6) in blast)
  next
    fix p assume p: "p \<in> set qs"
    obtain i where i: "i < 32" "bit (pkt_mask ?s) i" "pp_seq p = ?b + of_nat i" using q [OF p] by blast
    have "distinct (map pp_seq qs)" unfolding seqs distinct_map by (auto simp: inj_on_def intro: same)
    hence "bit a i \<longleftrightarrow> pp_pkt p \<noteq> None"
      unfolding arr [OF i(1)] using p i(3) by (auto dest: distinct_key)
    moreover have "pp_pkt p = None \<or> pp_pkt p = Some (M (pp_seq p))" using as p by (simp add: assigned_def)
    ultimately show "\<exists>i. bit (pkt_mask ?s) i \<and> pp_seq p = ?b + of_nat i \<and> pp_pkt p = (if bit a i then Some (M (pp_seq p)) else None)"
      using i(2,3) by (intro exI [of _ i]) auto
  next
    fix i assume i: "bit a i"
    hence i32: "i < 32" using bit_imp_le_length [OF i] by simp
    then obtain p where p: "p \<in> set qs" "pp_seq p = ?b + of_nat i" using i arr by blast
    obtain j where "j < 32" "bit (pkt_mask ?s) j" "pp_seq p = ?b + of_nat j" using q [OF p(1)] by blast
    thus "bit (pkt_mask ?s) i" using same [of i j] p(2) i32 by metis
    show "\<exists>p \<in> set qs. pp_seq p = ?b + of_nat i" using p by blast
  qed
  show "\<forall>p \<in> set qs. pp_ssrc p = ssrc \<and> sent M (pp_seq p) \<and> ParseSsrc (M (pp_seq p)) = ssrc"
    using q batch_sent [OF b] H(6) by metis
qed

subsection \<open>Packets considered lost\<close>

text \<open>The merge, without its cursor: each missing packet is looked up in the whole list.\<close>

fun note_loss :: "nat \<Rightarrow> protected_packet \<Rightarrow> loss_packet list \<times> nat \<times> nat list \<Rightarrow> loss_packet list \<times> nat \<times> nat list" where
  "note_loss fid p (cs, nid, maybe) =
     (case find (\<lambda>c. lp_seq c = pp_seq p) cs of
        Some l \<Rightarrow> (map (\<lambda>c. if lp_seq c = pp_seq p then c\<lparr>lp_refs := lp_refs c @ [fid]\<rparr> else c) cs, nid, maybe @ [lp_id l])
      | None \<Rightarrow> (cs @ [\<lparr>lp_id = nid, lp_ssrc = pp_ssrc p, lp_seq = pp_seq p, lp_refs = [fid]\<rparr>], Suc nid, maybe @ [nid]))"

text \<open>Where the cursor stands: what it has passed and what was appended is older than the packets to come.\<close>

definition older :: "u16 \<Rightarrow> loss_packet list \<Rightarrow> protected_packet list \<Rightarrow> bool" where
  "older w cs ps \<longleftrightarrow> (\<forall>c \<in> set cs. in_window w (lp_seq c) \<and> (\<forall>p \<in> set ps. offset w (lp_seq c) < offset w (pp_seq p)))"

lemma older_simps:
  "older w [] ps" "older w cs (p # ps) \<Longrightarrow> older w cs ps" "older w (cs @ ds) ps \<longleftrightarrow> older w cs ps \<and> older w ds ps"
  by (auto simp: older_def)

lemma map_key_id: "a \<notin> k ` set xs \<Longrightarrow> map (\<lambda>c. if k c = a then h c else c) xs = xs"
  by (induction xs) auto

lemma older_key:
  assumes "older w cs (p # ps)"
  shows "pp_seq p \<notin> lp_seq ` set cs" "in_window w (pp_seq p) \<Longrightarrow> c \<in> set cs \<Longrightarrow> IsNewerSequenceNumber (pp_seq p) (lp_seq c)"
  using assms by (auto simp: older_def IsNewer_window)

lemma find_None_key: "a \<notin> k ` set xs \<Longrightarrow> find (\<lambda>c. k c = a) xs = None"
  by (induction xs) auto

lemma find_append: "find P (xs @ ys) = (case find P xs of None \<Rightarrow> find P ys | Some x \<Rightarrow> Some x)"
  by (induction xs) auto

lemma split_sorted:
  assumes A: "sorted_window w lp_seq A" and p: "in_window w (pp_seq p)"
  defines "before \<equiv> (\<lambda>c. IsNewerSequenceNumber (pp_seq p) (lp_seq c))"
  obtains T D where "A = T @ D" "\<forall>c \<in> set T. before c" "D \<noteq> [] \<Longrightarrow> \<not> before (hd D)" "sorted_window w lp_seq D"
    "\<forall>c \<in> set T. in_window w (lp_seq c) \<and> offset w (lp_seq c) < offset w (pp_seq p)"
    "pp_seq p \<notin> lp_seq ` set T" "pp_seq p \<notin> lp_seq ` set (tl D)"
    "D \<noteq> [] \<Longrightarrow> lp_seq (hd D) \<noteq> pp_seq p \<Longrightarrow> pp_seq p \<notin> lp_seq ` set D"
proof -
  define T where "T = takeWhile before A"
  define D where "D = dropWhile before A"
  have w: "\<forall>c \<in> set A. before c \<longleftrightarrow> offset w (lp_seq c) < offset w (pp_seq p)"
    using A p by (simp add: before_def IsNewer_window sorted_window_def)
  have T: "\<forall>c \<in> set T. before c \<and> c \<in> set A" by (auto simp: T_def dest: set_takeWhileD)
  have srt: "sorted_window w lp_seq D" by (rule sorted_window_subseq [OF _ A]) (auto simp: D_def suffix_dropWhile)
  have hd: "D \<noteq> [] \<Longrightarrow> \<not> before (hd D)" unfolding D_def by (rule hd_dropWhile)
  have ge: "offset w (pp_seq p) \<le> offset w (lp_seq (hd D))" if "D \<noteq> []"
    using hd [OF that] w set_dropWhileD [of "hd D" before A] hd_in_set [OF that] by (auto simp: D_def)
  have gt: "offset w (pp_seq p) < offset w (lp_seq c)" if c: "c \<in> set (tl D)" for c
  proof -
    obtain d D' where "D = d # D'" using c by (cases D) auto
    thus ?thesis using srt ge c by (auto simp: sorted_window_def)
  qed
  show ?thesis
  proof (rule that [of T D])
    show "pp_seq p \<notin> lp_seq ` set T" using T w by fastforce
    show "\<forall>c \<in> set T. in_window w (lp_seq c) \<and> offset w (lp_seq c) < offset w (pp_seq p)"
      using T w A by (auto simp: sorted_window_def)
    show "pp_seq p \<notin> lp_seq ` set (tl D)" using gt by fastforce
    thus "pp_seq p \<notin> lp_seq ` set D" if "D \<noteq> []" "lp_seq (hd D) \<noteq> pp_seq p" using that by (cases D) auto
  qed (use T srt hd in \<open>auto simp: T_def D_def\<close>)
qed

lemma assign_loss_fold:
  assumes "sorted_window w pp_seq ps" "older w passed ps" "sorted_window w lp_seq A" "older w B ps"
  shows "assign_loss fid ps passed (A @ B) nid maybe =
    fold (note_loss fid) (filter (\<lambda>p. pp_pkt p = None) ps) (passed @ A @ B, nid, maybe)"
  using assms
proof (induction ps arbitrary: passed A B nid maybe)
  case (Cons p ps)
  have ps: "sorted_window w pp_seq ps" "in_window w (pp_seq p)" "\<forall>q \<in> set ps. offset w (pp_seq p) < offset w (pp_seq q)"
    using Cons.prems(1) by (simp_all add: sorted_window_def)
  show ?case
  proof (cases "pp_pkt p = None")
    case False
    thus ?thesis using Cons.IH [OF ps(1) _ Cons.prems(3)] Cons.prems(2,4) by (auto simp: older_simps(2))
  next
    case True
    let ?b = "\<lambda>c. IsNewerSequenceNumber (pp_seq p) (lp_seq c)"
    let ?fresh = "\<lparr>lp_id = nid, lp_ssrc = pp_ssrc p, lp_seq = pp_seq p, lp_refs = [fid]\<rparr>"
    obtain T D where TD: "A = T @ D" "\<forall>c \<in> set T. ?b c" "D \<noteq> [] \<Longrightarrow> \<not> ?b (hd D)" "sorted_window w lp_seq D"
      "\<forall>c \<in> set T. in_window w (lp_seq c) \<and> offset w (lp_seq c) < offset w (pp_seq p)"
      "pp_seq p \<notin> lp_seq ` set T" "pp_seq p \<notin> lp_seq ` set (tl D)"
      "D \<noteq> [] \<Longrightarrow> lp_seq (hd D) \<noteq> pp_seq p \<Longrightarrow> pp_seq p \<notin> lp_seq ` set D"
      by (rule split_sorted [OF Cons.prems(3) ps(2)]) blast
    have B: "\<forall>c \<in> set B. ?b c" "pp_seq p \<notin> lp_seq ` set B" "pp_seq p \<notin> lp_seq ` set passed"
      using older_key [OF Cons.prems(4)] older_key [OF Cons.prems(2)] ps(2) by auto
    have old: "older w (passed @ T) ps" "older w (B @ [?fresh]) ps" "older w B ps"
      using Cons.prems(2,4) TD(5) ps(2,3) by (fastforce simp: older_def)+
    show ?thesis
    proof (cases D)
      case Nil
      have tw: "takeWhile ?b (A @ B) = A @ B" "dropWhile ?b (A @ B) = []" using TD(1,2) B(1) Nil by auto
      have "find (\<lambda>c. lp_seq c = pp_seq p) (passed @ A @ B) = None"
        by (rule find_None_key) (use TD(1,6) B Nil in auto)
      moreover have "older w (passed @ A @ B @ [?fresh]) ps" using old TD(1) Nil by (simp add: older_simps)
      moreover have "assign_loss fid (p # ps) passed (A @ B) nid maybe =
          assign_loss fid ps (passed @ A @ B @ [?fresh]) [] (Suc nid) (maybe @ [nid])"
        by (simp only: assign_loss.simps(2) Let_def tw list.case True simp_thms if_False append_assoc)
      ultimately show ?thesis
        using Cons.IH [OF ps(1), of "passed @ A @ B @ [?fresh]" "[]" "[]"] True
        by (simp add: older_simps sorted_window_def del: assign_loss.simps)
    next
      case D: (Cons c D')
      have tw: "takeWhile ?b (A @ B) = T" "dropWhile ?b (A @ B) = c # D' @ B" using TD(1,2,3) D by auto
      show ?thesis
      proof (cases "lp_seq c = pp_seq p")
        case eq: True
        let ?c = "c\<lparr>lp_refs := lp_refs c @ [fid]\<rparr>"
        have "find (\<lambda>c. lp_seq c = pp_seq p) (passed @ A @ B) = Some c"
          using TD(1,6) B(3) D eq by (simp add: find_append find_None_key)
        moreover have "map (\<lambda>c. if lp_seq c = pp_seq p then c\<lparr>lp_refs := lp_refs c @ [fid]\<rparr> else c) (passed @ A @ B) = passed @ T @ ?c # D' @ B"
          using TD(1,6,7) B(2,3) D eq by (simp add: map_key_id)
        moreover have "sorted_window w lp_seq (?c # D')" using TD(4) D by (simp add: sorted_window_def)
        moreover have "assign_loss fid (p # ps) passed (A @ B) nid maybe =
            assign_loss fid ps (passed @ T) (?c # D' @ B) nid (maybe @ [lp_id c])"
          by (simp only: assign_loss.simps(2) Let_def tw list.case True eq simp_thms if_False if_True)
        ultimately show ?thesis
          using Cons.IH [OF ps(1) old(1) _ old(3), of "?c # D'"] True by (simp del: assign_loss.simps)
      next
        case neq: False
        have "find (\<lambda>c. lp_seq c = pp_seq p) (passed @ A @ B) = None"
          by (rule find_None_key) (use TD(1,6,8) B D neq in auto)
        moreover have "assign_loss fid (p # ps) passed (A @ B) nid maybe =
            assign_loss fid ps (passed @ T) (D @ B @ [?fresh]) (Suc nid) (maybe @ [nid])"
          by (simp only: assign_loss.simps(2) Let_def tw list.case True neq D simp_thms if_False append_Cons append_assoc)
        ultimately show ?thesis
          using Cons.IH [OF ps(1) old(1) TD(4) old(2)] True TD(1) by (simp del: assign_loss.simps)
      qed
    qed
  qed
qed simp

text \<open>The state while the packets missing for the new parity packet \<open>fid\<close> are noted.\<close>

definition noted :: "(u16 \<Rightarrow> byte list) \<Rightarrow> u16 \<Rightarrow> nat \<Rightarrow> fec_packet list \<Rightarrow> u16 list \<Rightarrow> loss_packet list \<times> nat \<times> nat list \<Rightarrow> bool" where
  "noted M w fid fecs ss x \<longleftrightarrow> (case x of (cs, nid, maybe) \<Rightarrow>
     linked nid fecs cs \<and> fid < nid \<and> distinct (map lp_seq cs) \<and>
     (\<forall>l \<in> set cs. in_window w (lp_seq l) \<and> lost_sent M l \<and> (fid \<in> set (lp_refs l) \<longleftrightarrow> lp_seq l \<in> set ss)) \<and>
     (\<exists>ls. set ls \<subseteq> set cs \<and> map lp_id ls = maybe \<and> map lp_seq ls = ss))"

lemma notedI:
  assumes "linked nid fecs cs" "fid < nid" "distinct (map lp_seq cs)"
    "\<And>l. l \<in> set cs \<Longrightarrow> in_window w (lp_seq l) \<and> lost_sent M l \<and> (fid \<in> set (lp_refs l) \<longleftrightarrow> lp_seq l \<in> set ss)"
    "set ls \<subseteq> set cs" "map lp_id ls = maybe" "map lp_seq ls = ss"
  shows "noted M w fid fecs ss (cs, nid, maybe)"
  using assms unfolding noted_def by blast

lemma tracked_map:
  assumes "tracked cs f" "\<And>l. lp_id (h l) = lp_id l" "\<And>l. lp_seq (h l) = lp_seq l"
  shows "tracked (map h cs) f"
  unfolding tracked_def
proof
  assume "set (fp_maybe_loss f) \<subseteq> lp_id ` set (map h cs)"
  hence "set (fp_maybe_loss f) \<subseteq> lp_id ` set cs" using assms(2) by (auto simp: image_image)
  then obtain ls where "set ls \<subseteq> set cs" "map lp_id ls = fp_maybe_loss f" "map lp_seq ls = missing f"
    using assms(1) unfolding tracked_def by blast
  thus "\<exists>ls. set ls \<subseteq> set (map h cs) \<and> map lp_id ls = fp_maybe_loss f \<and> map lp_seq ls = missing f"
    using assms(2,3) by (intro exI [of _ "map h ls"]) (auto simp: comp_def)
qed

lemma linked_map:
  assumes "linked nid fecs cs" "\<And>l. lp_id (h l) = lp_id l" "\<And>l. lp_seq (h l) = lp_seq l"
    and "\<And>l f. l \<in> set cs \<Longrightarrow> f \<in> set fecs \<Longrightarrow> fp_id f \<in> set (lp_refs (h l)) \<longleftrightarrow> fp_id f \<in> set (lp_refs l)"
    and "\<And>l. l \<in> set cs \<Longrightarrow> \<forall>i \<in> set (lp_refs (h l)). i < nid"
  shows "linked nid fecs (map h cs)"
  using assms tracked_map [of cs _ h, OF _ assms(2,3)] unfolding linked_def by (simp add: comp_def)

lemma linked_append:
  assumes "linked nid fecs cs" "lp_id l = nid" "\<And>f. f \<in> set fecs \<Longrightarrow> fp_id f \<notin> set (lp_refs l)" "\<forall>i \<in> set (lp_refs l). i < nid"
  shows "linked (Suc nid) fecs (cs @ [l])"
proof -
  have "tracked (cs @ [l]) f" if f: "f \<in> set fecs" for f
  proof -
    have t: "tracked cs f" "\<forall>i \<in> set (fp_maybe_loss f). i < nid" using assms(1) f by (auto simp: linked_def)
    have "set (fp_maybe_loss f) \<subseteq> lp_id ` set cs" if "set (fp_maybe_loss f) \<subseteq> lp_id ` set (cs @ [l])"
      using that t(2) assms(2) by auto
    moreover have "set cs \<subseteq> set (cs @ [l])" by auto
    ultimately show ?thesis using t(1) unfolding tracked_def by (meson subset_trans)
  qed
  moreover have "nid \<notin> set (fp_maybe_loss f)" if "f \<in> set fecs" for f using assms(1) that by (auto simp: linked_def)
  ultimately show ?thesis using assms unfolding linked_def by (auto simp: less_Suc_eq)
qed

lemma note_loss_noted:
  assumes n: "noted M w fid fecs ss (cs, nid, maybe)" and p: "pp_seq p \<notin> set ss" "in_window w (pp_seq p)"
    "sent M (pp_seq p)" "pp_ssrc p = ParseSsrc (M (pp_seq p))" and fid: "fid \<notin> fp_id ` set fecs"
  shows "noted M w fid fecs (ss @ [pp_seq p]) (note_loss fid p (cs, nid, maybe))"
proof -
  from n obtain ls where ls: "set ls \<subseteq> set cs" "map lp_id ls = maybe" "map lp_seq ls = ss"
    and link: "linked nid fecs cs" and f: "fid < nid" and d: "distinct (map lp_seq cs)"
    and c: "\<forall>l \<in> set cs. in_window w (lp_seq l) \<and> lost_sent M l \<and> (fid \<in> set (lp_refs l) \<longleftrightarrow> lp_seq l \<in> set ss)"
    by (auto simp: noted_def)
  show ?thesis
  proof (cases "find (\<lambda>c. lp_seq c = pp_seq p) cs")
    case (Some l)
    hence l: "l \<in> set cs" "lp_seq l = pp_seq p" by (auto simp: find_Some_iff)
    define h where "h c = (if lp_seq c = pp_seq p then c\<lparr>lp_refs := lp_refs c @ [fid]\<rparr> else c)" for c :: loss_packet
    have h: "lp_id (h c) = lp_id c" "lp_seq (h c) = lp_seq c" "lp_ssrc (h c) = lp_ssrc c"
      "set (lp_refs (h c)) = set (lp_refs c) \<union> (if lp_seq c = pp_seq p then {fid} else {})" for c
      by (auto simp: h_def)
    have "noted M w fid fecs (ss @ [pp_seq p]) (map h cs, nid, maybe @ [lp_id l])"
    proof (rule notedI [where ls = "map h (ls @ [l])"])
      show "linked nid fecs (map h cs)"
        by (rule linked_map [OF link]) (use fid f link in \<open>auto simp: linked_def h\<close>)
      show "in_window w (lp_seq x) \<and> lost_sent M x \<and> (fid \<in> set (lp_refs x) \<longleftrightarrow> lp_seq x \<in> set (ss @ [pp_seq p]))"
        if "x \<in> set (map h cs)" for x
        using that c by (auto simp: lost_sent_def h split: if_splits)
    qed (use f d ls l in \<open>auto simp: comp_def h\<close>)
    thus ?thesis using Some by (simp add: h_def [abs_def])
  next
    case None
    let ?l = "\<lparr>lp_id = nid, lp_ssrc = pp_ssrc p, lp_seq = pp_seq p, lp_refs = [fid]\<rparr>"
    have new: "\<forall>l \<in> set cs. lp_seq l \<noteq> pp_seq p" using None by (auto simp: find_None_iff)
    have "noted M w fid fecs (ss @ [pp_seq p]) (cs @ [?l], Suc nid, maybe @ [nid])"
    proof (rule notedI [where ls = "ls @ [?l]"])
      show "linked (Suc nid) fecs (cs @ [?l])" by (rule linked_append [OF link]) (use fid f in auto)
      show "in_window w (lp_seq x) \<and> lost_sent M x \<and> (fid \<in> set (lp_refs x) \<longleftrightarrow> lp_seq x \<in> set (ss @ [pp_seq p]))"
        if "x \<in> set (cs @ [?l])" for x
        using that c p new by (auto simp: lost_sent_def)
    qed (use f d new ls in auto)
    thus ?thesis using None by simp
  qed
qed

lemma fold_noted:
  assumes "noted M w fid fecs ss x" "distinct (ss @ map pp_seq ps)" "fid \<notin> fp_id ` set fecs"
    "\<forall>p \<in> set ps. in_window w (pp_seq p) \<and> sent M (pp_seq p) \<and> pp_ssrc p = ParseSsrc (M (pp_seq p))"
  shows "noted M w fid fecs (ss @ map pp_seq ps) (fold (note_loss fid) ps x)"
  using assms
proof (induction ps arbitrary: ss x)
  case (Cons p ps)
  obtain cs nid maybe where x: "x = (cs, nid, maybe)" by (cases x) auto
  have "noted M w fid fecs (ss @ [pp_seq p]) (note_loss fid p x)"
    unfolding x by (rule note_loss_noted) (use Cons.prems x in auto)
  thus ?case using Cons.IH [of "ss @ [pp_seq p]"] Cons.prems by simp
qed simp

lemma tracked_cong: "set cs = set cs' \<Longrightarrow> tracked cs f = tracked cs' f"
  by (simp add: tracked_def)

lemma linked_perm:
  assumes "linked nid fecs cs" "mset fecs' = mset fecs" "mset cs' = mset cs"
  shows "linked nid fecs' cs'"
proof -
  have s: "set fecs' = set fecs" "set cs' = set cs" using assms(2,3) by (auto dest: mset_eq_setD)
  have "distinct (map fp_id fecs')" "distinct (map lp_id cs')"
    using assms mset_eq_imp_distinct_iff [of "map fp_id fecs'" "map fp_id fecs"]
      mset_eq_imp_distinct_iff [of "map lp_id cs'" "map lp_id cs"]
    by (simp_all add: linked_def)
  thus ?thesis using assms(1) s tracked_cong [OF s(2)] unfolding linked_def by simp
qed

lemma linked_add:
  assumes n: "noted M w fid fecs (missing f) (cs, nid, maybe)" and f: "fp_id f = fid" "fp_maybe_loss f = maybe"
    and fid: "fid \<notin> fp_id ` set fecs"
  shows "linked nid (fecs @ [f]) cs"
proof -
  from n obtain ls where ls: "set ls \<subseteq> set cs" "map lp_id ls = maybe" "map lp_seq ls = missing f"
    and link: "linked nid fecs cs" "fid < nid"
    and c: "\<forall>l \<in> set cs. fid \<in> set (lp_refs l) \<longleftrightarrow> lp_seq l \<in> set (missing f)"
    by (auto simp: noted_def)
  have t: "tracked cs f" unfolding tracked_def by (intro impI exI [of _ ls]) (simp add: f(2) ls)
  have d: "distinct (map lp_id cs)" using link(1) by (simp add: linked_def)
  have "lp_seq l \<in> set (missing f)" if "l \<in> set cs" "lp_id l \<in> set maybe" for l
  proof -
    obtain l' where l': "l' \<in> set ls" "lp_id l' = lp_id l" using \<open>lp_id l \<in> set maybe\<close> ls(2) by auto
    hence "l' = l" using distinct_key [OF d, of l' l] ls(1) \<open>l \<in> set cs\<close> by auto
    thus ?thesis using l'(1) ls(3) [symmetric] by simp
  qed
  moreover have "\<forall>l \<in> set cs. lp_id l < nid" using link(1) by (simp add: linked_def)
  hence "\<forall>i \<in> set maybe. i < nid" unfolding ls(2) [symmetric] using ls(1) by auto
  ultimately show ?thesis
    using link c f fid t missing_protected [of f] unfolding linked_def by auto
qed

lemma linked_Suc: "linked nid fecs cs \<Longrightarrow> linked (Suc nid) fecs cs"
  unfolding linked_def by (auto simp: less_Suc_eq)

subsection \<open>A parity packet keeps the invariant\<close>

definition genuine_parity :: "gf_op \<Rightarrow> (u16 \<Rightarrow> byte list) \<Rightarrow> u16 \<Rightarrow> (nat \<Rightarrow> nat) \<Rightarrow> u32 \<Rightarrow> received_packet \<Rightarrow> bool" where
  "genuine_parity g M w bo ssrc p \<longleftrightarrow> in_window w (rcv_seq p) \<and>
     (\<exists>media b. sent_batch M ssrc media \<and> parity_packet g media b (rcv_pkt p) \<and>
        offset w (ParseSequenceNumber (hd media)) = bo (offset w (rcv_seq p)) \<and>
        offset w (ParseSequenceNumber (hd media)) + 32 \<le> 0x8000)"

lemma AssignMaybeLoss_inv:
  assumes inv: "decoder_inv g M w bo st" and f: "fec_inv g M w bo f" "fp_maybe_loss f = []" "fp_id f = next_id st"
    and seq: "\<forall>x \<in> set (received_fec st). fp_seq x \<noteq> fp_seq f"
    and qs: "\<forall>p \<in> set (fp_protected f). sent M (pp_seq p) \<and> pp_ssrc p = ParseSsrc (M (pp_seq p))"
    and A: "AssignMaybeLossPackets f (st\<lparr>next_id := Suc (next_id st)\<rparr>) = (f', st')"
  shows "decoder_inv g M w bo (st'\<lparr>received_fec := sort_by fp_less (received_fec st' @ [f'])\<rparr>)"
    "protected_media_ssrc st' = protected_media_ssrc st" "received_fec st' = received_fec st"
proof -
  let ?cs = "consider_loss st" and ?nid = "next_id st" and ?fecs = "received_fec st"
  have I: "sorted_window w lp_seq ?cs" "linked ?nid ?fecs ?cs" "\<forall>l \<in> set ?cs. lost_sent M l"
    using inv by (auto simp: decoder_inv_def)
  have fid: "?nid \<notin> fp_id ` set ?fecs" using I(2) by (auto simp: linked_def)
  have p: "sorted_window w pp_seq (fp_protected f)" by (rule sorted_protected [OF f(1)])
  obtain cs nid maybe where x: "assign_loss ?nid (fp_protected f) [] ?cs (Suc ?nid) [] = (cs, nid, maybe)"
    by (metis prod_cases3)
  have "noted M w ?nid ?fecs [] (?cs, Suc ?nid, [])"
    by (rule notedI [where ls = "[]"])
      (use I linked_Suc [OF I(2)] sorted_window_distinct [OF I(1)] in \<open>auto simp: sorted_window_def linked_def\<close>)
  hence "noted M w ?nid ?fecs ([] @ missing f) (fold (note_loss ?nid) (filter (\<lambda>p. pp_pkt p = None) (fp_protected f)) (?cs, Suc ?nid, []))"
    unfolding missing_def using qs p fid missing_distinct [OF f(1)]
    by (intro fold_noted) (auto simp: missing_def sorted_window_def)
  moreover have "fold (note_loss ?nid) (filter (\<lambda>p. pp_pkt p = None) (fp_protected f)) (?cs, Suc ?nid, []) = (cs, nid, maybe)"
    using assign_loss_fold [OF p _ I(1), of "[]" "[]"] x by (simp add: older_simps)
  ultimately have n: "noted M w ?nid ?fecs (missing f) (cs, nid, maybe)" by simp
  let ?cs2 = "sort_by lp_less cs"
  let ?cs3 = "drop (length ?cs2 - kMaxConsiderLossPackets) ?cs2" and ?f = "f\<lparr>fp_maybe_loss := maybe\<rparr>"
  have e: "f' = ?f" "st' = st\<lparr>consider_loss := ?cs3, next_id := nid\<rparr>"
    using A x f(2,3) by (auto simp: AssignMaybeLossPackets_def Let_def)
  show "protected_media_ssrc st' = protected_media_ssrc st" "received_fec st' = received_fec st" by (simp_all add: e)
  have "linked nid (?fecs @ [?f]) cs" by (rule linked_add) (use n f fid in simp_all)
  hence "linked nid (sort_by fp_less (?fecs @ [?f])) ?cs2" by (rule linked_perm) simp_all
  hence "linked nid (sort_by fp_less (?fecs @ [?f])) ?cs3" by (rule linked_sub) auto
  moreover have "sorted_window w lp_seq ?cs2"
    by (rule sorted_window_sort) (use n in \<open>auto simp: noted_def lp_less_def\<close>)
  hence "sorted_window w lp_seq ?cs3" by (rule sorted_window_subseq [rotated]) auto
  moreover have "sorted_window w fp_seq (sort_by fp_less (?fecs @ [?f]))"
    by (rule sorted_window_sort)
      (use inv f(1) seq sorted_window_distinct [of w fp_seq ?fecs] in \<open>auto simp: decoder_inv_def sorted_window_def fec_inv_def fp_less_def\<close>)
  moreover have "\<forall>l \<in> set ?cs3. lost_sent M l" using n by (auto simp: noted_def dest: in_set_dropD)
  ultimately show "decoder_inv g M w bo (st'\<lparr>received_fec := sort_by fp_less (received_fec st' @ [f'])\<rparr>)"
    using inv f(1) unfolding decoder_inv_def e by auto
qed

end
