(* ===== verification/RS_Accept.thy ===== *)
theory RS_Accept
  imports RS_Insert
begin

text \<open>
  Accepting a packet from the network: old parity packets and old losses are dropped, then the packet
  is inserted; and the first pass of the recovery removes the parity packets with dangling pointers.
\<close>

lemma InsertFecPacket_inv:
  assumes inv: "decoder_inv g M w bo st" and p: "genuine_parity g M w bo (protected_media_ssrc st) p"
    and rs: "\<forall>r \<in> set recovered. genuine M w r"
  shows "\<exists>st'. InsertFecPacket recovered p st = Inr st' \<and> decoder_inv g M w bo st' \<and>
    protected_media_ssrc st' = protected_media_ssrc st"
proof (cases "(\<exists>f \<in> set (received_fec st). fp_seq f = rcv_seq p) \<or> rcv_ssrc p \<noteq> protected_media_ssrc st")
  case True
  obtain media b where pp: "parity_packet g media b (rcv_pkt p)" using p by (auto simp: genuine_parity_def)
  obtain h data where h: "ReadFecHeader (rcv_ssrc p) (rcv_pkt p) = Inr (Some (h, data))"
    using pp unfolding parity_packet_def by blast
  have "ps_ssrc (fh_stream h) = rcv_ssrc p" using parity_packetD [OF pp h] by simp
  thus ?thesis using True inv h by (auto simp: InsertFecPacket_def Let_def)
next
  case False
  let ?ssrc = "protected_media_ssrc st"
  obtain media b where b: "sent_batch M ?ssrc media" and pp: "parity_packet g media b (rcv_pkt p)"
    and o: "offset w (ParseSequenceNumber (hd media)) = bo (offset w (rcv_seq p))" "offset w (ParseSequenceNumber (hd media)) + 32 \<le> 0x8000"
    "in_window w (rcv_seq p)"
    using p by (auto simp: genuine_parity_def)
  obtain h data where h: "ReadFecHeader (rcv_ssrc p) (rcv_pkt p) = Inr (Some (h, data))"
    using pp unfolding parity_packet_def by blast
  note H = parity_packetD [OF pp h]
  obtain qs a where A: "AssignRecoveredPackets (seq_num_base (fh_stream h)) (protected_of_mask ?ssrc (fh_stream h)) recovered (pkt_arrive (fh_stream h)) = (qs, a)"
    by fastforce
  let ?f = "\<lparr>fp_id = next_id st, fp_ssrc = rcv_ssrc p, fp_seq = rcv_seq p, fp_protected = qs, fp_maybe_loss = [],
     fp_header_size = fh_size h, fp_stream = (fh_stream h)\<lparr>pkt_arrive := a\<rparr>, fp_protection_length = fh_protection_length h, fp_pkt = data\<rparr>"
  have c: "carries g M ?f" "all_protected ?f" "seq_num_base (fp_stream ?f) = ParseSequenceNumber (hd media)"
    "\<forall>p \<in> set qs. pp_ssrc p = ?ssrc \<and> sent M (pp_seq p) \<and> ParseSsrc (M (pp_seq p)) = ?ssrc"
    by (rule parity_carries [where f = ?f, OF b pp h _ A]; use rs in \<open>simp add: genuine_def\<close>)+
  have f: "fec_inv g M w bo ?f" using c o by (simp add: fec_inv_def)
  obtain f' st' where am: "AssignMaybeLossPackets ?f (st\<lparr>next_id := Suc (next_id st)\<rparr>) = (f', st')" by fastforce
  have a: "decoder_inv g M w bo (st'\<lparr>received_fec := sort_by fp_less (received_fec st' @ [f'])\<rparr>)"
    "protected_media_ssrc st' = ?ssrc"
    by (rule AssignMaybeLoss_inv [OF inv f _ _ _ _ am]; use c(4) False in auto)+
  let ?fs = "sort_by fp_less (received_fec st' @ [f'])"
  have "decoder_inv g M w bo (st'\<lparr>received_fec := tl ?fs\<rparr>)"
    using decoder_inv_sub [OF a(1), of "tl ?fs" "consider_loss st'"] by (simp add: suffix_imp_subseq suffix_tl)
  moreover have "bit (pkt_mask (fh_stream h)) 0" using carriesD(2) [OF c(1)] by simp
  hence "protected_of_mask ?ssrc (fh_stream h) \<noteq> []" using H by (auto simp: protected_of_mask_def filter_empty_conv)
  ultimately show ?thesis
    using False h H A am a by (auto simp: InsertFecPacket_def Let_def)
qed

text \<open>A packet that the network has delivered unchanged.\<close>

definition from_sender :: "gf_op \<Rightarrow> (u16 \<Rightarrow> byte list) \<Rightarrow> u16 \<Rightarrow> (nat \<Rightarrow> nat) \<Rightarrow> u32 \<Rightarrow> received_packet \<Rightarrow> bool" where
  "from_sender g M w bo ssrc p \<longleftrightarrow>
     (if rcv_is_fec p then genuine_parity g M w bo ssrc p
      else in_window w (rcv_seq p) \<and> rcv_pkt p = M (rcv_seq p))"

lemma dropWhile_keeps: "x \<in> set xs \<Longrightarrow> \<not> P x \<Longrightarrow> x \<in> set (dropWhile P xs)"
  by (induction xs) auto

text \<open>Dropping old losses leaves those alive that are protected together with the packet.\<close>

lemma drop_near:
  assumes inv: "decoder_inv g M w bo st" and alive: "all_alive st" and f: "f \<in> set (received_fec st)"
    and s: "s \<in> protected_seqs f"
    and cs: "cs = consider_loss st \<or> cs = dropWhile (\<lambda>l. unat (MinDiff s (lp_seq l)) > kConsiderLossSeqThreadshold) (consider_loss st)"
  shows "set (fp_maybe_loss f) \<subseteq> lp_id ` set cs"
proof
  fix i assume i: "i \<in> set (fp_maybe_loss f)"
  have fi: "fec_inv g M w bo f" and t: "tracked (consider_loss st) f" using inv f by (auto simp: decoder_inv_def linked_def)
  have "set (fp_maybe_loss f) \<subseteq> lp_id ` set (consider_loss st)" using alive f by (simp add: all_alive_def)
  then obtain ls where ls: "set ls \<subseteq> set (consider_loss st)" "map lp_id ls = fp_maybe_loss f" "map lp_seq ls = missing f"
    using t by (auto simp: tracked_def)
  then obtain l where l: "l \<in> set ls" "lp_id l = i" using i by (metis in_set_conv_nth length_map nth_map nth_mem)
  have "lp_seq l \<in> protected_seqs f"
    using l(1) missing_protected [of f] by (auto simp flip: ls(3))
  hence "unat (MinDiff s (lp_seq l)) < 32" by (rule protected_near [OF fi s])
  hence "l \<in> set cs" using cs l(1) ls(1) by (auto intro: dropWhile_keeps)
  thus "i \<in> lp_id ` set cs" using l(2) by blast
qed

lemma InsertMediaPacket_inv:
  assumes inv: "decoder_inv g M w bo st" and p: "in_window w (rcv_seq p)" "rcv_pkt p = M (rcv_seq p)"
    and rs: "\<forall>r \<in> set recovered. genuine M w r"
    and near: "\<forall>f \<in> set (received_fec st). rcv_seq p \<in> protected_seqs f \<longrightarrow> set (fp_maybe_loss f) \<subseteq> lp_id ` set (consider_loss st)"
    and I: "InsertMediaPacket p st recovered = (st', recovered')"
  shows "decoder_inv g M w bo st' \<and> (\<forall>r \<in> set recovered'. genuine M w r) \<and> protected_media_ssrc st' = protected_media_ssrc st"
proof (cases "\<exists>r \<in> set recovered. rp_seq r = rcv_seq p")
  case True
  thus ?thesis using I inv rs by (auto simp: InsertMediaPacket_def)
next
  case False
  let ?r = "\<lparr>rp_ssrc = rcv_ssrc p, rp_seq = rcv_seq p, was_recovered = False, returned = True, rp_pkt = rcv_pkt p\<rparr>"
  have e: "st' = arrive [] ?r st" "recovered' = sort_by rp_less (recovered @ [?r])"
    using I False by (auto simp: InsertMediaPacket_def Let_def arrive_def)
  have r: "genuine M w ?r" using p by (simp add: genuine_def)
  have "decoder_inv g M w bo st'" unfolding e by (rule arrive_inv(1) [OF inv r]) (use near in simp)
  moreover have "protected_media_ssrc st' = protected_media_ssrc st"
    unfolding e by (subst arrive_eq [OF inv]) (use p in simp_all)
  ultimately show ?thesis using rs r e by auto
qed

lemma InsertPacket_inv:
  assumes inv: "decoder_inv g M w bo st" "all_alive st" and rs: "\<forall>r \<in> set recovered. genuine M w r"
    and p: "from_sender g M w bo (protected_media_ssrc st) p"
  shows "\<exists>st' recovered'. InsertPacket p st recovered = Inr (st', recovered') \<and> decoder_inv g M w bo st' \<and>
    (\<forall>r \<in> set recovered'. genuine M w r) \<and> protected_media_ssrc st' = protected_media_ssrc st"
proof -
  define fecs where "fecs = (if received_fec st \<noteq> [] \<and> rcv_ssrc p = fp_ssrc (hd (received_fec st))
      then dropWhile (\<lambda>f. unat (MinDiff (rcv_seq p) (fp_seq f)) > kOldSequenceThreshold) (received_fec st) else received_fec st)"
  define cs where "cs = (if consider_loss st \<noteq> [] \<and> rcv_ssrc p = lp_ssrc (hd (consider_loss st))
      then dropWhile (\<lambda>l. unat (MinDiff (rcv_seq p) (lp_seq l)) > kConsiderLossSeqThreadshold) (consider_loss st) else consider_loss st)"
  let ?st = "st\<lparr>received_fec := fecs, consider_loss := cs\<rparr>"
  have sub: "subseq fecs (received_fec st)" "subseq cs (consider_loss st)"
    by (auto simp: fecs_def cs_def suffix_dropWhile)
  have i: "decoder_inv g M w bo ?st" by (rule decoder_inv_sub [OF inv(1) sub])
  have keep: "\<forall>r \<in> set (DiscardOldRecoveredPackets rs). genuine M w r" if "\<forall>r \<in> set rs. genuine M w r" for rs
    using that by (auto simp: DiscardOldRecoveredPackets_def dest: in_set_dropD)
  show ?thesis
  proof (cases "rcv_is_fec p")
    case True
    hence "genuine_parity g M w bo (protected_media_ssrc ?st) p" using p by (simp add: from_sender_def)
    from InsertFecPacket_inv [OF i this rs] True show ?thesis
      using keep [OF rs] by (auto simp: InsertPacket_def Let_def simp flip: fecs_def cs_def)
  next
    case False
    obtain st' recovered' where I: "InsertMediaPacket p ?st recovered = (st', recovered')" by fastforce
    have p': "in_window w (rcv_seq p)" "rcv_pkt p = M (rcv_seq p)" using p False by (auto simp: from_sender_def)
    have near: "\<forall>f \<in> set (received_fec ?st). rcv_seq p \<in> protected_seqs f \<longrightarrow> set (fp_maybe_loss f) \<subseteq> lp_id ` set (consider_loss ?st)"
    proof (intro ballI impI)
      fix f assume f: "f \<in> set (received_fec ?st)" "rcv_seq p \<in> protected_seqs f"
      have "set (fp_maybe_loss f) \<subseteq> lp_id ` set cs"
        by (rule drop_near [OF inv _ f(2)]) (use f(1) subseq_set [OF sub(1)] in \<open>auto simp: cs_def\<close>)
      thus "set (fp_maybe_loss f) \<subseteq> lp_id ` set (consider_loss ?st)" by simp
    qed
    have "decoder_inv g M w bo st' \<and> (\<forall>r \<in> set recovered'. genuine M w r) \<and> protected_media_ssrc st' = protected_media_ssrc ?st"
      by (rule InsertMediaPacket_inv [OF i p' rs near I])
    thus ?thesis using I False keep by (auto simp: InsertPacket_def Let_def simp flip: fecs_def cs_def)
  qed
qed

subsection \<open>Removing parity packets with dangling pointers\<close>

lemma lock_loss_None: "lock_loss st [] i \<noteq> None \<longleftrightarrow> i \<in> lp_id ` set (consider_loss st)"
  by (auto simp: lock_loss_def find_None_iff)

lemma missing_sorted: "fec_inv g M w bo f \<Longrightarrow> sorted_wrt (\<lambda>x y. offset w x < offset w y) (missing f)"
  using sorted_window_subseq [OF subseq_filter_left sorted_protected, of g M w bo f "\<lambda>p. pp_pkt p = None"]
  by (simp add: missing_def sorted_wrt_map sorted_window_def)

lemma sort_maybe_loss_id:
  assumes inv: "decoder_inv g M w bo st" and f: "f \<in> set (received_fec st)"
    and alive: "set (fp_maybe_loss f) \<subseteq> lp_id ` set (consider_loss st)"
  shows "sort_maybe_loss st f = f"
proof -
  have fi: "fec_inv g M w bo f" and t: "tracked (consider_loss st) f" and d: "distinct (map lp_id (consider_loss st))"
    and cs: "sorted_window w lp_seq (consider_loss st)"
    using inv f by (auto simp: decoder_inv_def linked_def)
  obtain ls where ls: "set ls \<subseteq> set (consider_loss st)" "map lp_id ls = fp_maybe_loss f" "map lp_seq ls = missing f"
    using t alive by (auto simp: tracked_def)
  have lw: "in_window w (lp_seq l)" if "l \<in> set ls" for l using that ls(1) cs by (auto simp: sorted_window_def)
  have "sorted_wrt (\<lambda>x y. offset w (lp_seq x) < offset w (lp_seq y)) ls"
    using missing_sorted [OF fi] unfolding ls(3) [symmetric] sorted_wrt_map .
  hence "sorted_wrt (\<lambda>x y. \<not> lp_less y x) ls"
    by (rule sorted_wrt_mono_rel [rotated]) (simp add: lp_less_def IsNewer_window [OF lw lw])
  hence "sorted_wrt (\<lambda>i j. \<not> (case (lock_loss st [] j, lock_loss st [] i) of (Some a, Some b) \<Rightarrow> lp_less a b | _ \<Rightarrow> False)) (map lp_id ls)"
    unfolding sorted_wrt_map
    by (rule sorted_wrt_mono_rel [rotated]) (use ls(1) lock_loss_alive [OF d] in \<open>auto simp: subset_iff\<close>)
  thus ?thesis unfolding sort_maybe_loss_def ls(2) by (simp add: sort_by_sorted)
qed

text \<open>Losses that no buffered parity packet refers to are removed.\<close>

definition referenced :: "fec_packet list \<Rightarrow> loss_packet list \<Rightarrow> loss_packet list" where
  "referenced fecs cs = filter (\<lambda>l. lp_refs l \<noteq> [])
     (map (\<lambda>l. l\<lparr>lp_refs := filter (\<lambda>i. i \<in> fp_id ` set fecs) (lp_refs l)\<rparr>) cs)"

lemma referenced_inv:
  assumes link: "linked nid fecs cs" and alive: "\<forall>f \<in> set fecs. set (fp_maybe_loss f) \<subseteq> lp_id ` set cs"
  shows "linked nid fecs (referenced fecs cs)" "\<forall>f \<in> set fecs. set (fp_maybe_loss f) \<subseteq> lp_id ` set (referenced fecs cs)"
proof -
  define h where "h l = l\<lparr>lp_refs := filter (\<lambda>i. i \<in> fp_id ` set fecs) (lp_refs l)\<rparr>" for l :: loss_packet
  have e: "referenced fecs cs = filter (\<lambda>l. lp_refs l \<noteq> []) (map h cs)" by (simp add: referenced_def h_def [abs_def])
  have h: "lp_id (h l) = lp_id l" "lp_seq (h l) = lp_seq l" "lp_refs (h l) = filter (\<lambda>i. i \<in> fp_id ` set fecs) (lp_refs l)" for l
    by (simp_all add: h_def)
  have l: "linked nid fecs (map h cs)" by (rule linked_map [OF link]) (use link in \<open>auto simp: h linked_def\<close>)
  thus "linked nid fecs (referenced fecs cs)" unfolding e by (rule linked_sub) auto
  show "\<forall>f \<in> set fecs. set (fp_maybe_loss f) \<subseteq> lp_id ` set (referenced fecs cs)"
  proof (intro ballI subsetI)
    fix f i assume f: "f \<in> set fecs" and i: "i \<in> set (fp_maybe_loss f)"
    obtain c where c: "c \<in> set cs" "lp_id c = i" using alive f i by fastforce
    have "fp_id f \<in> set (lp_refs c)" using linkedD(1) [OF link f c(1)] c(2) i by simp
    hence "fp_id f \<in> set (lp_refs (h c))" using f by (simp add: h)
    hence "h c \<in> set (referenced fecs cs)" using c(1) by (auto simp: e)
    thus "i \<in> lp_id ` set (referenced fecs cs)" using c(2) h(1) [of c] by (metis imageI)
  qed
qed

lemma referenced_seq:
  "sorted_window w lp_seq cs \<Longrightarrow> sorted_window w lp_seq (referenced fecs cs)"
  "\<forall>l \<in> set cs. lost_sent M l \<Longrightarrow> \<forall>l \<in> set (referenced fecs cs). lost_sent M l"
  unfolding referenced_def
  by (rule sorted_window_subseq [OF subseq_filter_left], simp) (auto simp: lost_sent_def)

lemma ensure_valid_inv:
  assumes inv: "decoder_inv g M w bo st"
  shows "decoder_inv g M w bo (ensure_valid recovered st)" "all_alive (ensure_valid recovered st)"
    "subseq (received_fec (ensure_valid recovered st)) (received_fec st)"
    "protected_media_ssrc (ensure_valid recovered st) = protected_media_ssrc st"
proof -
  let ?fs = "filter (valid_fec st recovered) (received_fec st)"
  have alive: "\<forall>f \<in> set ?fs. set (fp_maybe_loss f) \<subseteq> lp_id ` set (consider_loss st)"
    by (auto simp: valid_fec_def simp flip: lock_loss_None)
  have "map (sort_maybe_loss st) ?fs = ?fs"
    using alive by (intro map_idI sort_maybe_loss_id [OF inv]) auto
  hence e: "ensure_valid recovered st = st\<lparr>received_fec := ?fs, consider_loss := referenced ?fs (consider_loss st)\<rparr>"
    by (simp add: ensure_valid_def Let_def referenced_def DeleteUnavailableFec_def fec_alive_def [abs_def])
  have sub: "subseq ?fs (received_fec st)" by simp
  have i: "decoder_inv g M w bo (st\<lparr>received_fec := ?fs, consider_loss := consider_loss st\<rparr>)"
    by (rule decoder_inv_sub [OF inv sub]) simp
  hence link: "linked (next_id st) ?fs (consider_loss st)" by (simp add: decoder_inv_def)
  note r = referenced_inv [OF link alive]
  show "decoder_inv g M w bo (ensure_valid recovered st)" "all_alive (ensure_valid recovered st)"
    "subseq (received_fec (ensure_valid recovered st)) (received_fec st)"
    "protected_media_ssrc (ensure_valid recovered st) = protected_media_ssrc st"
    unfolding e using i r referenced_seq(1) [of w "consider_loss st" ?fs] referenced_seq(2) [of "consider_loss st" M ?fs]
    by (simp_all add: decoder_inv_def all_alive_def)
qed

end
