(* ===== verification/RS_Session.thy ===== *)
theory RS_Session
  imports RS_Accept
begin

text \<open>
  A session of the Reed-Solomon decoder: the search for a group, the recovery of its packets and the
  loop around them, for any sequence of packets that the network delivers.
\<close>

subsection \<open>The search\<close>

lemma lock_all_alive:
  assumes "distinct (map lp_id (consider_loss st))" "set ls \<subseteq> set (consider_loss st)"
  shows "lock_all st (map lp_id ls) = Inr ls"
  using assms(2) by (induction ls) (auto simp: lock_loss_alive [OF assms(1)])

lemma match_selected_spec:
  assumes "match_selected sel ms = Some new" "sorted_window w lp_seq sel" "sorted_window w lp_seq ms"
  shows "suffix new ms \<and> lp_seq ` set ms \<subseteq> lp_seq ` set sel \<union> lp_seq ` set new \<and>
    (\<forall>s \<in> set sel. \<forall>n \<in> set new. offset w (lp_seq s) < offset w (lp_seq n))"
  using assms
proof (induction sel ms rule: match_selected.induct)
  case (3 s ss c cs)
  have w: "lp_less s c \<longleftrightarrow> offset w (lp_seq s) < offset w (lp_seq c)"
    using "3.prems"(2,3) by (simp add: lp_less_def IsNewer_window sorted_window_def)
  have ss: "sorted_window w lp_seq ss" "sorted_window w lp_seq cs" using "3.prems"(2,3) by (simp_all add: sorted_window_def)
  have ge: "offset w (lp_seq c) \<le> offset w (lp_seq n)" if "suffix new (c # cs)" "n \<in> set new" for n
    using set_mono_suffix [OF that(1)] that(2) "3.prems"(3) by (fastforce simp: sorted_window_def)
  consider (lt) "lp_less s c" | (eq) "\<not> lp_less s c" "lp_seq s = lp_seq c" using "3.prems"(1) by (auto split: if_splits)
  thus ?case
  proof cases
    case lt
    hence "match_selected ss (c # cs) = Some new" using "3.prems"(1) by simp
    note IH = "3.IH"(1) [OF lt this ss(1) "3.prems"(3)]
    have "offset w (lp_seq s) < offset w (lp_seq n)" if "n \<in> set new" for n
      using lt w ge [OF conjunct1 [OF IH] that] by simp
    thus ?thesis using IH by auto
  next
    case eq
    hence "match_selected ss cs = Some new" using "3.prems"(1) by simp
    note IH = "3.IH"(2) [OF eq(1) _ this ss]
    moreover have "offset w (lp_seq s) < offset w (lp_seq n)" if "n \<in> set cs" for n
      using that "3.prems"(3) eq(2) by (simp add: sorted_window_def)
    ultimately show ?thesis using eq(2) set_mono_suffix [of new cs] by (auto simp: suffix_Cons)
  qed
qed auto

text \<open>The losses collected so far are the packets missing for the parity packets selected so far.\<close>

definition collected :: "u16 \<Rightarrow> rs_fec \<Rightarrow> fec_packet list \<Rightarrow> loss_packet list \<Rightarrow> bool" where
  "collected w st fecs ls \<longleftrightarrow> sorted_window w lp_seq ls \<and> set ls \<subseteq> set (consider_loss st) \<and>
     lp_seq ` set ls = (\<Union>f \<in> set fecs. set (missing f))"

lemma alive_lock:
  assumes inv: "decoder_inv g M w bo st" "all_alive st" and f: "f \<in> set (received_fec st)"
  shows "\<exists>ms. lock_all st (fp_maybe_loss f) = Inr ms \<and> sorted_window w lp_seq ms \<and> set ms \<subseteq> set (consider_loss st) \<and>
    map lp_seq ms = missing f"
proof -
  have fi: "fec_inv g M w bo f" and t: "tracked (consider_loss st) f" and d: "distinct (map lp_id (consider_loss st))"
    and cs: "sorted_window w lp_seq (consider_loss st)"
    using inv f by (auto simp: decoder_inv_def linked_def)
  obtain ls where ls: "set ls \<subseteq> set (consider_loss st)" "map lp_id ls = fp_maybe_loss f" "map lp_seq ls = missing f"
    using t inv(2) f by (auto simp: tracked_def all_alive_def)
  have "sorted_wrt (\<lambda>x y. offset w (lp_seq x) < offset w (lp_seq y)) ls"
    using missing_sorted [OF fi] unfolding ls(3) [symmetric] sorted_wrt_map .
  hence "sorted_window w lp_seq ls" using ls(1) cs by (auto simp: sorted_window_def)
  thus ?thesis using lock_all_alive [OF d ls(1)] ls by auto
qed

lemma Search_collects:
  assumes inv: "decoder_inv g M w bo st" "all_alive st" and fs: "set fs \<subseteq> set (received_fec st)"
    and c: "collected w st sel_fec sel_loss"
  shows "case SearchFECPacket st fs sel_fec sel_loss CMLP of
      Inl e \<Rightarrow> e = BadIterator | Inr None \<Rightarrow> True
    | Inr (Some (F, L)) \<Rightarrow> collected w st F L \<and> length F = length L \<and> F \<noteq> [] \<and> (\<exists>n. F = sel_fec @ take n fs)"
  using fs c
proof (induction fs arbitrary: sel_fec sel_loss CMLP)
  case Nil
  thus ?case by simp
next
  case (Cons f fs)
  obtain ms where ms: "lock_all st (fp_maybe_loss f) = Inr ms" "sorted_window w lp_seq ms" "set ms \<subseteq> set (consider_loss st)"
    "map lp_seq ms = missing f"
    using alive_lock [OF inv, of f] Cons.prems(1) by auto
  show ?case
  proof (cases "match_selected sel_loss ms")
    case None
    thus ?thesis using ms(1) by simp
  next
    case (Some new)
    have sel: "sorted_window w lp_seq sel_loss" using Cons.prems(2) by (simp add: collected_def)
    note m = match_selected_spec [OF Some sel ms(2)]
    have sn: "sorted_window w lp_seq new" by (rule sorted_window_subseq [OF _ ms(2)]) (use m in auto)
    have nm: "set new \<subseteq> set ms" using m set_mono_suffix by blast
    have mm: "lp_seq ` set ms = set (missing f)" unfolding ms(4) [symmetric] by simp
    have "lp_seq ` set new \<subseteq> lp_seq ` set ms" using nm by (rule image_mono)
    hence "lp_seq ` set (sel_loss @ new) = (\<Union>f \<in> set (sel_fec @ [f]). set (missing f))"
      using Cons.prems(2) m unfolding collected_def mm set_append image_Un UN_Un by auto
    moreover have "sorted_window w lp_seq (sel_loss @ new)"
      using sel sn m unfolding sorted_window_def sorted_wrt_append by auto
    ultimately have c': "collected w st (sel_fec @ [f]) (sel_loss @ new)"
      using Cons.prems(2) nm ms(3) by (auto simp: collected_def)
    have more: "\<exists>n. F = sel_fec @ take n (f # fs)" if "F = (sel_fec @ [f]) @ take n fs" for F n
      using that by (intro exI [of _ "Suc n"]) simp
    let ?C = "tl (CMLP @ new)"
    have "set fs \<subseteq> set (received_fec st)" using Cons.prems(1) by simp
    note IH = Cons.IH [OF this c', of ?C]
    have "case SearchFECPacket st fs (sel_fec @ [f]) (sel_loss @ new) ?C of
        Inl e \<Rightarrow> e = BadIterator | Inr None \<Rightarrow> True
      | Inr (Some (F, L)) \<Rightarrow> collected w st F L \<and> length F = length L \<and> F \<noteq> [] \<and> (\<exists>n. F = sel_fec @ take n (f # fs))"
      using IH more by (auto split: sum.splits option.splits)
    thus ?thesis
      using ms(1) Some c' more [of "sel_fec @ [f]" 0] by (simp add: Let_def split: list.split)
  qed
qed

lemma search_groups_spec:
  assumes "decoder_inv g M w bo st" "all_alive st"
  shows "case search_groups st k of
      Inl e \<Rightarrow> e = BadIterator | Inr None \<Rightarrow> True
    | Inr (Some (F, L)) \<Rightarrow> collected w st F L \<and> length F = length L \<and> F \<noteq> [] \<and> (\<exists>i n. F = take n (drop i (received_fec st)))"
proof (induction k)
  case (Suc k)
  have "set (drop k (received_fec st)) \<subseteq> set (received_fec st)" by (rule set_drop_subset)
  moreover have "collected w st [] []" by (simp add: collected_def sorted_window_def)
  ultimately have "case SearchFECPacket st (drop k (received_fec st)) [] [] [] of
      Inl e \<Rightarrow> e = BadIterator | Inr None \<Rightarrow> True
    | Inr (Some (F, L)) \<Rightarrow> collected w st F L \<and> length F = length L \<and> F \<noteq> [] \<and> (\<exists>n. F = [] @ take n (drop k (received_fec st)))"
    by (rule Search_collects [OF assms])
  thus ?case using Suc by (auto split: sum.splits option.splits)
qed simp

lemma offset_shift: "offset w b \<le> offset w x \<Longrightarrow> offset b x = offset w x - offset w b"
  using unat_diff_offset [of b w x] by (simp add: offset_def)

lemma collected_selected:
  assumes inv: "decoder_inv g M w bo st" and F: "f0 # fs = take n (drop i (received_fec st))"
    and c: "collected w st (f0 # fs) L" "length (f0 # fs) = length L" and bo: "mono bo"
  shows "selected (seq_num_base (fp_stream f0)) (f0 # fs) L" "\<forall>l \<in> set L. lost_sent M l"
    "\<forall>f \<in> set (f0 # fs). carries g M f \<and> all_protected f \<and> group_diff (seq_num_base (fp_stream f0)) f < 0x8000"
proof -
  let ?b = "seq_num_base (fp_stream f0)"
  have sub: "subseq (f0 # fs) (received_fec st)"
    unfolding F by (rule subseq_order.trans [of _ "drop i (received_fec st)"]) (auto simp: take_is_prefix suffix_drop)
  have fi: "fec_inv g M w bo f" if "f \<in> set (f0 # fs)" for f
    using inv subseq_set [OF sub] that by (auto simp: decoder_inv_def)
  have srt: "sorted_window w fp_seq (f0 # fs)"
    using inv by (intro sorted_window_subseq [OF sub]) (simp add: decoder_inv_def)
  have ge: "offset w ?b \<le> offset w (seq_num_base (fp_stream f))" if f: "f \<in> set (f0 # fs)" for f
  proof -
    have "offset w (fp_seq f0) \<le> offset w (fp_seq f)" using srt f by (auto simp: sorted_window_def)
    thus ?thesis using fi [OF f] fi [of f0] monoD [OF bo] by (simp add: fec_inv_def)
  qed
  have o: "offset ?b (lp_seq l) = offset w (lp_seq l) - offset w ?b \<and> offset w ?b \<le> offset w (lp_seq l)" if l: "l \<in> set L" for l
  proof -
    obtain f where f: "f \<in> set (f0 # fs)" "lp_seq l \<in> set (missing f)" using c(1) l unfolding collected_def by blast
    obtain j where "offset w (lp_seq l) = offset w (seq_num_base (fp_stream f)) + j"
      using protected_seq [OF fi [OF f(1)] subsetD [OF missing_protected f(2)]] by blast
    thus ?thesis using offset_shift [of w ?b "lp_seq l"] ge [OF f(1)] by simp
  qed
  have "sorted_wrt (\<lambda>l l'. offset w (lp_seq l) < offset w (lp_seq l')) L" using c(1) by (simp add: collected_def sorted_window_def)
  hence "sorted_wrt (\<lambda>l l'. offset ?b (lp_seq l) < offset ?b (lp_seq l')) L"
    by (rule sorted_wrt_mono_rel [rotated]) (use o in \<open>simp add: diff_less_mono\<close>)
  thus "selected ?b (f0 # fs) L" using c by (simp add: selected_def collected_def)
  show "\<forall>l \<in> set L. lost_sent M l" using c(1) inv by (auto simp: collected_def decoder_inv_def)
  show "\<forall>f \<in> set (f0 # fs). carries g M f \<and> all_protected f \<and> group_diff ?b f < 0x8000"
  proof
    fix f assume f: "f \<in> set (f0 # fs)"
    show "carries g M f \<and> all_protected f \<and> group_diff ?b f < 0x8000"
      using fi [OF f] offset_shift [OF ge [OF f]] by (auto simp: fec_inv_def group_diff_def)
  qed
qed

subsection \<open>Inserting what was recovered, removing what was used\<close>

lemma insert_recovered_inv:
  assumes "decoder_inv g M w bo st" "all_alive st" "\<forall>r \<in> set recovered. genuine M w r" "\<forall>r \<in> set rs. genuine M w r"
    and "insert_recovered held rs st recovered = (st', recovered')"
  shows "decoder_inv g M w bo st' \<and> all_alive st' \<and> (\<forall>r \<in> set recovered'. genuine M w r) \<and>
    map fp_seq (received_fec st') = map fp_seq (received_fec st) \<and> protected_media_ssrc st' = protected_media_ssrc st"
  using assms
proof (induction rs arbitrary: st recovered)
  case (Cons r rs)
  let ?st = "arrive held r st" and ?rec = "DiscardOldRecoveredPackets (sort_by rp_less (recovered @ [r]))"
  have r: "genuine M w r" using Cons.prems(4) by simp
  have near: "\<forall>f \<in> set (received_fec st). rp_seq r \<in> protected_seqs f \<longrightarrow> set (fp_maybe_loss f) \<subseteq> lp_id ` set (consider_loss st)"
    using Cons.prems(2) by (simp add: all_alive_def)
  note a = arrive_inv [OF Cons.prems(1) r near, of held]
  have ssrc: "protected_media_ssrc ?st = protected_media_ssrc st"
    by (subst arrive_eq [OF Cons.prems(1)]) (use r in \<open>simp_all add: genuine_def\<close>)
  have "set ?rec \<subseteq> set (recovered @ [r])"
    unfolding DiscardOldRecoveredPackets_def by (metis set_drop_subset set_sort_by)
  hence "\<forall>x \<in> set ?rec. genuine M w x" using Cons.prems(3) r by auto
  moreover have "insert_recovered held rs ?st ?rec = (st', recovered')" using Cons.prems(5) by (simp add: arrive_def Let_def)
  ultimately show ?case using Cons.IH [OF a(1) a(2) [OF Cons.prems(2)]] Cons.prems(4) a(3) ssrc by simp
qed simp

lemma erase_fecs_subseq: "subseq (erase_fecs cs rs) rs"
proof (induction cs rs rule: erase_fecs.induct)
  case (2 c cs rs)
  let ?P = "\<lambda>r. fp_less r c"
  have "subseq (case dropWhile ?P rs of [] \<Rightarrow> []
      | r # rest \<Rightarrow> if fp_seq c = fp_seq r then erase_fecs cs rest else erase_fecs cs (r # rest)) (dropWhile ?P rs)"
    using "2.IH" by (auto split: list.split intro: list_emb_Cons)
  hence "subseq (erase_fecs (c # cs) rs) (takeWhile ?P rs @ dropWhile ?P rs)"
    by (simp only: erase_fecs.simps subseq_append')
  thus ?case by simp
qed simp

lemma erase_fecs_less:
  assumes rs: "sorted_window w fp_seq rs" and c: "in_window w (fp_seq c)" "fp_seq c \<in> fp_seq ` set rs"
  shows "length (erase_fecs (c # cs) rs) < length rs"
proof -
  let ?P = "\<lambda>r. fp_less r c"
  obtain r where r: "r \<in> set rs" "fp_seq r = fp_seq c" using c(2) by auto
  have P: "?P x \<longleftrightarrow> offset w (fp_seq x) < offset w (fp_seq c)" if "x \<in> set rs" for x
    using that rs c(1) by (simp add: fp_less_def IsNewer_window sorted_window_def)
  have "r \<in> set (dropWhile ?P rs)" using r P by (intro dropWhile_keeps) auto
  then obtain d rest where d: "dropWhile ?P rs = d # rest" by (cases "dropWhile ?P rs") auto
  have dr: "\<not> ?P d" "d \<in> set rs" using hd_dropWhile [of ?P rs] set_dropWhileD [of d ?P rs] d by auto
  have "sorted_window w fp_seq (d # rest)" unfolding d [symmetric] by (rule sorted_window_subseq [OF _ rs]) (auto simp: suffix_dropWhile)
  hence "fp_seq d = fp_seq c"
    using dr P \<open>r \<in> set (dropWhile ?P rs)\<close> r unfolding d by (auto simp: sorted_window_def)
  hence e: "erase_fecs (c # cs) rs = takeWhile ?P rs @ erase_fecs cs rest" by (simp add: d)
  have "length (erase_fecs cs rest) \<le> length rest" by (rule list_emb_length [OF erase_fecs_subseq])
  moreover have "length rs = length (takeWhile ?P rs) + length (d # rest)"
    using arg_cong [OF takeWhile_dropWhile_id [of ?P rs, symmetric], of length] unfolding d by simp
  ultimately show ?thesis unfolding e by simp
qed

subsection \<open>The loop\<close>

text \<open>What holds between two calls of the decoder.\<close>

definition session_inv :: "gf_op \<Rightarrow> (u16 \<Rightarrow> byte list) \<Rightarrow> u16 \<Rightarrow> (nat \<Rightarrow> nat) \<Rightarrow> u32 \<Rightarrow> rs_fec \<Rightarrow> recovered_packet list \<Rightarrow> bool" where
  "session_inv g M w bo ssrc st recovered \<longleftrightarrow> decoder_inv g M w bo st \<and> protected_media_ssrc st = ssrc \<and>
     (\<forall>r \<in> set recovered. genuine M w r)"

lemma erase_used_inv:
  assumes st: "decoder_inv g M w bo st" "all_alive st" "protected_media_ssrc st = ssrc" "\<forall>r \<in> set recovered. genuine M w r"
    and F: "F \<noteq> []" "\<forall>f \<in> set F. in_window w (fp_seq f)" "fp_seq ` set F \<subseteq> fp_seq ` set (received_fec st)"
  defines "st' \<equiv> st\<lparr>received_fec := erase_fecs (sort_by fp_less F) (received_fec st)\<rparr>"
  shows "session_inv g M w bo ssrc st' recovered \<and> all_alive st' \<and> length (received_fec st') < length (received_fec st)"
proof -
  let ?e = "erase_fecs (sort_by fp_less F) (received_fec st)"
  have sub: "subseq ?e (received_fec st)" by (rule erase_fecs_subseq)
  have "sort_by fp_less F \<noteq> []" using F(1) length_sort_by [of fp_less F] by (metis length_0_conv)
  then obtain c cs where c: "sort_by fp_less F = c # cs" by (cases "sort_by fp_less F") auto
  hence "c \<in> set F" using set_sort_by [of fp_less F] by (metis list.set_intros(1))
  hence "in_window w (fp_seq c)" "fp_seq c \<in> fp_seq ` set (received_fec st)" using F(2,3) by blast+
  hence "length ?e < length (received_fec st)"
    unfolding c using st(1) by (intro erase_fecs_less [of w]) (simp_all add: decoder_inv_def)
  moreover have "decoder_inv g M w bo st'"
    using decoder_inv_sub [OF st(1) sub, of "consider_loss st"] by (simp add: st'_def)
  ultimately show ?thesis
    using st subseq_set [OF sub] by (auto simp: st'_def session_inv_def all_alive_def)
qed

context galois_field
begin

lemma AttemptRecovery_inv:
  assumes inv: "session_inv gmul M w bo ssrc st recovered" and bo: "mono bo"
    and R: "AttemptRecovery gmul gdiv st recovered = Inr (st', recovered', n)"
  shows "session_inv gmul M w bo ssrc st' recovered' \<and> all_alive st' \<and>
    (n \<noteq> 0 \<longrightarrow> length (received_fec st') < length (received_fec st))"
proof -
  let ?st = "ensure_valid recovered st"
  have i: "decoder_inv gmul M w bo st" "protected_media_ssrc st = ssrc" "\<forall>r \<in> set recovered. genuine M w r"
    using inv by (auto simp: session_inv_def)
  note ev = ensure_valid_inv [OF i(1), of recovered]
  have len: "length (received_fec ?st) \<le> length (received_fec st)" by (rule list_emb_length [OF ev(3)])
  note S = search_groups_spec [OF ev(1,2), of "length (received_fec ?st)"]
  show ?thesis
  proof (cases "search_groups ?st (length (received_fec ?st)) = Inr None")
    case True
    hence "st' = ?st" "recovered' = recovered" "n = 0" using R by (auto simp: AttemptRecovery_def Let_def)
    thus ?thesis using ev i by (simp add: session_inv_def)
  next
    case False
    then obtain F L temp where F: "search_groups ?st (length (received_fec ?st)) = Inr (Some (F, L))"
      "RecoverPacket gmul gdiv F L = Inr (Some temp)"
      using R by (auto simp: AttemptRecovery_def Let_def split: sum.splits option.splits prod.splits)
    obtain st2 rec2 where I: "insert_recovered L temp ?st recovered = (st2, rec2)" by fastforce
    have e: "st' = st2\<lparr>received_fec := erase_fecs (sort_by fp_less F) (received_fec st2)\<rparr>" "recovered' = rec2"
      using R F I by (auto simp: AttemptRecovery_def Let_def)
    obtain k m where C: "collected w ?st F L" "length F = length L" "F \<noteq> []" "F = take m (drop k (received_fec ?st))"
      using S F(1) by auto
    obtain f0 fs where f0: "F = f0 # fs" using C(3) by (cases F) auto
    note sel = collected_selected [OF ev(1) C(4) [unfolded f0] C(1,2) [unfolded f0] bo]
    have "temp = map (original M) L"
      by (rule RecoverPacket_genuine [OF sel(3) refl sel(1,2) F(2) [unfolded f0]])
    moreover have "\<forall>l \<in> set L. in_window w (lp_seq l)" using C(1) by (simp add: collected_def sorted_window_def)
    ultimately have t: "\<forall>r \<in> set temp. genuine M w r" by (auto simp: genuine_def original_def)
    note ins = insert_recovered_inv [OF ev(1,2) i(3) t I]
    have sub: "set F \<subseteq> set (received_fec ?st)" unfolding C(4) by (meson dual_order.trans set_drop_subset set_take_subset)
    have w: "\<forall>f \<in> set F. in_window w (fp_seq f)" using sub ev(1) by (auto simp: decoder_inv_def sorted_window_def)
    have "fp_seq ` set (received_fec st2) = fp_seq ` set (received_fec ?st)"
      using arg_cong [OF conjunct1 [OF conjunct2 [OF conjunct2 [OF conjunct2 [OF ins]]]], of set] by simp
    hence sq: "fp_seq ` set F \<subseteq> fp_seq ` set (received_fec st2)" using sub by auto
    have "length (received_fec st2) = length (received_fec ?st)" using ins map_eq_imp_length_eq by blast
    thus ?thesis
      using erase_used_inv [OF _ _ _ _ C(3) w sq, of gmul M bo ssrc rec2] ins ev(4) i(2) len unfolding e by auto
  qed
qed

lemma recovery_loop_total:
  assumes "session_inv gmul M w bo ssrc st recovered" and bo: "mono bo"
  shows "\<exists>r. recovery_loop gmul gdiv st recovered n = Some r \<and>
    (\<forall>st' recovered' k. r = Inr (st', recovered', k) \<longrightarrow> session_inv gmul M w bo ssrc st' recovered' \<and> all_alive st')"
  using assms(1)
proof (induction "length (received_fec st)" arbitrary: st recovered n rule: less_induct)
  case less
  show ?case
  proof (cases "AttemptRecovery gmul gdiv st recovered")
    case (Inl e)
    thus ?thesis by (simp add: recovery_loop.simps)
  next
    case (Inr x)
    obtain st' recovered' k where x: "x = (st', recovered', k)" by (cases x) auto
    note A = AttemptRecovery_inv [OF less.prems bo Inr [unfolded x]]
    show ?thesis
    proof (cases "k = 0")
      case True
      thus ?thesis using Inr x A by (auto simp: recovery_loop.simps [of gmul gdiv st])
    next
      case False
      thus ?thesis using less.hyps [of st' recovered' "n + k"] A Inr x by (simp add: recovery_loop.simps [of gmul gdiv st])
    qed
  qed
qed

lemma DecodeRSFec_total:
  assumes inv: "session_inv gmul M w bo ssrc st recovered" "all_alive st" and p: "from_sender gmul M w bo ssrc p" and bo: "mono bo"
  shows "\<exists>r. DecodeRSFec gmul gdiv p st recovered = Some r \<and>
    (\<forall>st' recovered' k. r = Inr (st', recovered', k) \<longrightarrow> session_inv gmul M w bo ssrc st' recovered' \<and> all_alive st')"
proof -
  define x where "x = (if length recovered = kMaxTrackedMediaPackets \<and> rcv_ssrc p = rp_ssrc (last recovered) \<and>
      unat (MinDiff (rcv_seq p) (rp_seq (last recovered))) > kMaxTrackedMediaPackets then ResetState st else (st, recovered))"
  obtain st1 rec1 where x1: "x = (st1, rec1)" by fastforce
  have s1: "decoder_inv gmul M w bo st1" "all_alive st1" "\<forall>r \<in> set rec1. genuine M w r" "protected_media_ssrc st1 = ssrc"
    using x1 inv unfolding x_def
    by (auto simp: ResetState_def session_inv_def decoder_inv_def all_alive_def sorted_window_def linked_def split: if_splits)
  have p': "from_sender gmul M w bo (protected_media_ssrc st1) p" using p s1(4) by simp
  obtain st2 rec2 where I: "InsertPacket p st1 rec1 = Inr (st2, rec2)" "decoder_inv gmul M w bo st2"
    "\<forall>r \<in> set rec2. genuine M w r" "protected_media_ssrc st2 = ssrc"
    using InsertPacket_inv [OF s1(1-3) p'] s1(4) by auto
  hence "session_inv gmul M w bo ssrc st2 rec2" by (simp add: session_inv_def)
  moreover have "DecodeRSFec gmul gdiv p st recovered = recovery_loop gmul gdiv st2 rec2 0"
    unfolding DecodeRSFec_def x_def [symmetric] x1 by (simp add: I(1))
  ultimately show ?thesis using recovery_loop_total [OF _ bo] by simp
qed

end

text \<open>The decoder run over the packets of a session, from its initial state.\<close>

definition initial_decoder :: "u32 \<Rightarrow> u32 \<Rightarrow> rs_fec" where
  "initial_decoder fssrc ssrc = \<lparr>fec_ssrc = fssrc, protected_media_ssrc = ssrc, received_fec = [], consider_loss = [], next_id = 0\<rparr>"

fun decode_run ::
  "gf_op \<Rightarrow> gf_op \<Rightarrow> received_packet list \<Rightarrow> rs_fec \<Rightarrow> recovered_packet list \<Rightarrow> (rs_fec \<times> recovered_packet list) result option" where
  "decode_run g gd [] st recovered = Some (Inr (st, recovered))"
| "decode_run g gd (p # ps) st recovered =
     (case DecodeRSFec g gd p st recovered of
        None \<Rightarrow> None
      | Some (Inl e) \<Rightarrow> Some (Inl e)
      | Some (Inr (st, recovered, n)) \<Rightarrow> decode_run g gd ps st recovered)"

context galois_field
begin

lemma decode_run_total:
  assumes "session_inv gmul M w bo ssrc st recovered" "all_alive st" "\<forall>p \<in> set ps. from_sender gmul M w bo ssrc p" and bo: "mono bo"
  shows "\<exists>r. decode_run gmul gdiv ps st recovered = Some r \<and>
    (\<forall>st' recovered'. r = Inr (st', recovered') \<longrightarrow> session_inv gmul M w bo ssrc st' recovered' \<and> all_alive st')"
  using assms(1-3)
proof (induction ps arbitrary: st recovered)
  case (Cons p ps)
  have "from_sender gmul M w bo ssrc p" using Cons.prems(3) by simp
  from DecodeRSFec_total [OF Cons.prems(1,2) this bo] obtain r where r: "DecodeRSFec gmul gdiv p st recovered = Some r"
    "\<forall>st' recovered' k. r = Inr (st', recovered', k) \<longrightarrow> session_inv gmul M w bo ssrc st' recovered' \<and> all_alive st'" by blast
  show ?case
  proof (cases r)
    case (Inl e)
    thus ?thesis using r(1) by simp
  next
    case (Inr x)
    obtain st' recovered' k where "x = (st', recovered', k)" by (cases x) auto
    thus ?thesis using r Inr Cons.IH [of st' recovered'] Cons.prems(3) by simp
  qed
qed simp

end

lemma initial_session: "session_inv g M w bo ssrc (initial_decoder fssrc ssrc) []" "all_alive (initial_decoder fssrc ssrc)"
  by (simp_all add: initial_decoder_def session_inv_def decoder_inv_def all_alive_def sorted_window_def linked_def)

end
