(* ===== verification/RS_Live.thy ===== *)
theory RS_Live
  imports RS_Session RS_Properties
begin

text \<open>
  When the decoder must succeed: as soon as a batch has as many parity packets as it has losses, the
  search finds them and the recovery restores every lost packet.
\<close>

subsection \<open>The search in one batch\<close>

lemma match_selected_same: "match_selected ms ms = Some []"
  by (induction ms) (auto simp: lp_less_def)

lemma dropWhile_sorted:
  assumes "sorted_window w lp_seq ms" "j < length ms"
  shows "dropWhile (\<lambda>c. lp_less c (ms ! j)) ms = drop j ms"
proof -
  have P: "lp_less (ms ! i) (ms ! j) \<longleftrightarrow> i < j" if "i < length ms" for i
  proof -
    have "lp_less (ms ! i) (ms ! j) \<longleftrightarrow> offset w (lp_seq (ms ! i)) < offset w (lp_seq (ms ! j))"
      using assms that by (simp add: lp_less_def IsNewer_window sorted_window_def)
    thus ?thesis
      using sorted_wrt_nth_less [OF conjunct2 [OF assms(1) [unfolded sorted_window_def]]] that assms(2)
      by (metis linorder_neqE_nat order_less_asym)
  qed
  have "dropWhile (\<lambda>c. lp_less c (ms ! j)) (take j ms @ drop j ms) = drop j ms"
  proof (subst dropWhile_append2)
    show "lp_less x (ms ! j)" if "x \<in> set (take j ms)" for x
      using that P assms(2) by (auto simp: in_set_conv_nth)
    show "dropWhile (\<lambda>c. lp_less c (ms ! j)) (drop j ms) = drop j ms"
      using P [OF assms(2)] assms(2) by (cases "drop j ms") (auto simp: Cons_nth_drop_Suc [symmetric])
  qed
  thus ?thesis by simp
qed

lemma Search_same:
  assumes ms: "sorted_window w lp_seq ms" and fs: "\<forall>f \<in> set fs. lock_all st (fp_maybe_loss f) = Inr ms"
    and j: "length sel = j" "0 < j" "j < length ms"
  shows "SearchFECPacket st fs sel ms (drop j ms) =
    Inr (if length ms \<le> j + length fs then Some (sel @ take (length ms - j) fs, ms) else None)"
  using fs j
proof (induction fs arbitrary: sel j)
  case Nil
  thus ?case by simp
next
  case (Cons f fs)
  have e: "drop j ms = ms ! j # drop (Suc j) ms" using Cons.prems(4) by (rule Cons_nth_drop_Suc [symmetric])
  have dw: "dropWhile (\<lambda>c. lp_less c (ms ! j)) ms = ms ! j # drop (Suc j) ms"
    using dropWhile_sorted [OF ms Cons.prems(4)] e by simp
  have lk: "lock_all st (fp_maybe_loss f) = Inr ms" "ms \<noteq> []" using Cons.prems by auto
  have step: "SearchFECPacket st (f # fs) sel ms (drop j ms) = (if drop (Suc j) ms = []
      then Inr (if length (sel @ [f]) = length ms then Some (sel @ [f], ms) else None)
      else SearchFECPacket st fs (sel @ [f]) ms (drop (Suc j) ms))"
    using lk dw by (simp add: e match_selected_same Let_def)
  show ?case
  proof (cases "Suc j = length ms")
    case True
    hence "length ms - j = Suc 0" by simp
    thus ?thesis using step Cons.prems(2) True by (simp del: SearchFECPacket.simps)
  next
    case False
    hence "Suc j < length ms" using Cons.prems(4) by simp
    thus ?thesis using step Cons.IH [of "sel @ [f]" "Suc j"] Cons.prems by (simp add: Suc_diff_Suc [symmetric] del: SearchFECPacket.simps)
  qed
qed

lemma Search_batch:
  assumes ms: "sorted_window w lp_seq ms" "ms \<noteq> []" and fs: "\<forall>f \<in> set fs. lock_all st (fp_maybe_loss f) = Inr ms"
  shows "SearchFECPacket st fs [] [] [] = Inr (if length ms \<le> length fs then Some (take (length ms) fs, ms) else None)"
proof (cases fs)
  case Nil
  thus ?thesis using ms(2) by simp
next
  case (Cons f fs')
  have e: "ms = ms ! 0 # drop 1 ms" using ms(2) by (cases ms) auto
  have dw: "dropWhile (\<lambda>c. lp_less c (hd ms)) ms = ms" using dropWhile_sorted [OF ms(1), of 0] ms(2) by (simp add: hd_conv_nth)
  have step: "SearchFECPacket st fs [] [] [] = (if tl ms = []
      then Inr (if length [f] = length ms then Some ([f], ms) else None)
      else SearchFECPacket st fs' [f] ms (tl ms))"
    using fs Cons ms(2) dw by (cases ms) (simp_all add: Let_def)
  show ?thesis
  proof (cases "length ms = 1")
    case True
    thus ?thesis using step Cons by (cases ms) auto
  next
    case False
    hence "1 < length ms" using ms(2) by (cases ms) auto
    thus ?thesis using step Search_same [OF ms(1), of fs' st "[f]" 1] fs Cons
      by (cases ms; cases "length ms") (auto simp: drop_Suc)
  qed
qed

lemma search_groups_batch:
  assumes ms: "sorted_window w lp_seq ms" "ms \<noteq> []" and fs: "\<forall>f \<in> set (received_fec st). lock_all st (fp_maybe_loss f) = Inr ms"
    and n: "n \<le> length (received_fec st)" "length (received_fec st) < n + length ms" "length ms \<le> length (received_fec st)"
  shows "search_groups st n = Inr (Some (drop (length (received_fec st) - length ms) (received_fec st), ms))"
  using n
proof (induction n)
  case (Suc i)
  let ?fs = "drop i (received_fec st)" and ?n = "length (received_fec st)"
  have "\<forall>f \<in> set ?fs. lock_all st (fp_maybe_loss f) = Inr ms" using fs by (auto dest: in_set_dropD)
  note S = Search_batch [OF ms this]
  show ?case
  proof (cases "length ms \<le> length ?fs")
    case True
    hence "i = ?n - length ms" using Suc.prems by simp
    moreover have "take (length ms) ?fs = ?fs" using calculation Suc.prems by simp
    ultimately show ?thesis using S True by simp
  next
    case False
    thus ?thesis using S Suc by simp
  qed
qed simp

subsection \<open>The recovery of one batch\<close>

text \<open>Parity packets of one call of the encoder: one base and mask, consecutive base numbers.\<close>

definition one_batch :: "gf_op \<Rightarrow> u16 \<Rightarrow> u32 \<Rightarrow> nat \<Rightarrow> fec_packet list \<Rightarrow> bool" where
  "one_batch g b0 m e fecs \<longleftrightarrow> (\<forall>i < length fecs. seq_num_base (fp_stream (fecs ! i)) = b0 \<and>
     pkt_mask (fp_stream (fecs ! i)) = m \<and> base_byte (fecs ! i) = gf_pow g 2 (e + i))"

text \<open>Parity packets that fit into the buffers of the decoder.\<close>

definition fits :: "fec_packet list \<Rightarrow> bool" where
  "fits fecs \<longleftrightarrow>
     (\<forall>f \<in> set fecs. fp_protection_length f \<le> 1482 \<and> 18 + fp_protection_length f \<le> length (fp_pkt f))"

lemma group_masks_same:
  assumes "one_batch g b0 m e fecs" "i < length fecs"
  shows "group_masks b0 fecs ! i = bits (ucast m)"
  using assms by (simp add: group_masks_def one_batch_def MinDiff_def ForwardDiff_def ReverseDiff_def)

context galois_primitive
begin

lemma group_matrix_batch:
  assumes ok: "group_ok gmul M b0 fecs c a" and b: "one_batch gmul b0 m e fecs"
    and L: "group_losses b0 c a losses" "length losses = length fecs"
  shows "\<exists>tab. group_matrix gmul gdiv b0 c a fecs = Some tab"
proof -
  let ?n = "length (positions c)"
  have l: "length (window_lost ?n (bits c) (bits a)) = length fecs" using group_lost(1) [OF L] by (simp add: lost_index_def)
  have "leading_regular gmul (window_coef gmul (map base_byte fecs) (group_masks b0 fecs) (bits c)) (window_lost ?n (bits c) (bits a))"
  proof (rule window_regular_consecutive [where pm = "bits (ucast m)"])
    show "map base_byte fecs ! i = gf_pow gmul 2 (e + i)" if "i < length (window_lost ?n (bits c) (bits a))" for i
      using that b l by (simp add: one_batch_def)
    show "group_masks b0 fecs ! i = bits (ucast m)" if "i < length (window_lost ?n (bits c) (bits a))" for i
      using that l by (intro group_masks_same [OF b]) simp
    fix i assume "i \<in> set (window_lost ?n (bits c) (bits a))"
    hence i: "i < ?n" using lost_index_props(2) [of i c a] by (simp add: lost_index_def)
    have p: "positions c ! i < 128" "bit c (positions c ! i)" using positions_props(4,5) [OF i] by auto
    then obtain f where f: "f \<in> set fecs" "protects b0 f (positions c ! i)" using ok unfolding group_ok_def by blast
    then obtain k where k: "k < length fecs" "f = fecs ! k" by (auto simp: in_set_conv_nth)
    have "group_diff b0 (fecs ! k) \<le> 96" using ok f(1) k by (auto simp: group_ok_def)
    hence "group_masks b0 fecs ! k ! (positions c ! i)" using nth_group_masks [OF k(1) _ p(1)] f(2) k(2) by simp
    thus "bits (ucast m) ! (set_positions (bits c) 0 ! i)" by (simp add: group_masks_same [OF b k(1)] set_positions_eq)
  qed (simp_all add: set_positions_eq)
  hence "\<exists>tab. reed_sol_skipped_stream_decoding_matrix gmul gdiv ?n (length fecs) (map uint (map base_byte fecs)) (bits c) (bits a) (group_masks b0 fecs) = Some tab"
    by (intro skipped_decoding_exists) (simp_all add: l set_positions_eq)
  thus ?thesis unfolding group_matrix_bytes [OF ok] .
qed

lemma RecoverPacket_batch:
  assumes ok: "group_ok gmul M b0 fecs c a" and b: "one_batch gmul b0 m e fecs" "fecs \<noteq> []"
    and L: "group_losses b0 c a losses" "length losses = length fecs" "\<forall>l \<in> set losses. lost_sent M l"
    and s: "fits fecs"
  shows "RecoverPacket gmul gdiv fecs losses =
    Inr (if \<exists>l \<in> set losses. length (M (lp_seq l)) > 1488 then None else Some (map (original M) losses))"
proof -
  obtain f0 fs where f: "fecs = f0 # fs" using b(2) by (cases fecs) auto
  have b0: "b0 = seq_num_base (fp_stream f0)" using b(1) f by (auto simp: one_batch_def)
  have h: "\<forall>f \<in> set fecs. fp_header_size f = 18" using ok carriesD(3) by (auto simp: group_ok_def)
  have "StartPacketRecovery fecs \<noteq> None"
    using s h by (auto simp: StartPacketRecovery_def fits_def)
  moreover have "group_matrix gmul gdiv b0 c a fecs \<noteq> None" using group_matrix_batch [OF ok b(1) L(1,2)] by auto
  ultimately show ?thesis
    using RecoverPacket_original [OF ok [unfolded f] b0 L(1) _ L(3)] L(2) by (auto simp: f)
qed

end

text \<open>When all parity packets of the group miss the same packets, these are the losses of the window.\<close>

lemma group_losses_same:
  assumes ok: "group_ok g M b0 fecs c a" and all: "\<forall>f \<in> set fecs. all_protected f \<and> distinct (map pp_seq (fp_protected f))"
    and sel: "selected b0 fecs losses" and m: "\<forall>f \<in> set fecs. missing f = ss"
  shows "group_losses b0 c a losses"
  unfolding group_losses_def
proof (rule sorted_offset_unique [OF _ lost_sorted])
  show "sorted_wrt (\<lambda>x y. offset b0 x < offset b0 y) (map lp_seq losses)" using sel by (simp add: selected_def sorted_wrt_map)
  show "set (map lp_seq losses) = set (map (\<lambda>r. b0 + of_nat r) (filter (\<lambda>p. bit c p \<and> \<not> bit a p) [0..<128]))"
  proof (intro equalityI subsetI)
    fix s assume "s \<in> set (map lp_seq losses)"
    then obtain f where f: "f \<in> set fecs" "s \<in> set (missing f)" using sel unfolding selected_def by auto
    then obtain r where r: "r < 128" "s = b0 + of_nat r" "bit c r" using missing_window [OF ok] by blast
    have "\<not> bit a r"
    proof
      assume "bit a r"
      then obtain f' p where p: "f' \<in> set fecs" "p \<in> set (fp_protected f')" "pp_pkt p \<noteq> None" "pp_seq p = s"
        using group_arrived [OF ok r(1)] r(2) by blast
      have "s \<in> set (missing f')" using m f p(1) by simp
      then obtain q where "q \<in> set (fp_protected f')" "pp_pkt q = None" "pp_seq q = s" by (auto simp: missing_def)
      thus False using distinct_key [of pp_seq "fp_protected f'" p q] all p by auto
    qed
    thus "s \<in> set (map (\<lambda>r. b0 + of_nat r) (filter (\<lambda>p. bit c p \<and> \<not> bit a p) [0..<128]))" using r by auto
  next
    fix s assume "s \<in> set (map (\<lambda>r. b0 + of_nat r) (filter (\<lambda>p. bit c p \<and> \<not> bit a p) [0..<128]))"
    then obtain r where "s = b0 + of_nat r" "bit c r" "\<not> bit a r" by auto
    thus "s \<in> set (map lp_seq losses)" using lost_missing [OF ok, of r] all sel by (auto simp: selected_def)
  qed
qed

lemma map_inj_unique:
  assumes "map k xs = map k ys" "set xs \<subseteq> set zs" "set ys \<subseteq> set zs" "distinct (map k zs)"
  shows "xs = ys"
  by (rule inj_on_map_eq_map [THEN iffD1, OF _ assms(1)])
    (use assms in \<open>auto simp: distinct_map intro: inj_on_subset\<close>)

subsection \<open>The decoder makes progress\<close>

text \<open>The newest packets of the buffer stay in it.\<close>

lemma insert_recovered_keeps:
  assumes "insert_recovered held rs st recovered = (st', recovered')" "length recovered + length rs \<le> kMaxTrackedMediaPackets"
  shows "set recovered' = set recovered \<union> set rs"
  using assms
proof (induction rs arbitrary: st recovered)
  case (Cons r rs)
  have "DiscardOldRecoveredPackets (sort_by rp_less (recovered @ [r])) = sort_by rp_less (recovered @ [r])"
    using Cons.prems(2) by (simp add: DiscardOldRecoveredPackets_def)
  thus ?case using Cons.IH [of _ "sort_by rp_less (recovered @ [r])"] Cons.prems by (auto simp: Let_def)
qed simp

definition waiting :: "gf_op \<Rightarrow> u16 list \<Rightarrow> rs_fec \<Rightarrow> recovered_packet list \<Rightarrow> bool" where
  "waiting g ss st recovered \<longleftrightarrow> ss \<noteq> [] \<and> length ss \<le> length (received_fec st) \<and>
     (\<exists>b0 m e. one_batch g b0 m e (drop (length (received_fec st) - length ss) (received_fec st))) \<and>
     (\<forall>f \<in> set (received_fec st). missing f = ss \<and> valid_fec st recovered f \<and> fp_protection_length f \<le> 1482 \<and>
        18 + fp_protection_length f \<le> length (fp_pkt f))"

lemma ensure_valid_keeps:
  assumes "decoder_inv g M w bo st" "\<forall>f \<in> set (received_fec st). valid_fec st recovered f"
  shows "received_fec (ensure_valid recovered st) = received_fec st"
proof -
  have "map (sort_maybe_loss st) (received_fec st) = received_fec st"
    using assms(2) by (intro map_idI sort_maybe_loss_id [OF assms(1)]) (auto simp: valid_fec_def simp flip: lock_loss_None)
  thus ?thesis using assms(2) by (simp add: ensure_valid_def Let_def filter_True)
qed

lemma same_losses:
  assumes inv: "decoder_inv g M w bo st" "all_alive st" and m: "\<forall>f \<in> set (received_fec st). missing f = ss"
    and ne: "received_fec st \<noteq> []"
  shows "\<exists>ms. sorted_window w lp_seq ms \<and> map lp_seq ms = ss \<and> (\<forall>f \<in> set (received_fec st). lock_all st (fp_maybe_loss f) = Inr ms)"
proof -
  have d: "distinct (map lp_seq (consider_loss st))" using inv(1) sorted_window_distinct by (auto simp: decoder_inv_def)
  let ?f = "hd (received_fec st)"
  have "?f \<in> set (received_fec st)" using ne by simp
  from alive_lock [OF inv this] m obtain ms where ms: "sorted_window w lp_seq ms" "set ms \<subseteq> set (consider_loss st)" "map lp_seq ms = ss"
    using \<open>?f \<in> set (received_fec st)\<close> by auto
  have "lock_all st (fp_maybe_loss f) = Inr ms" if f: "f \<in> set (received_fec st)" for f
  proof -
    obtain xs where "lock_all st (fp_maybe_loss f) = Inr xs" "set xs \<subseteq> set (consider_loss st)" "map lp_seq xs = missing f"
      using alive_lock [OF inv f] by blast
    thus ?thesis using map_inj_unique [of lp_seq xs ms "consider_loss st"] ms d m f by auto
  qed
  thus ?thesis using ms by blast
qed

lemma waiting_search:
  assumes inv: "decoder_inv g M w bo st" and wt: "waiting g ss st recovered"
  shows "\<exists>ms f0 fs b0 m e. search_groups (ensure_valid recovered st) (length (received_fec (ensure_valid recovered st))) =
      Inr (Some (f0 # fs, ms)) \<and> map lp_seq ms = ss \<and> one_batch g b0 m e (f0 # fs) \<and> b0 = seq_num_base (fp_stream f0) \<and>
      (\<exists>n i. f0 # fs = take n (drop i (received_fec st))) \<and> length (f0 # fs) = length ms"
proof -
  let ?st = "ensure_valid recovered st" and ?fs = "received_fec st"
  let ?F = "drop (length ?fs - length ss) ?fs"
  note ev = ensure_valid_inv [OF inv, of recovered]
  have fs: "received_fec ?st = ?fs" by (rule ensure_valid_keeps [OF inv]) (use wt in \<open>auto simp: waiting_def\<close>)
  have W: "ss \<noteq> []" "length ss \<le> length ?fs" "\<forall>f \<in> set ?fs. missing f = ss" using wt by (auto simp: waiting_def)
  obtain b0 m e where b: "one_batch g b0 m e ?F" using wt by (auto simp: waiting_def)
  have len: "length ?F = length ss" using W(2) by simp
  then obtain f0 f1 where f0: "?F = f0 # f1" using W(1) by (metis length_0_conv neq_Nil_conv)
  have "received_fec ?st \<noteq> []" using f0 fs by auto
  then obtain ms where ms: "sorted_window w lp_seq ms" "map lp_seq ms = ss" "\<forall>f \<in> set (received_fec ?st). lock_all ?st (fp_maybe_loss f) = Inr ms"
    using same_losses [OF ev(1,2), of ss] W(3) fs by auto
  have lm: "length ms = length ss" using ms(2) by (metis length_map)
  have "ms \<noteq> []" using lm W(1) by auto
  hence "search_groups ?st (length (received_fec ?st)) = Inr (Some (?F, ms))"
    using search_groups_batch [OF ms(1) _ ms(3), of "length ?fs"] W lm fs by simp
  moreover have "b0 = seq_num_base (fp_stream f0)" using b f0 by (auto simp: one_batch_def)
  moreover have "f0 # f1 = take (length ss) (drop (length ?fs - length ss) ?fs)" unfolding f0 [symmetric] using len by simp
  hence "\<exists>n i. f0 # f1 = take n (drop i ?fs)" by blast
  ultimately show ?thesis using ms(2) b len lm unfolding f0
    by (intro exI [of _ ms] exI [of _ f0] exI [of _ f1] exI [of _ b0] exI [of _ m] exI [of _ e]) simp
qed

context galois_primitive
begin

theorem AttemptRecovery_progress:
  assumes inv: "session_inv gmul M w bo ssrc st recovered" and bo: "mono bo" and wt: "waiting gmul ss st recovered"
    and room: "length recovered + length ss \<le> kMaxTrackedMediaPackets"
  shows "if \<exists>s \<in> set ss. length (M s) > 1488 then AttemptRecovery gmul gdiv st recovered = Inl BadIterator
    else \<exists>st' recovered'. AttemptRecovery gmul gdiv st recovered = Inr (st', recovered', length ss) \<and>
    (\<forall>s \<in> set ss. \<exists>r \<in> set recovered'. rp_seq r = s \<and> rp_pkt r = M s)"
proof -
  let ?st = "ensure_valid recovered st"
  have i: "decoder_inv gmul M w bo st" using inv by (simp add: session_inv_def)
  note ev = ensure_valid_inv [OF i, of recovered]
  obtain ms f0 fs b0 m e n k where S: "search_groups ?st (length (received_fec ?st)) = Inr (Some (f0 # fs, ms))"
    "map lp_seq ms = ss" "one_batch gmul b0 m e (f0 # fs)" "b0 = seq_num_base (fp_stream f0)"
    "f0 # fs = take n (drop k (received_fec st))" "length (f0 # fs) = length ms"
    using waiting_search [OF i wt] by blast
  have sub: "set (f0 # fs) \<subseteq> set (received_fec st)" unfolding S(5) by (meson dual_order.trans set_drop_subset set_take_subset)
  have r: "received_fec ?st = received_fec st" by (rule ensure_valid_keeps [OF i]) (use wt in \<open>auto simp: waiting_def\<close>)
  have C: "collected w ?st (f0 # fs) ms" using search_groups_spec [OF ev(1,2), of "length (received_fec ?st)"] S(1) by simp
  note sel = collected_selected [OF ev(1) S(5) [folded r] C S(6) bo, folded S(4)]
  have "group_diff b0 f \<le> 96" if "f \<in> set (f0 # fs)" for f
    using S(3) that unfolding one_batch_def in_set_conv_nth by (auto simp: group_diff_def offset_def)
  then obtain c a where ok: "group_ok gmul M b0 (f0 # fs) c a" using group_window_ok [OF _ S(4), of fs gmul M] sel(3) by blast
  have "distinct (map pp_seq (fp_protected f))" if "f \<in> set (f0 # fs)" for f
    using that sub i sorted_window_distinct [OF sorted_protected, of gmul M w bo f] by (auto simp: decoder_inv_def)
  hence gl: "group_losses b0 c a ms"
    using group_losses_same [OF ok _ sel(1), of ss] sel(3) wt sub by (auto simp: waiting_def)
  have "fits (f0 # fs)" using wt sub by (auto simp: waiting_def fits_def)
  hence "RecoverPacket gmul gdiv (f0 # fs) ms =
      Inr (if \<exists>l \<in> set ms. length (M (lp_seq l)) > 1488 then None else Some (map (original M) ms))"
    by (intro RecoverPacket_batch [OF ok S(3) _ gl _ sel(2)]) (use S(6) in auto)
  moreover have "(\<exists>l \<in> set ms. length (M (lp_seq l)) > 1488) \<longleftrightarrow> (\<exists>s \<in> set ss. length (M s) > 1488)" by (auto simp flip: S(2))
  ultimately have R: "RecoverPacket gmul gdiv (f0 # fs) ms =
      Inr (if \<exists>s \<in> set ss. length (M s) > 1488 then None else Some (map (original M) ms))" by simp
  obtain st2 rec2 where I: "insert_recovered ms (map (original M) ms) ?st recovered = (st2, rec2)" by fastforce
  have lm: "length ms = length ss" using S(2) by (metis length_map)
  have e: "set rec2 = set recovered \<union> set (map (original M) ms)"
    by (rule insert_recovered_keeps [OF I]) (use room lm in simp)
  have "\<exists>r \<in> set rec2. rp_seq r = s \<and> rp_pkt r = M s" if s: "s \<in> set ss" for s
  proof -
    from s obtain l where "l \<in> set ms" "s = lp_seq l" unfolding S(2) [symmetric] by auto
    thus ?thesis unfolding e by (intro bexI [of _ "original M l"]) (auto simp: original_def)
  qed
  thus ?thesis using S(1) R I lm by (auto simp: AttemptRecovery_def Let_def)
qed

end

end
