(* ===== verification/RS_Bounds.thy ===== *)
theory RS_Bounds
  imports RS_Live
begin

text \<open>
  The buffers of the decoder stay within their limits, whatever packets arrive.
\<close>

definition within_limits :: "rs_fec \<Rightarrow> recovered_packet list \<Rightarrow> bool" where
  "within_limits st recovered \<longleftrightarrow> length (received_fec st) \<le> kMaxFecPackets \<and>
     length (consider_loss st) \<le> kMaxConsiderLossPackets \<and> length recovered \<le> kMaxTrackedMediaPackets"

lemma UpdateMaybeLoss_lengths:
  "length (received_fec (UpdateMaybeLossPackets held r st)) = length (received_fec st)"
  "length (consider_loss (UpdateMaybeLossPackets held r st)) \<le> length (consider_loss st)"
  by (auto simp: UpdateMaybeLossPackets_def Let_def)

lemma UpdateCovering_lengths:
  "length (received_fec (UpdateCoveringFecPackets r st)) = length (received_fec st)"
  "consider_loss (UpdateCoveringFecPackets r st) = consider_loss st"
  by (auto simp: UpdateCoveringFecPackets_def)

lemma length_Discard: "length (DiscardOldRecoveredPackets rs) \<le> kMaxTrackedMediaPackets"
  by (simp add: DiscardOldRecoveredPackets_def)

lemma arrive_limits:
  "within_limits st recovered \<Longrightarrow>
     within_limits (UpdateMaybeLossPackets held r (UpdateCoveringFecPackets r st)) (DiscardOldRecoveredPackets rs)"
  using UpdateMaybeLoss_lengths [of held r "UpdateCoveringFecPackets r st"] UpdateCovering_lengths [of r st] length_Discard [of rs]
  by (simp add: within_limits_def)

lemma InsertFecPacket_limits:
  assumes "InsertFecPacket recovered p st = Inr st'" "within_limits st recovered'"
  shows "within_limits st' recovered'"
proof (cases "st' = st")
  case False
  obtain fec st1 f' st2 where a: "AssignMaybeLossPackets fec (st\<lparr>next_id := Suc (next_id st)\<rparr>) = (f', st2)"
    "st' = st2\<lparr>received_fec := (if length (sort_by fp_less (received_fec st2 @ [f'])) > kMaxFecPackets
       then tl (sort_by fp_less (received_fec st2 @ [f'])) else sort_by fp_less (received_fec st2 @ [f']))\<rparr>"
    using assms(1) False by (auto simp: InsertFecPacket_def Let_def split: if_splits sum.splits option.splits prod.splits)
  have "received_fec st2 = received_fec st" "length (consider_loss st2) \<le> kMaxConsiderLossPackets"
    using a(1) by (auto simp: AssignMaybeLossPackets_def Let_def split: prod.splits)
  thus ?thesis using a(2) assms(2) by (auto simp: within_limits_def)
qed (use assms in simp)

lemma InsertMediaPacket_limits:
  assumes "InsertMediaPacket p st recovered = (st', recovered')" "within_limits st recovered"
  shows "within_limits st' (DiscardOldRecoveredPackets recovered')"
  using assms arrive_limits [OF assms(2)] length_Discard [of recovered']
  by (auto simp: InsertMediaPacket_def Let_def within_limits_def split: if_splits)

lemma InsertPacket_limits:
  assumes "within_limits st recovered" "InsertPacket p st recovered = Inr (st', recovered')"
  shows "within_limits st' recovered'"
proof -
  define st1 where "st1 = st\<lparr>received_fec := (if received_fec st \<noteq> [] \<and> rcv_ssrc p = fp_ssrc (hd (received_fec st))
      then dropWhile (\<lambda>f. unat (MinDiff (rcv_seq p) (fp_seq f)) > kOldSequenceThreshold) (received_fec st) else received_fec st),
    consider_loss := (if consider_loss st \<noteq> [] \<and> rcv_ssrc p = lp_ssrc (hd (consider_loss st))
      then dropWhile (\<lambda>l. unat (MinDiff (rcv_seq p) (lp_seq l)) > kConsiderLossSeqThreadshold) (consider_loss st) else consider_loss st)\<rparr>"
  have u: "InsertPacket p st recovered = (if rcv_is_fec p then
      (case InsertFecPacket recovered p st1 of Inl e \<Rightarrow> Inl e | Inr st \<Rightarrow> Inr (st, DiscardOldRecoveredPackets recovered))
      else (case InsertMediaPacket p st1 recovered of (st, recovered) \<Rightarrow> Inr (st, DiscardOldRecoveredPackets recovered)))"
    by (simp only: InsertPacket_def Let_def st1_def)
  have s1: "within_limits st1 recovered"
    using assms(1) by (auto simp: within_limits_def st1_def intro: le_trans [OF length_dropWhile_le])
  show ?thesis
  proof (cases "rcv_is_fec p")
    case True
    hence "InsertFecPacket recovered p st1 = Inr st'" "recovered' = DiscardOldRecoveredPackets recovered"
      using assms(2) u by (auto split: sum.splits)
    thus ?thesis using InsertFecPacket_limits [OF _ s1] length_Discard by (auto simp: within_limits_def)
  next
    case False
    then obtain rec1 where "InsertMediaPacket p st1 recovered = (st', rec1)" "recovered' = DiscardOldRecoveredPackets rec1"
      using assms(2) u by (auto split: prod.splits)
    thus ?thesis using InsertMediaPacket_limits [OF _ s1] by simp
  qed
qed

lemma insert_recovered_limits:
  assumes "insert_recovered held rs st recovered = (st', recovered')" "within_limits st recovered"
  shows "within_limits st' recovered'"
  using assms
proof (induction rs arbitrary: st recovered)
  case (Cons r rs)
  show ?case
    by (rule Cons.IH [OF _ arrive_limits [OF Cons.prems(2)]]) (use Cons.prems(1) in \<open>simp add: Let_def\<close>)
qed simp

lemma AttemptRecovery_limits:
  assumes "within_limits st recovered" "AttemptRecovery g gd st recovered = Inr (st', recovered', n)"
  shows "within_limits st' recovered'"
proof -
  let ?st = "ensure_valid recovered st"
  have e: "within_limits ?st recovered"
    using assms(1) by (auto simp: within_limits_def ensure_valid_def Let_def intro: le_trans [OF length_filter_le])
  show ?thesis
  proof (cases "st' = ?st \<and> recovered' = recovered")
    case False
    then obtain F L temp st2 where I: "insert_recovered L temp ?st recovered = (st2, recovered')"
      "st' = st2\<lparr>received_fec := erase_fecs (sort_by fp_less F) (received_fec st2)\<rparr>"
      using assms(2) by (auto simp: AttemptRecovery_def Let_def split: sum.splits option.splits prod.splits)
    thus ?thesis
      using insert_recovered_limits [OF I(1) e] list_emb_length [OF erase_fecs_subseq, of "sort_by fp_less F" "received_fec st2"]
      by (auto simp: within_limits_def)
  qed (use e in simp)
qed

lemma recovery_loop_limits:
  assumes "recovery_loop g gd st recovered n = Some r" "within_limits st recovered" "r = Inr (st', recovered', k)"
  shows "within_limits st' recovered'"
proof -
  let ?P = "\<lambda>(g :: gf_op) (gd :: gf_op) st recovered (n :: nat) r. within_limits st recovered \<longrightarrow>
    (\<forall>st' recovered' (k :: nat). r = Inr (st', recovered', k) \<longrightarrow> within_limits st' recovered')"
  have "?P g gd st recovered n r"
  proof (rule recovery_loop.raw_induct [where P = ?P, OF _ assms(1)], intro impI allI)
    fix loop g gd st recovered n y st' recovered' k
    assume IH: "\<And>g gd st recovered n y. loop g gd st recovered n = Some y \<Longrightarrow> ?P g gd st recovered n y"
      and b: "(case AttemptRecovery g gd st recovered of Inl e \<Rightarrow> Some (Inl e)
         | Inr (st, recovered, ret) \<Rightarrow> if ret = 0 then Some (Inr (st, recovered, n)) else loop g gd st recovered (n + ret)) = Some y"
      and w: "within_limits st recovered" and y: "y = Inr (st', recovered', k)"
    obtain st1 rec1 m where A: "AttemptRecovery g gd st recovered = Inr (st1, rec1, m)"
      using b y by (auto split: sum.splits)
    have "within_limits st1 rec1" by (rule AttemptRecovery_limits [OF w A])
    thus "within_limits st' recovered'" using b A y IH [of g gd st1 rec1 "n + m" y] by (auto split: if_splits)
  qed
  thus ?thesis using assms(2,3) by blast
qed

lemma DecodeRSFec_limits:
  assumes "DecodeRSFec g gd p st recovered = Some (Inr (st', recovered', n))" "within_limits st recovered"
  shows "within_limits st' recovered'"
proof -
  have r: "within_limits (fst (ResetState st)) (snd (ResetState st))" by (simp add: ResetState_def within_limits_def)
  obtain st1 rec1 st2 rec2 where i: "InsertPacket p st1 rec1 = Inr (st2, rec2)" "within_limits st1 rec1"
    "recovery_loop g gd st2 rec2 0 = Some (Inr (st', recovered', n))"
    using assms r by (auto simp: DecodeRSFec_def Let_def split: if_splits sum.splits prod.splits)
  show ?thesis by (rule recovery_loop_limits [OF i(3) InsertPacket_limits [OF i(2,1)] refl])
qed

end
