(* ===== verification/RS_Session_Properties.thy ===== *)
theory RS_Session_Properties
  imports RS_Bounds
begin

text \<open>
  What the Reed-Solomon decoder guarantees over a session, and how the encoder and the decoder fit
  together.  The example is one media packet of 13 bytes and the parity packet that the encoder
  computes for it.
\<close>

definition example_media :: "byte list" where
  "example_media = [128, 96, 0, 7, 0, 0, 0, 1, 0, 0, 0, 9, 42]"

definition example_parity :: "byte list" where
  "example_parity = [128, 96, 0, 7, 0, 0, 0, 1, 0, 1, 0, 1, 0, 0, 0, 1, 0, 1, 42]"

definition example_params :: fec_params where
  "example_params = \<lparr>param_type = RSFECStreamStableRate, generate_fec_num = 1, param_M = 0\<rparr>"

definition example_packet :: received_packet where
  "example_packet = \<lparr>rcv_ssrc = 9, rcv_seq = 20, rcv_is_fec = True, rcv_pkt = example_parity\<rparr>"

lemma example_encoded: "EncodeRSFec gf256_mul example_params (uint (gf_pow gf256_mul 2 0)) [example_media] 0 = Inr (2, 0, [example_parity])"
  by code_simp

lemma example_parse: "ParseSequenceNumber example_media = 7" "ParseSsrc example_media = 9"
  by code_simp+

lemma example_batch: "sent_batch (\<lambda>s. example_media) 9 [example_media]"
  using example_parse by (simp add: sent_batch_def wf_media_def offsets_def seq_offset_def) (simp add: example_media_def)

lemma example_parity_packet: "parity_packet gf256_mul [example_media] 1 example_parity"
proof -
  have w: "wf_media [example_media]" using example_batch by (simp add: sent_batch_def)
  have "\<exists>fecs. EncodeRSFec gf256_mul example_params (uint (gf_pow gf256_mul 2 0)) [example_media] 0 =
      Inr (uint (gf_pow gf256_mul 2 (0 + 1)), 0, fecs) \<and> length fecs = 1 \<and>
      (\<forall>i < 1. parity_packet gf256_mul [example_media] (gf_pow gf256_mul 2 (0 + i)) (fecs ! i))"
    by (rule galois_ring.EncodeRSFec_correct [OF gf256r.galois_ring_axioms w])
      (simp_all add: num_fec_packets_def example_params_def max_payload_def example_media_def)
  thus ?thesis unfolding example_encoded by auto
qed

lemma example_from_sender: "from_sender gf256_mul (\<lambda>s. example_media) 0 (\<lambda>n. 7) 9 example_packet"
  using example_batch example_parity_packet example_parse
  by (auto simp: from_sender_def genuine_parity_def example_packet_def in_window_def offset_def intro!: exI)

declare recovery_loop.simps [code]

lemma example_run: "decode_run gf256_mul gf256_div [example_packet] (initial_decoder 9 9) [] =
   Some (Inr (\<lparr>fec_ssrc = 9, protected_media_ssrc = 9, received_fec = [], consider_loss = [], next_id = 2\<rparr>,
     [\<lparr>rp_ssrc = 9, rp_seq = 7, was_recovered = True, returned = False, rp_pkt = example_media\<rparr>]))"
  by code_simp

definition example_fec :: fec_packet where
  "example_fec = \<lparr>fp_id = 0, fp_ssrc = 9, fp_seq = 20, fp_protected = [\<lparr>pp_ssrc = 9, pp_seq = 7, pp_pkt = None\<rparr>],
     fp_maybe_loss = [1], fp_header_size = 18,
     fp_stream = \<lparr>ps_ssrc = 9, seq_num_base = 7, cur_base_num = 1, packet_mask_offset = 12, pkt_mask = 1, pkt_arrive = 0, packet_mask_size = 4\<rparr>,
     fp_protection_length = 1, fp_pkt = [128, 96, 0, 1, 0, 0, 0, 1, 0, 1, 0, 1, 0, 0, 0, 1, 0, 1, 42]\<rparr>"

definition example_loss :: loss_packet where
  "example_loss = \<lparr>lp_id = 1, lp_ssrc = 9, lp_seq = 7, lp_refs = [0]\<rparr>"

definition example_state :: rs_fec where
  "example_state = \<lparr>fec_ssrc = 9, protected_media_ssrc = 9, received_fec = [example_fec], consider_loss = [example_loss], next_id = 2\<rparr>"

lemma example_insert: "InsertPacket example_packet (initial_decoder 9 9) [] = Inr (example_state, [])"
  by code_simp

lemma example_session:
  "session_inv gf256_mul (\<lambda>s. example_media) 0 (\<lambda>n. 7) 9 example_state []" "all_alive example_state"
proof -
  have i: "decoder_inv gf256_mul (\<lambda>s. example_media) 0 (\<lambda>n. 7) (initial_decoder 9 9)" "all_alive (initial_decoder 9 9)"
    "protected_media_ssrc (initial_decoder 9 9) = 9"
    using initial_session(1) [of gf256_mul "\<lambda>s. example_media" 0 "\<lambda>n. 7" 9 9] initial_session(2) [of 9 9]
    by (simp_all add: session_inv_def)
  have "from_sender gf256_mul (\<lambda>s. example_media) 0 (\<lambda>n. 7) (protected_media_ssrc (initial_decoder 9 9)) example_packet"
    using example_from_sender i(3) by simp
  from InsertPacket_inv [OF i(1,2) _ this, of "[]"] show "session_inv gf256_mul (\<lambda>s. example_media) 0 (\<lambda>n. 7) 9 example_state []"
    by (simp add: example_insert session_inv_def i(3))
  show "all_alive example_state" by (simp add: all_alive_def example_state_def example_fec_def example_loss_def)
qed

lemma example_fields: "seq_num_base (fp_stream example_fec) = 7" "pkt_mask (fp_stream example_fec) = 1"
  "pkt_arrive (fp_stream example_fec) = 0" "missing example_fec = [7]" "fp_protection_length example_fec = 1" "length (fp_pkt example_fec) = 19"
  "received_fec example_state = [example_fec]" "consider_loss example_state = [example_loss]"
  by (simp_all add: example_fec_def missing_def example_state_def)

lemma example_waiting: "waiting gf256_mul [7] example_state []"
proof -
  have "valid_fec example_state [] example_fec" "base_byte example_fec = gf_pow gf256_mul 2 0" by code_simp+
  moreover from this have "one_batch gf256_mul 7 1 0 [example_fec]" by (simp add: one_batch_def example_fields)
  ultimately show ?thesis unfolding waiting_def example_fields by (auto simp: example_fields)
qed

lemma initial_run:
  assumes "galois_field g gd" "mono bo" "\<forall>p \<in> set ps. from_sender g M w bo ssrc p"
  shows "\<exists>r. decode_run g gd ps (initial_decoder fssrc ssrc) [] = Some r \<and>
    (\<forall>st recovered. r = Inr (st, recovered) \<longrightarrow> session_inv g M w bo ssrc st recovered \<and> all_alive st)"
  by (rule galois_field.decode_run_total [OF assms(1) initial_session assms(3,2)])

subsection \<open>Sessions\<close>









text \<open>
  C33: A weak pointer that the search locks is never dangling, because the first pass has removed every
  parity packet that refers to a packet which is no longer tracked.
\<close>

theorem search_locks_alive:
  assumes "decoder_inv g M w bo st"
  shows "search_groups (ensure_valid recovered st) k \<noteq> Inl NullPointer"
  using search_groups_spec [OF ensure_valid_inv(1,2) [OF assms], of recovered k] by (auto split: sum.splits)

theorem search_locks_alive_witness: "search_groups (ensure_valid [] example_state) 1 \<noteq> Inl NullPointer"
  by (rule search_locks_alive [of gf256_mul "\<lambda>s. example_media" 0 "\<lambda>n. 7"])
    (use example_session(1) in \<open>simp add: session_inv_def\<close>)

text \<open>
  C6: What the recovery of a group computes: for parity packets whose window starts at the base of the
  first one, it returns the lost packets as they were sent, or fails exactly when there is no decoding
  matrix, a parity packet does not fit, or a lost packet is longer than 1488 bytes.
\<close>

theorem RecoverPacket_restores:
  assumes "galois_field g gd" "group_ok g M b0 (f # fs) c a" "b0 = seq_num_base (fp_stream f)"
    and "group_losses b0 c a losses" "length losses = length (f # fs)" "\<forall>l \<in> set losses. lost_sent M l"
  shows "RecoverPacket g gd (f # fs) losses = Inr
      (if group_matrix g gd b0 c a (f # fs) = None \<or> StartPacketRecovery (f # fs) = None \<or>
          (\<exists>l \<in> set losses. length (M (lp_seq l)) > 1488)
       then None else Some (map (original M) losses))"
  by (rule galois_field.RecoverPacket_original [OF assms])

theorem RecoverPacket_restores_witness:
  "RecoverPacket gf256_mul gf256_div [example_fec] [example_loss] = Inr (Some [original (\<lambda>s. example_media) example_loss])"
proof -
  have c: "carries gf256_mul (\<lambda>s. example_media) example_fec"
    using example_session(1) by (simp add: session_inv_def decoder_inv_def fec_inv_def example_fields)
  have ok: "group_ok gf256_mul (\<lambda>s. example_media) 7 [example_fec] 1 0"
    using c by (auto simp: group_ok_def group_diff_def offset_def protects_def has_arrived_def example_fields bit_1_iff)
  have "group_matrix gf256_mul gf256_div 7 1 0 [example_fec] \<noteq> None" "StartPacketRecovery [example_fec] \<noteq> None"
    "group_losses 7 1 0 [example_loss]" by code_simp+
  moreover have "lost_sent (\<lambda>s. example_media) example_loss" "length example_media = 13"
    using example_session(1) by (simp_all add: session_inv_def decoder_inv_def example_fields example_media_def)
  ultimately show ?thesis
    using RecoverPacket_restores [OF gf256.galois_field_axioms ok, of "[example_loss]"] by (auto simp: example_fields)
qed

text \<open>
  C34: The single pass over the sorted list of packets considered lost, with its cursor, has the same
  result as looking every missing packet up in the whole list.
\<close>

theorem assign_loss_reference:
  assumes "sorted_window w pp_seq ps" "sorted_window w lp_seq cs"
  shows "assign_loss fid ps [] cs nid maybe =
    fold (note_loss fid) (filter (\<lambda>p. pp_pkt p = None) ps) (cs, nid, maybe)"
  using assign_loss_fold [OF assms(1) _ assms(2), of "[]" "[]"] by (simp add: older_simps)

theorem assign_loss_reference_witness:
  "assign_loss 3 [\<lparr>pp_ssrc = 9, pp_seq = 65535, pp_pkt = None\<rparr>, \<lparr>pp_ssrc = 9, pp_seq = 1, pp_pkt = None\<rparr>] []
     [\<lparr>lp_id = 1, lp_ssrc = 9, lp_seq = 1, lp_refs = [0]\<rparr>] 4 [] =
   fold (note_loss 3) [\<lparr>pp_ssrc = 9, pp_seq = 65535, pp_pkt = None\<rparr>, \<lparr>pp_ssrc = 9, pp_seq = 1, pp_pkt = None\<rparr>]
     ([\<lparr>lp_id = 1, lp_ssrc = 9, lp_seq = 1, lp_refs = [0]\<rparr>], 4, [])"
  using assign_loss_reference [of 65530 "[\<lparr>pp_ssrc = 9, pp_seq = 65535, pp_pkt = None\<rparr>, \<lparr>pp_ssrc = 9, pp_seq = 1, pp_pkt = None\<rparr>]"
      "[\<lparr>lp_id = 1, lp_ssrc = 9, lp_seq = 1, lp_refs = [0]\<rparr>]" 3 4 "[]"]
  by (simp add: sorted_window_def in_window_def offset_def del: assign_loss.simps note_loss.simps)

text \<open>
  C35: The buffers stay bounded whatever arrives: at most 32 parity packets, 128 packets considered lost
  and 128 recovered packets.
\<close>

theorem DecodeRSFec_bounded:
  assumes "DecodeRSFec g gd p st recovered = Some (Inr (st', recovered', n))"
    and "length (received_fec st) \<le> 32" "length (consider_loss st) \<le> 128" "length recovered \<le> 128"
  shows "length (received_fec st') \<le> 32 \<and> length (consider_loss st') \<le> 128 \<and> length recovered' \<le> 128"
  using DecodeRSFec_limits [OF assms(1)] assms(2-4) by (simp add: within_limits_def)

theorem DecodeRSFec_bounded_witness:
  "\<exists>st' recovered' n. DecodeRSFec gf256_mul gf256_div example_packet (initial_decoder 9 9) [] = Some (Inr (st', recovered', n)) \<and>
     length (received_fec st') \<le> 32 \<and> length recovered' \<le> 128"
proof -
  obtain st' recovered' n where d: "DecodeRSFec gf256_mul gf256_div example_packet (initial_decoder 9 9) [] = Some (Inr (st', recovered', n))"
    using example_run by (auto split: option.splits sum.splits prod.splits)
  show ?thesis using DecodeRSFec_bounded [OF d] d by (simp add: initial_decoder_def)
qed



end
