(* ===== verification/Ulp_Mask.thy ===== *)
theory Ulp_Mask
  imports Ulp_Tables
begin

text \<open>
  Packet masks: \<^verbatim>\<open>UlpFEC/forward_error_correction_internal.cc\<close>.  A mask is stored row after row, one row
  for each parity packet; column \<open>c\<close> of a row is the bit of value \<^verbatim>\<open>0x80 >> (c % 8)\<close> of byte \<open>c / 8\<close>.
\<close>

abbreviation (input) kUlpfecMaxMediaPackets :: nat where "kUlpfecMaxMediaPackets \<equiv> 48"
abbreviation (input) kUlpfecPacketMaskSizeLBitClear :: nat where "kUlpfecPacketMaskSizeLBitClear \<equiv> 2"
abbreviation (input) kUlpfecPacketMaskSizeLBitSet :: nat where "kUlpfecPacketMaskSizeLBitSet \<equiv> 6"

datatype protection_mode = kModeNoOverlap | kModeOverlap | kModeBiasFirstPacket

definition PacketMaskSize :: "nat \<Rightarrow> nat" where
  "PacketMaskSize num_sequence_numbers =
     (if num_sequence_numbers > 8 * kUlpfecPacketMaskSizeLBitClear
      then kUlpfecPacketMaskSizeLBitSet else kUlpfecPacketMaskSizeLBitClear)"

text \<open>\<open>src\<close> and \<open>dst\<close> are the arrays at the pointers passed in the source.\<close>

definition FitSubMask :: "nat \<Rightarrow> nat \<Rightarrow> nat \<Rightarrow> byte list \<Rightarrow> byte list \<Rightarrow> nat \<Rightarrow> byte list" where
  "FitSubMask num_mask_bytes num_sub_mask_bytes num_rows sub_mask packet_mask start =
     (if num_mask_bytes = num_sub_mask_bytes then
        fold (\<lambda>i m. m[start + i := sub_mask ! i]) [0..<num_rows * num_sub_mask_bytes] packet_mask
      else
        fold (\<lambda>i m. fold (\<lambda>j m. m[start + i * num_mask_bytes + j := sub_mask ! (i * num_sub_mask_bytes + j)])
                       [0..<num_sub_mask_bytes] m)
          [0..<num_rows] packet_mask)"

definition shift_row :: "nat \<Rightarrow> nat \<Rightarrow> nat \<Rightarrow> nat \<Rightarrow> byte list \<Rightarrow> byte list \<Rightarrow> byte list" where
  "shift_row num_bit_shifts res_mask_bytes new_row sub_row sub_mask m =
     (let m = fold (\<lambda>j m. m[new_row + j :=
                drop_bit num_bit_shifts (sub_mask ! (sub_row + j)) OR
                push_bit (8 - num_bit_shifts) (sub_mask ! (sub_row + j - 1))])
              (rev [1..<res_mask_bytes]) m
      in m[new_row := drop_bit num_bit_shifts (sub_mask ! sub_row)])"

definition ShiftFitSubMask :: "nat \<Rightarrow> nat \<Rightarrow> nat \<Rightarrow> nat \<Rightarrow> byte list \<Rightarrow> byte list \<Rightarrow> byte list" where
  "ShiftFitSubMask num_mask_bytes res_mask_bytes num_column_shift end_row sub_mask packet_mask =
     (let num_bit_shifts = num_column_shift mod 8;
          num_byte_shifts = num_column_shift div 8
      in fold (\<lambda>i m.
           let new_row = i * num_mask_bytes + num_byte_shifts;
               sub_row = (i - num_column_shift) * res_mask_bytes;
               m = (if num_mask_bytes > res_mask_bytes
                    then m[new_row + res_mask_bytes :=
                           push_bit (8 - num_bit_shifts) (sub_mask ! (sub_row + res_mask_bytes - 1))]
                    else m)
           in shift_row num_bit_shifts res_mask_bytes new_row sub_row sub_mask m)
         [num_column_shift..<end_row] packet_mask)"

subsection \<open>Looking up a mask\<close>

definition skip_masks :: "nat \<Rightarrow> nat \<Rightarrow> nat \<Rightarrow> nat" where
  "skip_masks entry_size_increment count entry =
     fold (\<lambda>j entry. entry + entry_size_increment * (j + 1)) [0..<count] entry"

definition LookUpInFecTable :: "byte list \<Rightarrow> nat \<Rightarrow> nat \<Rightarrow> byte list" where
  "LookUpInFecTable table media_packet_index fec_index =
     (case fold (\<lambda>i (entry, entry_size_increment).
             let entry_size_increment = (if i = 16 then 6 else entry_size_increment);
                 count = unat (table ! entry)
             in (skip_masks entry_size_increment count (entry + 1), entry_size_increment))
           [0..<media_packet_index] (1, 2) of
        (entry, entry_size_increment) \<Rightarrow>
          let entry_size_increment = (if media_packet_index = 16 then 6 else entry_size_increment);
              entry = skip_masks entry_size_increment fec_index (entry + 1)
          in take (entry_size_increment * (fec_index + 1)) (drop entry table))"

definition interleaved_byte :: "nat \<Rightarrow> nat \<Rightarrow> nat \<Rightarrow> nat \<Rightarrow> byte" where
  "interleaved_byte num_media_packets num_fec_packets row col =
     foldr (\<lambda>k b. (if (col * 8 + k) mod num_fec_packets = row \<and> col * 8 + k < num_media_packets
                   then drop_bit k 0x80 else 0) OR b) [0..<8] 0"

definition LookUp :: "byte list \<Rightarrow> nat \<Rightarrow> nat \<Rightarrow> byte list" where
  "LookUp table num_media_packets num_fec_packets =
     (if num_media_packets \<le> 12 then
        LookUpInFecTable table (num_media_packets - 1) (num_fec_packets - 1)
      else
        concat (map (\<lambda>row. map (interleaved_byte num_media_packets num_fec_packets row)
                              [0..<PacketMaskSize num_media_packets])
                  [0..<num_fec_packets]))"

definition PickTable :: "fec_mask_kind \<Rightarrow> nat \<Rightarrow> byte list" where
  "PickTable fec_mask_type num_media_packets =
     (if fec_mask_type \<noteq> kFecMaskRandom \<and> num_media_packets \<le> unat (kPacketMaskBurstyTbl ! 0)
      then kPacketMaskBurstyTbl else kPacketMaskRandomTbl)"

subsection \<open>Unequal protection\<close>

definition RemainingPacketProtection ::
  "nat \<Rightarrow> nat \<Rightarrow> nat \<Rightarrow> nat \<Rightarrow> protection_mode \<Rightarrow> byte list \<Rightarrow> byte list \<Rightarrow> byte list" where
  "RemainingPacketProtection num_media_packets num_fec_remaining num_fec_for_imp_packets num_mask_bytes
     mode packet_mask table =
     (case mode of
        kModeNoOverlap \<Rightarrow>
          let res_mask_bytes = PacketMaskSize (num_media_packets - num_fec_for_imp_packets);
              end_row = num_fec_for_imp_packets + num_fec_remaining;
              packet_mask_sub_21 = LookUp table (num_media_packets - num_fec_for_imp_packets) num_fec_remaining
          in ShiftFitSubMask num_mask_bytes res_mask_bytes num_fec_for_imp_packets end_row
               packet_mask_sub_21 packet_mask
      | _ \<Rightarrow>
          let packet_mask_sub_22 = LookUp table num_media_packets num_fec_remaining;
              packet_mask = FitSubMask num_mask_bytes num_mask_bytes num_fec_remaining packet_mask_sub_22
                              packet_mask (num_fec_for_imp_packets * num_mask_bytes)
          in if mode = kModeBiasFirstPacket
             then fold (\<lambda>i m. m[i * num_mask_bytes := m ! (i * num_mask_bytes) OR push_bit 7 1])
                    [0..<num_fec_remaining] packet_mask
             else packet_mask)"

definition ImportantPacketProtection :: "nat \<Rightarrow> nat \<Rightarrow> nat \<Rightarrow> byte list \<Rightarrow> byte list \<Rightarrow> byte list" where
  "ImportantPacketProtection num_fec_for_imp_packets num_imp_packets num_mask_bytes packet_mask table =
     FitSubMask num_mask_bytes (PacketMaskSize num_imp_packets) num_fec_for_imp_packets
       (LookUp table num_imp_packets num_fec_for_imp_packets) packet_mask 0"

text \<open>Half of the parity packets, rounded down; halving an \<^verbatim>\<open>int\<close> in single precision is exact here.\<close>

definition SetProtectionAllocation :: "nat \<Rightarrow> nat \<Rightarrow> nat \<Rightarrow> nat" where
  "SetProtectionAllocation num_media_packets num_fec_packets num_imp_packets =
     (let max_num_fec_for_imp = num_fec_packets div 2;
          num_fec_for_imp_packets =
            (if num_imp_packets < max_num_fec_for_imp then num_imp_packets else max_num_fec_for_imp)
      in if num_fec_packets = 1 \<and> num_media_packets > 2 * num_imp_packets then 0
         else num_fec_for_imp_packets)"

definition UnequalProtectionMask :: "nat \<Rightarrow> nat \<Rightarrow> nat \<Rightarrow> nat \<Rightarrow> byte list \<Rightarrow> byte list \<Rightarrow> byte list" where
  "UnequalProtectionMask num_media_packets num_fec_packets num_imp_packets num_mask_bytes packet_mask table =
     (let num_fec_for_imp_packets = SetProtectionAllocation num_media_packets num_fec_packets num_imp_packets;
          num_fec_remaining = num_fec_packets - num_fec_for_imp_packets;
          packet_mask = (if num_fec_for_imp_packets > 0
                         then ImportantPacketProtection num_fec_for_imp_packets num_imp_packets
                                num_mask_bytes packet_mask table
                         else packet_mask)
      in if num_fec_remaining > 0
         then RemainingPacketProtection num_media_packets num_fec_remaining num_fec_for_imp_packets
                num_mask_bytes kModeOverlap packet_mask table
         else packet_mask)"

definition GeneratePacketMasks :: "nat \<Rightarrow> nat \<Rightarrow> nat \<Rightarrow> bool \<Rightarrow> byte list \<Rightarrow> byte list \<Rightarrow> byte list" where
  "GeneratePacketMasks num_media_packets num_fec_packets num_imp_packets use_unequal_protection table packet_mask =
     (if \<not> use_unequal_protection \<or> num_imp_packets = 0 then
        let msk = LookUp table num_media_packets num_fec_packets
        in msk @ drop (length msk) packet_mask
      else UnequalProtectionMask num_media_packets num_fec_packets num_imp_packets
             (PacketMaskSize num_media_packets) packet_mask table)"

subsection \<open>Moving columns\<close>

definition InsertZeroColumns :: "nat \<Rightarrow> byte list \<Rightarrow> nat \<Rightarrow> nat \<Rightarrow> nat \<Rightarrow> byte list" where
  "InsertZeroColumns num_zeros new_mask new_mask_bytes num_fec_packets new_bit_index =
     fold (\<lambda>row m.
        let new_byte_index = row * new_mask_bytes + new_bit_index div 8;
            max_shifts = 7 - new_bit_index mod 8
        in m[new_byte_index := push_bit (min num_zeros max_shifts) (m ! new_byte_index)])
     [0..<num_fec_packets] new_mask"

definition CopyColumn ::
  "byte list \<Rightarrow> nat \<Rightarrow> byte list \<Rightarrow> nat \<Rightarrow> nat \<Rightarrow> nat \<Rightarrow> nat \<Rightarrow> (byte list \<times> byte list) result" where
  "CopyColumn new_mask new_mask_bytes old_mask old_mask_bytes num_fec_packets new_bit_index old_bit_index =
     (if new_bit_index \<ge> 8 * new_mask_bytes then Inl CheckFailed
      else Inr (fold (\<lambda>row (new_mask, old_mask).
        let new_byte_index = row * new_mask_bytes + new_bit_index div 8;
            old_byte_index = row * old_mask_bytes + old_bit_index div 8;
            b = new_mask ! new_byte_index OR drop_bit 7 (old_mask ! old_byte_index AND 0x80);
            b = (if new_bit_index mod 8 \<noteq> 7 then push_bit 1 b else b)
        in (new_mask[new_byte_index := b],
            old_mask[old_byte_index := push_bit 1 (old_mask ! old_byte_index)]))
       [0..<num_fec_packets] (new_mask, old_mask)))"

end
