(* ===== verification/Ulp_Encoder.thy ===== *)
theory Ulp_Encoder
  imports RS_Encoder Ulp_Mask
begin

text \<open>
  The XOR encoder of \<^verbatim>\<open>UlpFEC/forward_error_correction.cc\<close> and the header of
  \<^verbatim>\<open>UlpFEC/ulpfec_header_reader_writer.cc\<close>.  The mask arrays of the class are lists of their full size.
\<close>

abbreviation (input) kUlpMaxMediaPackets :: nat where "kUlpMaxMediaPackets \<equiv> 48"
abbreviation (input) kUlpMaskArraySize :: nat where "kUlpMaskArraySize \<equiv> 288"

subsection \<open>Header\<close>

record ulp_stream =
  us_ssrc :: u32
  us_seq_num_base :: u16
  us_mask_offset :: nat
  us_mask_size :: nat

record ulp_header =
  uh_size :: nat
  uh_stream :: ulp_stream
  uh_protection_length :: nat

definition UlpfecHeaderSize :: "nat \<Rightarrow> nat" where
  "UlpfecHeaderSize mask_size =
     (if mask_size \<le> kUlpfecPacketMaskSizeLBitClear
      then kFecLevel0HeaderSize + (2 + kUlpfecPacketMaskSizeLBitClear)
      else kFecLevel0HeaderSize + (2 + kUlpfecPacketMaskSizeLBitSet))"

definition UlpReadFecHeader :: "u32 \<Rightarrow> byte list \<Rightarrow> (ulp_header \<times> byte list) option" where
  "UlpReadFecHeader ssrc data =
     (if length data < kPacketMaskOffset then None
      else
        let l_bit = (data ! 0 AND 0x40 \<noteq> 0);
            mask_size = (if l_bit then kUlpfecPacketMaskSizeLBitSet else kUlpfecPacketMaskSizeLBitClear);
            stream = \<lparr>us_ssrc = ssrc, us_seq_num_base = ReadBigEndian16 data 2,
                      us_mask_offset = kPacketMaskOffset, us_mask_size = mask_size\<rparr>
        in Some (\<lparr>uh_size = UlpfecHeaderSize mask_size, uh_stream = stream,
                  uh_protection_length = unat (ReadBigEndian16 data 10)\<rparr>,
                 data[2 := data ! 8, 3 := data ! 9]))"

definition UlpFinalizeFecHeader :: "u16 \<Rightarrow> byte list \<Rightarrow> byte list \<Rightarrow> byte list result" where
  "UlpFinalizeFecHeader base pmask data =
     (let mask_size = length pmask;
          fec_header_size = UlpfecHeaderSize mask_size
      in if length data < fec_header_size then Inl OutOfBounds
         else
           let data = data[0 := data ! 0 AND 0x7f];
               l_bit = (mask_size = kUlpfecPacketMaskSizeLBitSet);
               data = data[0 := (if l_bit then data ! 0 OR 0x40 else data ! 0 AND 0xbf)];
               data = data[8 := data ! 2, 9 := data ! 3];
               data = WriteBigEndian16 data 2 base;
               data = WriteBigEndian16 data 10 (word_of_int (int (length data) - int fec_header_size))
           in Inr (take 12 data @ pmask @ drop (12 + mask_size) data))"

subsection \<open>Zero columns for missing packets\<close>

fun insert_zeros ::
  "byte list list \<Rightarrow> u16 \<Rightarrow> nat \<Rightarrow> nat \<Rightarrow> nat \<Rightarrow> nat \<Rightarrow> nat \<Rightarrow> byte list \<times> byte list
     \<Rightarrow> (nat \<times> byte list) result" where
  "insert_zeros [] prev_seq_num new_bit_index old_bit_index new_bytes old_bytes rows (new, old) =
     Inr (new_bit_index, new)"
| "insert_zeros (p # ps) prev_seq_num new_bit_index old_bit_index new_bytes old_bytes rows (new, old) =
     (if new_bit_index = kUlpMaxMediaPackets then Inr (new_bit_index, new)
      else
        let seq_num = ParseSequenceNumber p;
            num_zeros_to_insert = unat (seq_num - prev_seq_num - 1);
            new = (if num_zeros_to_insert > 0
                   then InsertZeroColumns num_zeros_to_insert new new_bytes rows new_bit_index else new);
            new_bit_index = new_bit_index + num_zeros_to_insert
        in case CopyColumn new new_bytes old old_bytes rows new_bit_index old_bit_index of
             Inl e \<Rightarrow> Inl e
           | Inr masks \<Rightarrow>
               insert_zeros ps seq_num (new_bit_index + 1) (old_bit_index + 1) new_bytes old_bytes rows masks)"

text \<open>
  The number of mask bits (\<open>None\<close> for -1) and the mask array.  The number of missing packets is
  computed without sign in the source; it is 0 exactly when the span of sequence numbers is the
  number of packets.
\<close>

definition shift_last :: "nat \<Rightarrow> nat \<Rightarrow> nat \<Rightarrow> byte list \<Rightarrow> byte list" where
  "shift_last new_bytes rows new_bit_index m =
     (if new_bit_index mod 8 \<noteq> 0 then
        fold (\<lambda>row m. let i = row * new_bytes + new_bit_index div 8
                      in m[i := push_bit (7 - new_bit_index mod 8) (m ! i)]) [0..<rows] m
      else m)"

definition InsertZerosInPacketMasks ::
  "byte list list \<Rightarrow> nat \<Rightarrow> nat \<Rightarrow> byte list \<Rightarrow> (nat \<times> byte list) option result" where
  "InsertZerosInPacketMasks media rows mask_size packet_masks =
     (let num_media_packets = length media;
          span = unat (ParseSequenceNumber (last media) - ParseSequenceNumber (hd media)) + 1
      in if num_media_packets \<le> 1 then Inr (Some (num_media_packets, packet_masks))
         else if span = num_media_packets then Inr (Some (num_media_packets, packet_masks))
         else if span > kUlpMaxMediaPackets then Inr None
         else
           let new_bytes = PacketMaskSize span
           in case CopyColumn (replicate kUlpMaskArraySize 0) new_bytes packet_masks mask_size rows 0 0 of
                Inl e \<Rightarrow> Inl e
              | Inr masks \<Rightarrow>
                  (case insert_zeros (tl media) (ParseSequenceNumber (hd media)) 1 1 new_bytes mask_size rows masks of
                     Inl e \<Rightarrow> Inl e
                   | Inr (new_bit_index, new) \<Rightarrow>
                       let new = shift_last new_bytes rows new_bit_index new
                       in Inr (Some (new_bit_index, take (rows * new_bytes) new @ drop (rows * new_bytes) packet_masks))))"

subsection \<open>XOR of packets\<close>

definition XorHeaders :: "byte list \<Rightarrow> byte list \<Rightarrow> byte list result" where
  "XorHeaders src dst =
     (if length src < 8 \<or> length dst < 8 then Inl OutOfBounds
      else Inr (fold (\<lambda>i d. d[i := d ! i XOR rtp_header src ! i]) [0..<8] dst))"

definition XorPayloads :: "byte list \<Rightarrow> nat \<Rightarrow> nat \<Rightarrow> byte list \<Rightarrow> byte list result" where
  "XorPayloads src payload_length dst_offset dst =
     (if kRtpHeaderSize + payload_length > length src then Inl OutOfBounds
      else Inr (fold (\<lambda>i d. d[dst_offset + i := d ! (dst_offset + i) XOR src ! (kRtpHeaderSize + i)])
                  [0..<payload_length] (grow dst (dst_offset + payload_length))))"

definition xor_packet :: "byte list \<Rightarrow> nat \<Rightarrow> byte list \<Rightarrow> byte list result" where
  "xor_packet src dst_offset dst =
     (if length src < kRtpHeaderSize then Inl OutOfBounds
      else case XorHeaders src dst of
             Inl e \<Rightarrow> Inl e
           | Inr dst \<Rightarrow> XorPayloads src (length src - kRtpHeaderSize) dst_offset dst)"

text \<open>One parity packet; \<open>idx\<close> is the byte of the mask array and \<open>bit_idx\<close> the column in it.\<close>

fun ulp_payload ::
  "byte list \<Rightarrow> nat \<Rightarrow> byte list list \<Rightarrow> u16 \<Rightarrow> nat \<Rightarrow> nat \<Rightarrow> byte list \<Rightarrow> byte list result" where
  "ulp_payload masks fec_header_size [] prev_seq_num idx bit_idx fec = Inr fec"
| "ulp_payload masks fec_header_size (p # ps) prev_seq_num idx bit_idx fec =
     (case (if idx \<ge> length masks then Inl OutOfBounds
            else if masks ! idx AND push_bit (7 - bit_idx) 1 \<noteq> 0 then
              xor_packet p fec_header_size (grow fec (fec_header_size + (length p - kRtpHeaderSize)))
            else Inr fec) of
        Inl e \<Rightarrow> Inl e
      | Inr fec \<Rightarrow>
          (case ps of
             [] \<Rightarrow> Inr fec
           | q # qs \<Rightarrow>
               let seq_num = ParseSequenceNumber q;
                   media_pkt_idx = bit_idx + unat (seq_num - prev_seq_num)
               in ulp_payload masks fec_header_size ps seq_num (idx + media_pkt_idx div 8) (media_pkt_idx mod 8) fec))"

definition UlpGenerateFecPayloads :: "byte list \<Rightarrow> nat \<Rightarrow> byte list list \<Rightarrow> nat \<Rightarrow> byte list list result" where
  "UlpGenerateFecPayloads masks mask_size media num_fec =
     map_result (\<lambda>i. ulp_payload masks (UlpfecHeaderSize mask_size) media
                       (ParseSequenceNumber (hd media)) (i * mask_size) 0 []) [0..<num_fec]"

definition UlpFinalizeFecHeaders :: "byte list \<Rightarrow> nat \<Rightarrow> u16 \<Rightarrow> byte list list \<Rightarrow> byte list list result" where
  "UlpFinalizeFecHeaders masks mask_size base fecs =
     map_result (\<lambda>i. UlpFinalizeFecHeader base (take mask_size (drop (i * mask_size) masks)) (fecs ! i))
       [0..<length fecs]"

text \<open>The return value and the packets pointed to by \<^verbatim>\<open>fec_packets\<close>.\<close>

definition EncodeFec ::
  "byte list list \<Rightarrow> byte \<Rightarrow> nat \<Rightarrow> bool \<Rightarrow> fec_mask_kind \<Rightarrow> (int \<times> byte list list) result" where
  "EncodeFec media protection_factor num_important_packets use_unequal_protection mask_type =
     (let num_media_packets = length media;
          num = nat (NumFecPackets (int num_media_packets) (uint protection_factor))
      in
      if num_media_packets > kUlpMaxMediaPackets then Inr (-1, [])
      else if (\<exists>p \<in> set media. length p < kRtpHeaderSize) then Inr (-1, [])
      else if num = 0 then Inr (0, [])
      else if num > kUlpMaxMediaPackets \<or> media = [] then Inl OutOfBounds
      else
        let mask_size = PacketMaskSize num_media_packets;
            masks = GeneratePacketMasks num_media_packets num num_important_packets use_unequal_protection
                      (PickTable mask_type num_media_packets) (replicate kUlpMaskArraySize 0)
        in case InsertZerosInPacketMasks media num mask_size masks of
             Inl e \<Rightarrow> Inl e
           | Inr None \<Rightarrow> Inr (-1, [])
           | Inr (Some (num_mask_bits, masks)) \<Rightarrow>
               let mask_size = PacketMaskSize num_mask_bits
               in case UlpGenerateFecPayloads masks mask_size media num of
                    Inl e \<Rightarrow> Inl e
                  | Inr fecs \<Rightarrow>
                      (case UlpFinalizeFecHeaders masks mask_size (ParseSequenceNumber (hd media)) fecs of
                         Inl e \<Rightarrow> Inl e
                       | Inr fecs \<Rightarrow> Inr (0, fecs)))"

end
