(* ===== verification/Ulp_Decoder.thy ===== *)
theory Ulp_Decoder
  imports Ulp_Encoder RS_Decoder
begin

text \<open>
  The XOR decoder of \<^verbatim>\<open>UlpFEC/forward_error_correction.cc\<close>: one parity packet recovers one packet, and
  each recovery may enable another.  The packet records are those of the Reed-Solomon decoder, whose
  classes the source duplicates; receive times, which only the log files use, are left out.
\<close>

abbreviation (input) kUlpMaxTrackedMediaPackets :: nat where "kUlpMaxTrackedMediaPackets \<equiv> 192"
abbreviation (input) kUlpMaxFecPackets :: nat where "kUlpMaxFecPackets \<equiv> 48"
abbreviation (input) kUlpOldSequenceThreshold :: nat where "kUlpOldSequenceThreshold \<equiv> 0x3fff"

record ulp_packet =
  up_ssrc :: u32
  up_seq :: u16
  up_protected :: "protected_packet list"
  up_header_size :: nat
  up_stream :: ulp_stream
  up_protection_length :: nat
  up_pkt :: "byte list"

record ulp_fec =
  ulp_ssrc :: u32
  ulp_protected_media_ssrc :: u32
  ulp_received :: "ulp_packet list"

definition up_less :: "ulp_packet \<Rightarrow> ulp_packet \<Rightarrow> bool" where
  "up_less a b = IsNewerSequenceNumber (up_seq b) (up_seq a)"

definition UlpResetState :: "ulp_fec \<Rightarrow> ulp_fec \<times> recovered_packet list" where
  "UlpResetState st = (st\<lparr>ulp_received := []\<rparr>, [])"

subsection \<open>Inserting packets\<close>

definition ulp_update_covering :: "recovered_packet \<Rightarrow> ulp_packet \<Rightarrow> ulp_packet" where
  "ulp_update_covering packet fec =
     (let ps = up_protected fec;
          i = lower_bound (\<lambda>p. IsNewerSequenceNumber (rp_seq packet) (pp_seq p)) ps 0 (length ps)
      in if i < length ps \<and> pp_seq (ps ! i) = rp_seq packet
         then fec\<lparr>up_protected := ps[i := (ps ! i)\<lparr>pp_pkt := Some (rp_pkt packet)\<rparr>]\<rparr>
         else fec)"

definition UlpUpdateCoveringFecPackets :: "recovered_packet \<Rightarrow> ulp_packet list \<Rightarrow> ulp_packet list" where
  "UlpUpdateCoveringFecPackets packet fecs = map (ulp_update_covering packet) fecs"

definition UlpDiscardOldRecoveredPackets :: "recovered_packet list \<Rightarrow> recovered_packet list" where
  "UlpDiscardOldRecoveredPackets rs = drop (length rs - kUlpMaxTrackedMediaPackets) rs"

definition UlpInsertMediaPacket ::
  "received_packet \<Rightarrow> ulp_fec \<Rightarrow> recovered_packet list \<Rightarrow> ulp_fec \<times> recovered_packet list" where
  "UlpInsertMediaPacket received st recovered =
     (if (\<exists>r \<in> set recovered. rp_seq r = rcv_seq received) then (st, recovered)
      else
        let packet = \<lparr>rp_ssrc = rcv_ssrc received, rp_seq = rcv_seq received, was_recovered = False,
                      returned = True, rp_pkt = rcv_pkt received\<rparr>
        in (st\<lparr>ulp_received := UlpUpdateCoveringFecPackets packet (ulp_received st)\<rparr>,
            sort_by rp_less (recovered @ [packet])))"

definition protected_of_bytes :: "u32 \<Rightarrow> u16 \<Rightarrow> byte list \<Rightarrow> protected_packet list" where
  "protected_of_bytes ssrc base masks =
     concat (map (\<lambda>byte_idx.
       map (\<lambda>bit_idx. \<lparr>pp_ssrc = ssrc, pp_seq = base + of_nat (byte_idx * 8) + of_nat bit_idx, pp_pkt = None\<rparr>)
         (filter (\<lambda>bit_idx. masks ! byte_idx AND push_bit (7 - bit_idx) 1 \<noteq> 0) [0..<8]))
       [0..<length masks])"

fun UlpAssignRecoveredPackets ::
  "protected_packet list \<Rightarrow> recovered_packet list \<Rightarrow> protected_packet list" where
  "UlpAssignRecoveredPackets [] rs = []"
| "UlpAssignRecoveredPackets ps [] = ps"
| "UlpAssignRecoveredPackets (p # ps) (r # rs) =
     (if IsNewerSequenceNumber (rp_seq r) (pp_seq p) then p # UlpAssignRecoveredPackets ps (r # rs)
      else if IsNewerSequenceNumber (pp_seq p) (rp_seq r) then UlpAssignRecoveredPackets (p # ps) rs
      else p\<lparr>pp_pkt := Some (rp_pkt r)\<rparr> # UlpAssignRecoveredPackets ps rs)"

definition UlpInsertFecPacket ::
  "recovered_packet list \<Rightarrow> received_packet \<Rightarrow> ulp_fec \<Rightarrow> ulp_fec" where
  "UlpInsertFecPacket recovered received st =
     (if (\<exists>f \<in> set (ulp_received st). up_seq f = rcv_seq received) then st
      else case UlpReadFecHeader (rcv_ssrc received) (rcv_pkt received) of
        None \<Rightarrow> st
      | Some (h, data) \<Rightarrow>
          let s = uh_stream h
          in if us_ssrc s \<noteq> ulp_protected_media_ssrc st then st
             else if us_mask_offset s + us_mask_size s > length data then st
             else
               let protected = protected_of_bytes (ulp_protected_media_ssrc st) (us_seq_num_base s)
                     (take (us_mask_size s) (drop (us_mask_offset s) data))
               in if protected = [] then st
                  else
                    let fec = \<lparr>up_ssrc = rcv_ssrc received, up_seq = rcv_seq received,
                               up_protected = UlpAssignRecoveredPackets protected recovered,
                               up_header_size = uh_size h, up_stream = s,
                               up_protection_length = uh_protection_length h, up_pkt = data\<rparr>;
                        fecs = sort_by up_less (ulp_received st @ [fec])
                    in st\<lparr>ulp_received := (if length fecs > kUlpMaxFecPackets then tl fecs else fecs)\<rparr>)"

definition UlpInsertPacket ::
  "received_packet \<Rightarrow> ulp_fec \<Rightarrow> recovered_packet list \<Rightarrow> ulp_fec \<times> recovered_packet list" where
  "UlpInsertPacket received st recovered =
     (let fecs = ulp_received st;
          fecs = (if fecs \<noteq> [] \<and> rcv_ssrc received = up_ssrc (hd fecs)
                  then dropWhile (\<lambda>f. unat (MinDiff (rcv_seq received) (up_seq f)) > kUlpOldSequenceThreshold) fecs
                  else fecs);
          st = st\<lparr>ulp_received := fecs\<rparr>;
          (st, recovered) = (if rcv_is_fec received then (UlpInsertFecPacket recovered received st, recovered)
                             else UlpInsertMediaPacket received st recovered)
      in (st, UlpDiscardOldRecoveredPackets recovered))"

subsection \<open>Recovery\<close>

definition UlpStartPacketRecovery :: "ulp_packet \<Rightarrow> byte list option" where
  "UlpStartPacketRecovery f =
     (if length (up_pkt f) < up_header_size f + up_protection_length f then None
      else if up_protection_length f > min (IP_PACKET_SIZE - kRtpHeaderSize) (IP_PACKET_SIZE - up_header_size f)
      then None
      else Some (take kRtpHeaderSize (up_pkt f) @
                 take (up_protection_length f) (drop (up_header_size f) (up_pkt f))))"

definition UlpFinishPacketRecovery :: "u16 \<Rightarrow> u32 \<Rightarrow> byte list \<Rightarrow> byte list option" where
  "UlpFinishPacketRecovery sn ssrc data =
     (let data = data[0 := (data ! 0 OR 0x80) AND 0xbf];
          new_size = unat (ReadBigEndian16 data 2) + kRtpHeaderSize
      in if new_size > IP_PACKET_SIZE - kRtpHeaderSize then None
         else
           let data = grow (take new_size data) new_size
           in Some (WriteBigEndian32 (WriteBigEndian16 data 2 sn) 8 ssrc))"

text \<open>The loop over the protected packets: the missing one gives the number, the others are added.\<close>

fun xor_protected ::
  "protected_packet list \<Rightarrow> u16 \<times> u32 \<times> byte list \<Rightarrow> (u16 \<times> u32 \<times> byte list) result" where
  "xor_protected [] s = Inr s"
| "xor_protected (p # ps) (sn, ssrc, d) =
     (case pp_pkt p of
        None \<Rightarrow> xor_protected ps (pp_seq p, pp_ssrc p, d)
      | Some pkt \<Rightarrow>
          (case xor_packet pkt kRtpHeaderSize d of
             Inl e \<Rightarrow> Inl e
           | Inr d \<Rightarrow> xor_protected ps (sn, ssrc, d)))"

definition UlpRecoverPacket :: "ulp_packet \<Rightarrow> recovered_packet option result" where
  "UlpRecoverPacket f =
     (case UlpStartPacketRecovery f of
        None \<Rightarrow> Inr None
      | Some d \<Rightarrow>
          (case xor_protected (up_protected f) (0, 0, d) of
             Inl e \<Rightarrow> Inl e
           | Inr (sn, ssrc, d) \<Rightarrow>
               Inr (map_option (\<lambda>pkt. \<lparr>rp_ssrc = ssrc, rp_seq = sn, was_recovered = True, returned = False,
                                       rp_pkt = pkt\<rparr>)
                      (UlpFinishPacketRecovery sn ssrc d))))"

definition UlpNumCoveredPacketsMissing :: "ulp_packet \<Rightarrow> nat" where
  "UlpNumCoveredPacketsMissing f = min 2 (length (filter (\<lambda>p. pp_pkt p = None) (up_protected f)))"

definition UlpIsOldFecPacket :: "ulp_packet \<Rightarrow> recovered_packet list \<Rightarrow> bool" where
  "UlpIsOldFecPacket f recovered =
     (if recovered = [] then False
      else unat (MinDiff (rp_seq (last recovered)) (pp_seq (last (up_protected f)))) > kUlpOldSequenceThreshold)"

text \<open>
  The iterator splits the list of parity packets into \<open>passed\<close> and the rest; after a recovery it
  starts again at the front.
\<close>

function (sequential) UlpAttemptRecovery ::
  "ulp_packet list \<Rightarrow> ulp_packet list \<Rightarrow> recovered_packet list \<Rightarrow> nat
     \<Rightarrow> (ulp_packet list \<times> recovered_packet list \<times> nat) result" where
  "UlpAttemptRecovery passed [] recovered num = Inr (passed, recovered, num)"
| "UlpAttemptRecovery passed (f # fs) recovered num =
     (if UlpNumCoveredPacketsMissing f = 1 then
        (case UlpRecoverPacket f of
           Inl e \<Rightarrow> Inl e
         | Inr None \<Rightarrow> UlpAttemptRecovery passed fs recovered num
         | Inr (Some r) \<Rightarrow>
             UlpAttemptRecovery [] (UlpUpdateCoveringFecPackets r (passed @ fs))
               (UlpDiscardOldRecoveredPackets (sort_by rp_less (recovered @ [r]))) (num + 1))
      else if UlpNumCoveredPacketsMissing f = 0 \<or> UlpIsOldFecPacket f recovered then
        UlpAttemptRecovery passed fs recovered num
      else UlpAttemptRecovery (passed @ [f]) fs recovered num)"
  by pat_completeness auto
termination
  by (relation "measures [\<lambda>(passed, fs, recovered, num). length passed + length fs,
        \<lambda>(passed, fs, recovered, num). length fs]")
     (auto simp: UlpUpdateCoveringFecPackets_def)

definition DecodeFec ::
  "received_packet \<Rightarrow> ulp_fec \<Rightarrow> recovered_packet list \<Rightarrow> (ulp_fec \<times> recovered_packet list \<times> nat) result" where
  "DecodeFec received st recovered =
     (let (st, recovered) =
            (if length recovered = kUlpMaxTrackedMediaPackets \<and>
                rcv_ssrc received = rp_ssrc (last recovered) \<and>
                unat (MinDiff (rcv_seq received) (rp_seq (last recovered))) > kUlpMaxTrackedMediaPackets
             then UlpResetState st else (st, recovered));
          (st, recovered) = UlpInsertPacket received st recovered
      in case UlpAttemptRecovery [] (ulp_received st) recovered 0 of
           Inl e \<Rightarrow> Inl e
         | Inr (fecs, recovered, num) \<Rightarrow> Inr (st\<lparr>ulp_received := fecs\<rparr>, recovered, num))"

end
