(* ===== verification/Rtp_Packet.thy ===== *)
theory Rtp_Packet
  imports Fec_Prelude
begin

text \<open>
  RTP packets: \<^verbatim>\<open>modules/rtp_rtcp/source/rtp_packet.cc\<close>, the header fields kept beside the buffer,
  parsing, the setters the FEC code calls, and the mutable header extensions that are zeroed before
  a packet enters the FEC decoder.  The copy-on-write buffer is the list of its bytes.
\<close>

abbreviation (input) kFixedHeaderSize :: nat where "kFixedHeaderSize \<equiv> 12"
abbreviation (input) kOneByteExtensionProfileId :: u16 where "kOneByteExtensionProfileId \<equiv> 0xBEDE"
abbreviation (input) kTwoByteExtensionProfileId :: u16 where "kTwoByteExtensionProfileId \<equiv> 0x1000"
abbreviation (input) kTwobyteExtensionProfileIdAppBitsFilter :: u16 where
  "kTwobyteExtensionProfileIdAppBitsFilter \<equiv> 0xfff0"
abbreviation (input) kPacerExitDeltaOffset :: nat where "kPacerExitDeltaOffset \<equiv> 7"

datatype rtp_extension_type =
  ExtNone | TransmissionTimeOffset | AudioLevel | CsrcAudioLevel | InbandComfortNoise
| AbsoluteSendTime | AbsoluteCaptureTime | VideoRotation | TransportSequenceNumber
| TransportSequenceNumber02 | PlayoutDelay | VideoContentType | VideoLayersAllocation | VideoTiming
| RtpStreamId | RepairedRtpStreamId | ExtMid | GenericFrameDescriptor | DependencyDescriptor
| ColorSpace | VideoFrameTrackingId | CorruptionDetection

text \<open>\<^verbatim>\<open>RtpHeaderExtensionMap\<close>: the id registered for each type; zero is \<^verbatim>\<open>kInvalidId\<close>.\<close>

type_synonym extension_map = "rtp_extension_type \<Rightarrow> byte"

definition extension_types :: "rtp_extension_type list" where
  "extension_types =
     [TransmissionTimeOffset, AudioLevel, CsrcAudioLevel, InbandComfortNoise, AbsoluteSendTime,
      AbsoluteCaptureTime, VideoRotation, TransportSequenceNumber, TransportSequenceNumber02,
      PlayoutDelay, VideoContentType, VideoLayersAllocation, VideoTiming, RtpStreamId,
      RepairedRtpStreamId, ExtMid, GenericFrameDescriptor, DependencyDescriptor, ColorSpace,
      VideoFrameTrackingId, CorruptionDetection]"

definition GetType :: "extension_map \<Rightarrow> byte \<Rightarrow> rtp_extension_type" where
  "GetType ids i = (case find (\<lambda>t. ids t = i) extension_types of Some t \<Rightarrow> t | None \<Rightarrow> ExtNone)"

record extension_info =
  ext_id :: byte
  ext_length :: byte
  ext_offset :: u16

record rtp_packet =
  marker :: bool
  payload_type :: byte
  padding_size :: byte
  sequence_number :: u16
  timestamp :: u32
  rtp_ssrc :: u32
  payload_offset :: nat
  payload_size :: nat
  extensions :: extension_map
  extension_entries :: "extension_info list"
  extensions_size :: nat
  buffer :: "byte list"

abbreviation headers_size :: "('a) rtp_packet_scheme \<Rightarrow> nat" where
  "headers_size p \<equiv> payload_offset p"

definition rtp_size :: "'a rtp_packet_scheme \<Rightarrow> nat" where
  "rtp_size p = payload_offset p + payload_size p + unat (padding_size p)"

definition payload :: "'a rtp_packet_scheme \<Rightarrow> byte list" where
  "payload p = take (payload_size p) (drop (payload_offset p) (buffer p))"

definition WriteAt :: "nat \<Rightarrow> byte \<Rightarrow> 'a rtp_packet_scheme \<Rightarrow> 'a rtp_packet_scheme" where
  "WriteAt i b p = p\<lparr>buffer := (buffer p)[i := b]\<rparr>"

definition SetSize :: "nat \<Rightarrow> byte list \<Rightarrow> byte list" where
  "SetSize n d = grow (take n d) n"

definition CopyHeaderFrom :: "'a rtp_packet_scheme \<Rightarrow> 'a rtp_packet_scheme \<Rightarrow> 'a rtp_packet_scheme" where
  "CopyHeaderFrom packet p =
     p\<lparr>marker := marker packet, payload_type := payload_type packet,
       sequence_number := sequence_number packet, timestamp := timestamp packet,
       rtp_ssrc := rtp_ssrc packet, payload_offset := payload_offset packet,
       extensions := extensions packet, extension_entries := extension_entries packet,
       extensions_size := extensions_size packet, buffer := take (headers_size packet) (buffer packet),
       payload_size := 0, padding_size := 0\<rparr>"

definition SetMarker :: "bool \<Rightarrow> 'a rtp_packet_scheme \<Rightarrow> 'a rtp_packet_scheme" where
  "SetMarker marker_bit p =
     (let p = p\<lparr>marker := marker_bit\<rparr>
      in if marker_bit then WriteAt 1 (buffer p ! 1 OR 0x80) p else WriteAt 1 (buffer p ! 1 AND 0x7F) p)"

definition SetPayloadType :: "byte \<Rightarrow> 'a rtp_packet_scheme \<Rightarrow> 'a rtp_packet_scheme" where
  "SetPayloadType pt p = WriteAt 1 ((buffer p ! 1 AND 0x80) OR pt) (p\<lparr>payload_type := pt\<rparr>)"

definition SetSequenceNumber :: "u16 \<Rightarrow> 'a rtp_packet_scheme \<Rightarrow> 'a rtp_packet_scheme" where
  "SetSequenceNumber seq_no p =
     p\<lparr>sequence_number := seq_no, buffer := WriteBigEndian16 (buffer p) 2 seq_no\<rparr>"

definition SetTimestamp :: "u32 \<Rightarrow> 'a rtp_packet_scheme \<Rightarrow> 'a rtp_packet_scheme" where
  "SetTimestamp ts p = p\<lparr>timestamp := ts, buffer := WriteBigEndian32 (buffer p) 4 ts\<rparr>"

definition SetSsrc :: "u32 \<Rightarrow> 'a rtp_packet_scheme \<Rightarrow> 'a rtp_packet_scheme" where
  "SetSsrc s p = p\<lparr>rtp_ssrc := s, buffer := WriteBigEndian32 (buffer p) 8 s\<rparr>"

text \<open>\<^verbatim>\<open>memset(WriteAt(off), 0, n)\<close>\<close>

definition zero_range :: "nat \<Rightarrow> nat \<Rightarrow> byte list \<Rightarrow> byte list" where
  "zero_range off n d = fold (\<lambda>i d. d[off + i := 0]) [0..<n] d"

definition zero_extension :: "extension_map \<Rightarrow> extension_info \<Rightarrow> byte list \<Rightarrow> byte list" where
  "zero_extension ids e d =
     (case GetType ids (ext_id e) of
        VideoTiming \<Rightarrow>
          if kPacerExitDeltaOffset < unat (ext_length e)
          then zero_range (unat (ext_offset e) + kPacerExitDeltaOffset) (unat (ext_length e) - kPacerExitDeltaOffset) d
          else d
      | TransportSequenceNumber \<Rightarrow> zero_range (unat (ext_offset e)) (unat (ext_length e)) d
      | TransportSequenceNumber02 \<Rightarrow> zero_range (unat (ext_offset e)) (unat (ext_length e)) d
      | TransmissionTimeOffset \<Rightarrow> zero_range (unat (ext_offset e)) (unat (ext_length e)) d
      | AbsoluteSendTime \<Rightarrow> zero_range (unat (ext_offset e)) (unat (ext_length e)) d
      | _ \<Rightarrow> d)"

definition ZeroMutableExtensions :: "'a rtp_packet_scheme \<Rightarrow> 'a rtp_packet_scheme" where
  "ZeroMutableExtensions p =
     p\<lparr>buffer := fold (zero_extension (extensions p)) (extension_entries p) (buffer p)\<rparr>"

definition SetPayloadSize :: "nat \<Rightarrow> 'a rtp_packet_scheme \<Rightarrow> 'a rtp_packet_scheme" where
  "SetPayloadSize size_bytes p =
     p\<lparr>payload_size := size_bytes, buffer := SetSize (payload_offset p + size_bytes) (buffer p)\<rparr>"

definition AllocatePayload :: "nat \<Rightarrow> 'a rtp_packet_scheme \<Rightarrow> 'a rtp_packet_scheme" where
  "AllocatePayload size_bytes p = SetPayloadSize size_bytes (SetPayloadSize 0 p)"

definition Clear :: "'a rtp_packet_scheme \<Rightarrow> 'a rtp_packet_scheme" where
  "Clear p =
     p\<lparr>marker := False, payload_type := 0, sequence_number := 0, timestamp := 0, rtp_ssrc := 0,
       payload_offset := kFixedHeaderSize, payload_size := 0, padding_size := 0,
       extensions_size := 0, extension_entries := [],
       buffer := (replicate kFixedHeaderSize 0)[0 := push_bit 6 2]\<rparr>"

subsection \<open>Parsing\<close>

text \<open>\<^verbatim>\<open>FindOrCreateExtensionInfo\<close>, and the assignment to the entry it returns.\<close>

fun FindExtensionInfo :: "extension_info list \<Rightarrow> byte \<Rightarrow> extension_info option" where
  "FindExtensionInfo [] i = None"
| "FindExtensionInfo (e # es) i = (if ext_id e = i then Some e else FindExtensionInfo es i)"

fun FindOrCreateExtensionInfo :: "byte \<Rightarrow> (extension_info \<Rightarrow> extension_info) \<Rightarrow> extension_info list \<Rightarrow> extension_info list" where
  "FindOrCreateExtensionInfo i f [] = [f \<lparr>ext_id = i, ext_length = 0, ext_offset = 0\<rparr>]"
| "FindOrCreateExtensionInfo i f (e # es) =
     (if ext_id e = i then f e # es else e # FindOrCreateExtensionInfo i f es)"

function (sequential) parse_extensions ::
  "byte list \<Rightarrow> bool \<Rightarrow> nat \<Rightarrow> nat \<Rightarrow> nat \<Rightarrow> extension_info list \<Rightarrow> nat \<times> extension_info list" where
  "parse_extensions data one_byte extension_offset extensions_capacity esize entries =
     (let extension_header_length = (if one_byte then 1 else 2);
          b = data ! (extension_offset + esize)
      in if esize + extension_header_length < extensions_capacity then
           if b = 0 then
             parse_extensions data one_byte extension_offset extensions_capacity (esize + 1) entries
           else
             let i = (if one_byte then drop_bit 4 b else b);
                 len = (if one_byte then 1 + (b AND 0xf) else data ! (extension_offset + esize + 1));
                 offset = extension_offset + esize + extension_header_length
             in if one_byte \<and> (i = 15 \<or> i = 0 \<and> len \<noteq> 1) then (esize, entries)
                else if esize + extension_header_length + unat len > extensions_capacity then (esize, entries)
                else if offset > 0xffff then (esize, FindOrCreateExtensionInfo i (\<lambda>e. e) entries)
                else parse_extensions data one_byte extension_offset extensions_capacity
                       (esize + (extension_header_length + unat len))
                       (FindOrCreateExtensionInfo i (\<lambda>e. e\<lparr>ext_length := len, ext_offset := of_nat offset\<rparr>) entries)
         else (esize, entries))"
  by pat_completeness auto
termination
  by (relation "measure (\<lambda>(data, one_byte, off, cap, esize, entries). cap - esize)") auto

declare parse_extensions.simps [simp del]

definition ParseBuffer :: "byte list \<Rightarrow> 'a rtp_packet_scheme \<Rightarrow> 'a rtp_packet_scheme option" where
  "ParseBuffer data p =
     (if length data < kFixedHeaderSize then None
      else if drop_bit 6 (data ! 0) \<noteq> 2 then None
      else
        let has_padding = ((data ! 0) AND 0x20 \<noteq> 0);
            has_extension = ((data ! 0) AND 0x10 \<noteq> 0);
            number_of_crcs = unat ((data ! 0) AND 0x0f);
            p = p\<lparr>marker := ((data ! 1) AND 0x80 \<noteq> 0), payload_type := (data ! 1) AND 0x7f,
                  sequence_number := ReadBigEndian16 data 2, timestamp := ReadBigEndian32 data 4,
                  rtp_ssrc := ReadBigEndian32 data 8\<rparr>
        in if length data < kFixedHeaderSize + number_of_crcs * 4 then None
           else
             let p = p\<lparr>payload_offset := kFixedHeaderSize + number_of_crcs * 4,
                       extensions_size := 0, extension_entries := []\<rparr>;
                 parsed =
                   (if has_extension then
                      let extension_offset = payload_offset p + 4
                      in if extension_offset > length data then None
                         else
                           let profile = ReadBigEndian16 data (payload_offset p);
                               extensions_capacity = unat (ReadBigEndian16 data (payload_offset p + 2)) * 4;
                               after = extension_offset + extensions_capacity
                           in if after > length data then None
                              else if profile \<noteq> kOneByteExtensionProfileId \<and>
                                profile AND kTwobyteExtensionProfileIdAppBitsFilter \<noteq> kTwoByteExtensionProfileId
                              then Some (p\<lparr>payload_offset := after\<rparr>)
                              else
                                (case parse_extensions data (profile = kOneByteExtensionProfileId)
                                        extension_offset extensions_capacity 0 [] of
                                   (esize, entries) \<Rightarrow>
                                     Some (p\<lparr>payload_offset := after, extensions_size := esize,
                                             extension_entries := entries\<rparr>))
                    else Some p)
             in case parsed of
                  None \<Rightarrow> None
                | Some p \<Rightarrow>
                    let padding = (if has_padding \<and> payload_offset p < length data
                                   then data ! (length data - 1) else 0)
                    in if has_padding \<and> payload_offset p < length data \<and> padding = 0 then None
                       else if payload_offset p + unat padding > length data then None
                       else Some (p\<lparr>padding_size := padding,
                                    payload_size := length data - payload_offset p - unat padding\<rparr>))"

definition Parse :: "byte list \<Rightarrow> 'a rtp_packet_scheme \<Rightarrow> bool \<times> 'a rtp_packet_scheme" where
  "Parse data p =
     (case ParseBuffer data p of
        None \<Rightarrow> (False, Clear p)
      | Some q \<Rightarrow> (True, q\<lparr>buffer := data\<rparr>))"

definition FindExtension :: "rtp_extension_type \<Rightarrow> 'a rtp_packet_scheme \<Rightarrow> byte list" where
  "FindExtension type p =
     (let i = extensions p type
      in if i = 0 then []
         else case FindExtensionInfo (extension_entries p) i of
                None \<Rightarrow> []
              | Some e \<Rightarrow> take (unat (ext_length e)) (drop (unat (ext_offset e)) (buffer p)))"

definition HasExtension :: "rtp_extension_type \<Rightarrow> 'a rtp_packet_scheme \<Rightarrow> bool" where
  "HasExtension type p =
     (let i = extensions p type
      in if i = 0 then False else FindExtensionInfo (extension_entries p) i \<noteq> None)"

definition Csrcs :: "'a rtp_packet_scheme \<Rightarrow> u32 list" where
  "Csrcs p = map (\<lambda>i. ReadBigEndian32 (buffer p) (kFixedHeaderSize + i * 4))
     [0..<unat (buffer p ! 0 AND 0x0F)]"

end
