(* ===== verification/Fec_Generator.thy ===== *)
theory Fec_Generator
  imports Complex_Main RS_Encoder Seq_Num Rtp_Packet
begin

text \<open>
  The senders: \<^verbatim>\<open>RS_FEC/RSfec_generator.cc\<close>, which protects whole frames in blocks, and
  \<^verbatim>\<open>RS_FEC/StreamRSfec_generator.cc\<close>, which protects a sliding window.  Both collect media packets,
  call the encoder and wrap the parity packets into RED packets.  The block generator is written over
  the encoder it calls, because \<^verbatim>\<open>UlpFEC/ulpfec_generator.cc\<close> has the same code for the XOR encoder.
  A failed \<^verbatim>\<open>RTC_CHECK\<close> or \<^verbatim>\<open>RTC_DCHECK\<close> on the state is the error \<open>CheckFailed\<close>.  Mutexes, the
  bit rate statistics and the log files are left out.
\<close>

record fec_protection_params =
  fec_rate :: int
  max_fec_frames :: int
  fec_mask_type :: fec_mask_kind

text \<open>\<^verbatim>\<open>RtpPacketToSend\<close>: the packet and the metadata that the generators read or set.\<close>

datatype rtp_packet_media_type =
  kAudio | kVideo | kRetransmission | kForwardErrorCorrection | kPadding

record rtp_packet_to_send = rtp_packet +
  packet_type :: "rtp_packet_media_type option"
  allow_retransmission :: bool
  is_key_frame :: bool
  fec_protect_packet :: bool
  is_red :: bool

abbreviation (input) kRedForFecHeaderLength :: nat where "kRedForFecHeaderLength \<equiv> 1"
abbreviation (input) kMaxExcessOverhead :: int where "kMaxExcessOverhead \<equiv> 50"
abbreviation (input) kMinMediaPackets :: int where "kMinMediaPackets \<equiv> 4"
abbreviation (input) kHighProtectionThreshold :: int where "kHighProtectionThreshold \<equiv> 80"
abbreviation (input) kMaxFECSeqNumDiff :: nat where "kMaxFECSeqNumDiff \<equiv> 32"

subsection \<open>The block generator\<close>

record fec_generator =
  red_payload_type :: int
  fec_payload_type :: int
  media_packets :: "byte list list"
  last_media_packet :: "rtp_packet_to_send option"
  generated_fec_packets :: "byte list list"
  num_protected_frames :: int
  min_num_media_packets :: int
  current_params :: "fec_protection_params \<times> fec_protection_params"
  media_contains_keyframe :: bool
  pending_params :: "(fec_protection_params \<times> fec_protection_params) option"

definition default_params :: fec_protection_params where
  "default_params = \<lparr>fec_rate = 0, max_fec_frames = 0, fec_mask_type = kFecMaskRandom\<rparr>"

definition RSfecGenerator :: "int \<Rightarrow> int \<Rightarrow> fec_generator" where
  "RSfecGenerator red_pt fec_pt =
     \<lparr>red_payload_type = red_pt, fec_payload_type = fec_pt, media_packets = [],
      last_media_packet = None, generated_fec_packets = [], num_protected_frames = 0,
      min_num_media_packets = 1, current_params = (default_params, default_params),
      media_contains_keyframe = False, pending_params = None\<rparr>"

definition SetProtectionParameters ::
  "fec_protection_params \<Rightarrow> fec_protection_params \<Rightarrow> fec_generator \<Rightarrow> fec_generator result" where
  "SetProtectionParameters delta key st =
     (if fec_rate delta < 0 \<or> fec_rate delta > 255 \<or> fec_rate key < 0 \<or> fec_rate key > 255
      then Inl CheckFailed
      else Inr (st\<lparr>pending_params := Some (delta, key)\<rparr>))"

definition CurrentParams :: "fec_generator \<Rightarrow> fec_protection_params" where
  "CurrentParams st = (if media_contains_keyframe st then snd (current_params st) else fst (current_params st))"

definition ResetState_gen :: "fec_generator \<Rightarrow> fec_generator" where
  "ResetState_gen st =
     st\<lparr>media_packets := [], last_media_packet := None, generated_fec_packets := [],
        num_protected_frames := 0, media_contains_keyframe := False\<rparr>"

definition Overhead :: "(int \<Rightarrow> int \<Rightarrow> int) \<Rightarrow> fec_generator \<Rightarrow> int result" where
  "Overhead num_fec st =
     (if media_packets st = [] then Inl DivisionByZero
      else Inr (push_bit 8 (num_fec (int (length (media_packets st))) (fec_rate (CurrentParams st)))
                div int (length (media_packets st))))"

definition ExcessOverheadBelowMax :: "(int \<Rightarrow> int \<Rightarrow> int) \<Rightarrow> fec_generator \<Rightarrow> bool result" where
  "ExcessOverheadBelowMax num_fec st =
     (case Overhead num_fec st of
        Inl e \<Rightarrow> Inl e
      | Inr overhead \<Rightarrow> Inr (overhead - fec_rate (CurrentParams st) < kMaxExcessOverhead))"

text \<open>
  The quotient of two small integers is below 2 in single precision exactly when it is below 2.
  A quotient by zero is infinite or not a number, so it is not below 2.
\<close>

definition MinimumMediaPacketsReached :: "fec_generator \<Rightarrow> bool" where
  "MinimumMediaPacketsReached st =
     (let num_media_packets = int (length (media_packets st))
      in if num_protected_frames st > 0 \<and> num_media_packets < 2 * num_protected_frames st
         then num_media_packets \<ge> min_num_media_packets st
         else num_media_packets \<ge> min_num_media_packets st + 1)"

definition apply_pending_params :: "fec_generator \<Rightarrow> fec_generator" where
  "apply_pending_params st =
     (case pending_params st of
        None \<Rightarrow> st
      | Some params \<Rightarrow>
          let st = st\<lparr>current_params := params, pending_params := None\<rparr>
          in st\<lparr>min_num_media_packets :=
                (if fec_rate (CurrentParams st) > kHighProtectionThreshold then kMinMediaPackets else 1)\<rparr>)"

definition add_media_packet :: "nat \<Rightarrow> rtp_packet_to_send \<Rightarrow> fec_generator \<Rightarrow> fec_generator" where
  "add_media_packet max_media packet st =
     (let st = (if is_key_frame packet then st\<lparr>media_contains_keyframe := True\<rparr> else st);
          st = (if length (media_packets st) < max_media
                then st\<lparr>media_packets := media_packets st @ [buffer packet], last_media_packet := Some packet\<rparr>
                else st)
      in if marker packet then st\<lparr>num_protected_frames := num_protected_frames st + 1\<rparr> else st)"

definition should_generate :: "(int \<Rightarrow> int \<Rightarrow> int) \<Rightarrow> rtp_packet_to_send \<Rightarrow> fec_generator \<Rightarrow> bool result" where
  "should_generate num_fec packet st =
     (if \<not> marker packet then Inr False
      else if num_protected_frames st \<ge> max_fec_frames (CurrentParams st) then Inr True
      else case ExcessOverheadBelowMax num_fec st of
             Inl e \<Rightarrow> Inl e
           | Inr below \<Rightarrow> Inr (below \<and> MinimumMediaPacketsReached st))"

definition add_packet_and_generate ::
  "nat \<Rightarrow> (int \<Rightarrow> int \<Rightarrow> int) \<Rightarrow> ('e \<Rightarrow> byte list list \<Rightarrow> fec_protection_params \<Rightarrow> ('e \<times> byte list list) result)
     \<Rightarrow> rtp_packet_to_send \<Rightarrow> 'e \<Rightarrow> fec_generator \<Rightarrow> ('e \<times> fec_generator) result" where
  "add_packet_and_generate max_media num_fec encode packet enc st =
     (if generated_fec_packets st \<noteq> [] then Inl CheckFailed
      else
        let st = add_media_packet max_media packet (apply_pending_params st)
        in case should_generate num_fec packet st of
             Inl e \<Rightarrow> Inl e
           | Inr False \<Rightarrow> Inr (enc, st)
           | Inr True \<Rightarrow>
               (case encode enc (media_packets st) (CurrentParams st) of
                  Inl e \<Rightarrow> Inl e
                | Inr (enc, fecs) \<Rightarrow>
                    let st = st\<lparr>generated_fec_packets := fecs\<rparr>
                    in Inr (enc, if fecs = [] then ResetState_gen st else st)))"

text \<open>The Reed-Solomon encoder behind that interface; its state is the process-wide base number.\<close>

definition rs_encode ::
  "gf_op \<Rightarrow> fec_params \<Rightarrow> int \<Rightarrow> byte list list \<Rightarrow> fec_protection_params \<Rightarrow> (int \<times> byte list list) result" where
  "rs_encode g params cur media p =
     (case EncodeRSFec g params cur media (word_of_int (fec_rate p)) of
        Inl e \<Rightarrow> Inl e
      | Inr (cur, ret, fecs) \<Rightarrow> Inr (cur, fecs))"

definition AddPacketAndGenerateFec ::
  "gf_op \<Rightarrow> fec_params \<Rightarrow> rtp_packet_to_send \<Rightarrow> int \<Rightarrow> fec_generator \<Rightarrow> (int \<times> fec_generator) result" where
  "AddPacketAndGenerateFec g params =
     add_packet_and_generate kRSfecMaxMediaPackets NumFecPackets (rs_encode g params)"

text \<open>One RED packet: the header of the last media packet, the RED header byte, the parity packet.\<close>

definition write_range :: "nat \<Rightarrow> byte list \<Rightarrow> byte list \<Rightarrow> byte list" where
  "write_range off xs d = take off d @ xs @ drop (off + length xs) d"

definition red_packet :: "int \<Rightarrow> int \<Rightarrow> rtp_packet_to_send \<Rightarrow> byte list \<Rightarrow> rtp_packet_to_send" where
  "red_packet red_pt fec_pt last_packet fec_packet =
     (let red = SetPayloadType (word_of_int red_pt) last_packet;
          red = SetMarker False red;
          red = SetPayloadSize (kRedForFecHeaderLength + length fec_packet) red;
          red = red\<lparr>buffer := write_range (payload_offset red) (word_of_int fec_pt # fec_packet) (buffer red)\<rparr>
      in red\<lparr>packet_type := Some kForwardErrorCorrection, allow_retransmission := False,
             is_red := True, fec_protect_packet := False\<rparr>)"

definition GetFecPackets :: "fec_generator \<Rightarrow> (rtp_packet_to_send list \<times> fec_generator) result" where
  "GetFecPackets st =
     (if generated_fec_packets st = [] then Inr ([], st)
      else case last_media_packet st of
             None \<Rightarrow> Inl CheckFailed
           | Some last_packet \<Rightarrow>
               Inr (map (red_packet (red_payload_type st) (fec_payload_type st) (SetPayloadSize 0 last_packet))
                      (generated_fec_packets st),
                    ResetState_gen st))"

subsection \<open>The stream generator\<close>

text \<open>
  The configuration of \<^verbatim>\<open>Params.h\<close> that it reads: the window length \<^verbatim>\<open>L\<close>, the interval \<^verbatim>\<open>I\<close> and the
  rate.  Floating-point results are rounded by \<open>rnd\<close> after each operation.
\<close>

record stream_params = fec_params +
  param_L :: u32
  param_I :: u32
  FecRate :: rat

record stream_generator = fec_generator +
  key_frame_note :: "int list"
  num_media_packets_insert :: int
  left_rate :: rat

definition ResetState_stream :: "stream_generator \<Rightarrow> stream_generator" where
  "ResetState_stream st =
     st\<lparr>media_packets := [], key_frame_note := [], last_media_packet := None,
        generated_fec_packets := [], num_protected_frames := 0, num_media_packets_insert := 0,
        media_contains_keyframe := False\<rparr>"

fun pop_front_until :: "nat \<Rightarrow> 'a list \<Rightarrow> 'a list" where
  "pop_front_until L [] = []"
| "pop_front_until L (x # xs) = (if length (x # xs) \<ge> L then pop_front_until L xs else x # xs)"

definition far_from :: "u16 \<Rightarrow> byte list \<Rightarrow> bool" where
  "far_from insert_seq_num p \<longleftrightarrow> unat (MinDiff insert_seq_num (ParseSequenceNumber p)) \<ge> kMaxFECSeqNumDiff"

definition slide_window :: "nat \<Rightarrow> rtp_packet_to_send \<Rightarrow> stream_generator \<Rightarrow> stream_generator" where
  "slide_window L packet st =
     (let st = st\<lparr>media_packets := pop_front_until L (media_packets st)\<rparr>
      in if length (media_packets st) < L then
           st\<lparr>media_packets := dropWhile (far_from (ParseSequenceNumber (buffer packet)))
                                 (media_packets st @ [buffer packet]),
              num_media_packets_insert := num_media_packets_insert st + 1,
              last_media_packet := Some packet\<rparr>
         else st)"

text \<open>The call of the encoder and the state after it; \<open>finish\<close> is what a successful call changes.\<close>

definition stream_encode ::
  "gf_op \<Rightarrow> stream_params \<Rightarrow> byte \<Rightarrow> (stream_generator \<Rightarrow> stream_generator) \<Rightarrow> int \<Rightarrow> stream_generator
     \<Rightarrow> (int \<times> stream_generator) result" where
  "stream_encode g params factor finish cur st =
     (case EncodeRSFec g (fec_params.truncate params) cur (media_packets st) factor of
        Inl e \<Rightarrow> Inl e
      | Inr (cur, ret, fecs) \<Rightarrow>
          let st = st\<lparr>generated_fec_packets := fecs\<rparr>
          in if fecs = [] \<or> ret = -1 then Inr (cur, ResetState_stream st) else Inr (cur, finish st))"

definition add_stable_rate ::
  "gf_op \<Rightarrow> (rat \<Rightarrow> rat) \<Rightarrow> stream_params \<Rightarrow> rtp_packet_to_send \<Rightarrow> int \<Rightarrow> stream_generator
     \<Rightarrow> (int \<times> stream_generator) result" where
  "add_stable_rate g rnd params packet cur st =
     (let st = slide_window (unat (param_L params)) packet st;
          n = num_media_packets_insert st;
          rate = rnd (left_rate st + rnd (FecRate params * of_int n))
      in if n \<ge> int (length (media_packets st)) then
           stream_encode g params 0 (\<lambda>st. st\<lparr>left_rate := 0, num_media_packets_insert := 0\<rparr>) cur st
         else if n > 0 \<and> rate \<ge> of_int (generate_fec_num params) \<and> marker packet then
           stream_encode g params 0
             (\<lambda>st. st\<lparr>left_rate := (let left = rnd (rate - of_int (generate_fec_num params)) in if left > 1 then 1 else left),
                      num_media_packets_insert := 0\<rparr>) cur st
         else Inr (cur, st))"

definition add_interval ::
  "gf_op \<Rightarrow> stream_params \<Rightarrow> rtp_packet_to_send \<Rightarrow> int \<Rightarrow> stream_generator \<Rightarrow> (int \<times> stream_generator) result" where
  "add_interval g params packet cur st =
     (let st = slide_window (unat (param_L params)) packet st
      in if media_packets st \<noteq> [] \<and> num_media_packets_insert st \<ge> sint (param_I params) then
           stream_encode g params 0 (\<lambda>st. st\<lparr>num_media_packets_insert := 0\<rparr>) cur st
         else Inr (cur, st))"

definition insert_source_rate :: "rtp_packet_to_send \<Rightarrow> stream_generator \<Rightarrow> stream_generator" where
  "insert_source_rate packet st =
     (let st = (if length (media_packets st) < kRSfecMaxMediaPackets then
                  let media = media_packets st @ [buffer packet];
                      note = key_frame_note st @ [if is_key_frame packet then 1 else 0];
                      n = length (takeWhile (far_from (ParseSequenceNumber (buffer packet))) media)
                  in st\<lparr>media_packets := drop n media, key_frame_note := drop n note,
                        last_media_packet := Some packet\<rparr>
                else st)
      in if marker packet then st\<lparr>num_protected_frames := num_protected_frames st + 1\<rparr> else st)"

definition base_generator :: "stream_generator \<Rightarrow> fec_generator" where
  "base_generator st = fec_generator.truncate st"

definition add_source_rate ::
  "gf_op \<Rightarrow> stream_params \<Rightarrow> rtp_packet_to_send \<Rightarrow> int \<Rightarrow> stream_generator \<Rightarrow> (int \<times> stream_generator) result" where
  "add_source_rate g params packet cur st =
     (let st = (case pending_params st of
                  None \<Rightarrow> st
                | Some new \<Rightarrow>
                    let st = st\<lparr>current_params := new, pending_params := None\<rparr>
                    in st\<lparr>min_num_media_packets :=
                          (if fec_rate (CurrentParams (base_generator st)) > kHighProtectionThreshold
                           then kMinMediaPackets else 1)\<rparr>);
          st = insert_source_rate packet st
      in case should_generate NumFecPackets packet (base_generator st) of
           Inl e \<Rightarrow> Inl e
         | Inr False \<Rightarrow> Inr (cur, st)
         | Inr True \<Rightarrow>
             stream_encode g params (word_of_int (fec_rate (CurrentParams (base_generator st)))) (\<lambda>st. st) cur st)"

definition StreamAddPacketAndGenerateFec ::
  "gf_op \<Rightarrow> (rat \<Rightarrow> rat) \<Rightarrow> stream_params \<Rightarrow> rtp_packet_to_send \<Rightarrow> int \<Rightarrow> stream_generator
     \<Rightarrow> (int \<times> stream_generator) result" where
  "StreamAddPacketAndGenerateFec g rnd params packet cur st =
     (if generated_fec_packets st \<noteq> [] then Inl CheckFailed
      else if param_type params \<in> {RSFECStreamStableRate, SwiftFECAblI} then
        add_stable_rate g rnd params packet cur st
      else if param_type params \<in> {RLSRSFEC, SwiftFECAblL, SwiftFECAblM} then
        add_interval g params packet cur st
      else if param_type params = RSFECStreamSourceRate then
        add_source_rate g params packet cur st
      else Inr (cur, st))"

definition StreamGetFecPackets :: "stream_generator \<Rightarrow> (rtp_packet_to_send list \<times> stream_generator) result" where
  "StreamGetFecPackets st =
     (if generated_fec_packets st = [] then Inr ([], st)
      else case last_media_packet st of
             None \<Rightarrow> Inl CheckFailed
           | Some last_packet \<Rightarrow>
               let last_packet = SetPayloadSize 0 last_packet
               in Inr (map (red_packet (red_payload_type st) (fec_payload_type st) last_packet) (generated_fec_packets st),
                       st\<lparr>last_media_packet := Some last_packet, generated_fec_packets := []\<rparr>))"

end
