(* ===== verification/Fec_Receiver.thy ===== *)
theory Fec_Receiver
  imports RS_Decoder Rtp_Packet
begin

text \<open>
  The receiver \<^verbatim>\<open>RS_FEC/RSfec_receiver.cc\<close>: it unwraps RED packets, passes media packets on, feeds the
  decoder and delivers what it recovers.  The callback \<^verbatim>\<open>OnRecoveredPacket\<close> belongs to the caller; here
  the packets it is given are collected in the order of the calls, and it does not call back.
\<close>

record rtp_packet_received = rtp_packet +
  recovered :: bool

record received_red_packet = received_packet +
  is_recovered :: bool
  rcv_extensions :: extension_map

record fec_packet_counter =
  num_packets :: nat
  num_bytes :: nat
  num_fec_packets_counted :: nat
  num_recovered_packets :: nat
  first_packet_time :: "int option"

record fec_receiver =
  receiver_ssrc :: u32
  receiver_fec_payload_type :: int
  received_packets :: "received_red_packet list"
  recovered_packets :: "recovered_packet list"
  packet_counter :: fec_packet_counter

abbreviation (input) kRedHeaderLength :: nat where "kRedHeaderLength \<equiv> 1"

definition no_extensions :: extension_map where
  "no_extensions = (\<lambda>_. 0)"

text \<open>The constructor of \<^verbatim>\<open>RtpPacketReceived\<close>.\<close>

definition RtpPacketReceived :: "extension_map \<Rightarrow> rtp_packet_received" where
  "RtpPacketReceived ids =
     Clear \<lparr>marker = False, payload_type = 0, padding_size = 0, sequence_number = 0, timestamp = 0,
       rtp_ssrc = 0, payload_offset = 0, payload_size = 0, extensions = ids, extension_entries = [],
       extensions_size = 0, buffer = [], recovered = False\<rparr>"

subsection \<open>Unwrapping\<close>

definition red_content :: "byte \<Rightarrow> bool \<Rightarrow> rtp_packet_received \<Rightarrow> byte list" where
  "red_content pt is_fec p =
     (if is_fec then
        take (payload_size p - kRedHeaderLength) (drop (headers_size p + kRedHeaderLength) (buffer p))
      else
        let header = take (headers_size p) (buffer p);
            header = header[1 := (header ! 1 AND 0x80) + pt]
        in header @ take (rtp_size p - headers_size p - kRedHeaderLength)
                      (drop (headers_size p + kRedHeaderLength) (buffer p)))"

definition AddReceivedRedPacket :: "int \<Rightarrow> rtp_packet_received \<Rightarrow> fec_receiver \<Rightarrow> bool \<times> fec_receiver" where
  "AddReceivedRedPacket now p st =
     (if rtp_ssrc p \<noteq> receiver_ssrc st then (False, st)
      else if rtp_size p > IP_PACKET_SIZE then (False, st)
      else if payload_size p = 0 then (False, st)
      else
        let b = payload p ! 0;
            pt = b AND 0x7f;
            is_fec = (uint pt = receiver_fec_payload_type st)
        in if b AND 0x80 \<noteq> 0 then (False, st)
           else
             let c = packet_counter st;
                 c = c\<lparr>num_packets := num_packets c + 1, num_bytes := num_bytes c + rtp_size p,
                       first_packet_time := (case first_packet_time c of None \<Rightarrow> Some now | Some t \<Rightarrow> Some t)\<rparr>;
                 c = (if is_fec then c\<lparr>num_fec_packets_counted := num_fec_packets_counted c + 1\<rparr> else c);
                 data = red_content pt is_fec p;
                 r = \<lparr>rcv_ssrc = rtp_ssrc p, rcv_seq = sequence_number p, rcv_is_fec = is_fec, rcv_pkt = data,
                      is_recovered = recovered p, rcv_extensions = extensions p\<rparr>;
                 st = st\<lparr>packet_counter := c\<rparr>
             in (True, if data \<noteq> [] then st\<lparr>received_packets := received_packets st @ [r]\<rparr> else st))"

subsection \<open>Delivery\<close>

text \<open>A media packet is parsed and delivered; its mutable extensions are zeroed for the decoder.\<close>

definition deliver_media ::
  "received_red_packet \<Rightarrow> (rtp_packet_received list \<times> received_red_packet) option" where
  "deliver_media r =
     (if rcv_is_fec r then Some ([], r)
      else case Parse (rcv_pkt r) (RtpPacketReceived (rcv_extensions r)) of
             (False, _) \<Rightarrow> None
           | (True, p) \<Rightarrow> Some ([p], r\<lparr>rcv_pkt := buffer (ZeroMutableExtensions p)\<rparr>))"

fun deliver_recovered ::
  "extension_map \<Rightarrow> recovered_packet list \<Rightarrow> rtp_packet_received list \<times> recovered_packet list \<times> nat" where
  "deliver_recovered ids [] = ([], [], 0)"
| "deliver_recovered ids (r # rs) =
     (case deliver_recovered ids rs of (out, rs', n) \<Rightarrow>
        if returned r then (out, r # rs', n)
        else case Parse (rp_pkt r) (RtpPacketReceived ids) of
               (ok, p) \<Rightarrow>
                 (if ok then p\<lparr>recovered := True\<rparr> # out else out, r\<lparr>returned := True\<rparr> # rs', n + 1))"

definition send_recovered ::
  "extension_map option \<Rightarrow> fec_receiver \<Rightarrow> rtp_packet_received list \<times> fec_receiver" where
  "send_recovered ids st =
     (case deliver_recovered (case ids of None \<Rightarrow> no_extensions | Some m \<Rightarrow> m) (recovered_packets st) of
        (out, rs, n) \<Rightarrow>
          (out, st\<lparr>recovered_packets := rs,
                   packet_counter := (packet_counter st)\<lparr>num_recovered_packets :=
                     num_recovered_packets (packet_counter st) + n\<rparr>\<rparr>))"

text \<open>
  The loop of \<^verbatim>\<open>ProcessReceivedFec\<close>.  The test on the number of recovered packets stands inside the
  loop, so that a packet after which nothing has been recovered ends it.
\<close>

fun process_received ::
  "gf_op \<Rightarrow> gf_op \<Rightarrow> received_red_packet list \<Rightarrow> extension_map option \<Rightarrow> nat \<Rightarrow> rs_fec \<Rightarrow> fec_receiver
     \<Rightarrow> (rtp_packet_received list \<times> rs_fec \<times> fec_receiver) result option" where
  "process_received g gd [] ids num fec st = Some (Inr ([], fec, st))"
| "process_received g gd (r # rs) ids num fec st =
     (case deliver_media r of
        None \<Rightarrow> process_received g gd rs ids num fec st
      | Some (out, r) \<Rightarrow>
          (case (if is_recovered r then Some (Inr (fec, recovered_packets st, 0))
                 else DecodeRSFec g gd (received_packet.truncate r) fec (recovered_packets st)) of
             None \<Rightarrow> None
           | Some (Inl e) \<Rightarrow> Some (Inl e)
           | Some (Inr (fec, rec, n)) \<Rightarrow>
               let ids = (if is_recovered r then ids else Some (rcv_extensions r));
                   num = num + n;
                   st = st\<lparr>recovered_packets := rec\<rparr>
               in if num = 0 then Some (Inr (out, fec, st))
                  else
                    (case send_recovered ids st of
                       (out', st) \<Rightarrow>
                         (case process_received g gd rs ids num fec st of
                            None \<Rightarrow> None
                          | Some (Inl e) \<Rightarrow> Some (Inl e)
                          | Some (Inr (out'', fec, st)) \<Rightarrow> Some (Inr (out @ out' @ out'', fec, st))))))"

definition ProcessReceivedFec ::
  "gf_op \<Rightarrow> gf_op \<Rightarrow> rs_fec \<Rightarrow> fec_receiver
     \<Rightarrow> (rtp_packet_received list \<times> rs_fec \<times> fec_receiver) result option" where
  "ProcessReceivedFec g gd fec st =
     process_received g gd (received_packets st) None 0 fec (st\<lparr>received_packets := []\<rparr>)"

end
