(* ===== verification/Ulp_Transport.thy ===== *)
theory Ulp_Transport
  imports Ulp_Decoder Fec_Generator Fec_Receiver
begin

text \<open>
  \<^verbatim>\<open>UlpFEC/ulpfec_generator.cc\<close> and \<^verbatim>\<open>UlpFEC/ulpfec_receiver.cc\<close>: the block generator over the XOR encoder,
  and the receiver whose loop, unlike that of \<^verbatim>\<open>RSfec_receiver.cc\<close>, feeds every packet to the decoder
  before it delivers what has been recovered.
\<close>

definition ulp_encode ::
  "unit \<Rightarrow> byte list list \<Rightarrow> fec_protection_params \<Rightarrow> (unit \<times> byte list list) result" where
  "ulp_encode u media p =
     (case EncodeFec media (word_of_int (fec_rate p)) 0 False (fec_mask_type p) of
        Inl e \<Rightarrow> Inl e
      | Inr (ret, fecs) \<Rightarrow> Inr ((), fecs))"

definition UlpAddPacketAndGenerateFec ::
  "rtp_packet_to_send \<Rightarrow> fec_generator \<Rightarrow> (unit \<times> fec_generator) result" where
  "UlpAddPacketAndGenerateFec packet st =
     add_packet_and_generate kUlpfecMaxMediaPackets NumFecPackets ulp_encode packet () st"

text \<open>The rest of the generator and the unwrapping are the code of the Reed-Solomon classes.\<close>

definition UlpGetFecPackets :: "fec_generator \<Rightarrow> (rtp_packet_to_send list \<times> fec_generator) result" where
  "UlpGetFecPackets = GetFecPackets"

definition UlpAddReceivedRedPacket :: "int \<Rightarrow> rtp_packet_received \<Rightarrow> fec_receiver \<Rightarrow> bool \<times> fec_receiver" where
  "UlpAddReceivedRedPacket = AddReceivedRedPacket"

fun ulp_process_received ::
  "received_red_packet list \<Rightarrow> extension_map option \<Rightarrow> nat \<Rightarrow> ulp_fec \<Rightarrow> recovered_packet list
     \<Rightarrow> (rtp_packet_received list \<times> extension_map option \<times> nat \<times> ulp_fec \<times> recovered_packet list) result" where
  "ulp_process_received [] ids num fec rec = Inr ([], ids, num, fec, rec)"
| "ulp_process_received (r # rs) ids num fec rec =
     (case deliver_media r of
        None \<Rightarrow> ulp_process_received rs ids num fec rec
      | Some (out, r) \<Rightarrow>
          (case (if is_recovered r then Inr (ids, num, fec, rec)
                 else case DecodeFec (received_packet.truncate r) fec rec of
                        Inl e \<Rightarrow> Inl e
                      | Inr (fec, rec, n) \<Rightarrow> Inr (Some (rcv_extensions r), num + n, fec, rec)) of
             Inl e \<Rightarrow> Inl e
           | Inr (ids, num, fec, rec) \<Rightarrow>
               (case ulp_process_received rs ids num fec rec of
                  Inl e \<Rightarrow> Inl e
                | Inr (out', s) \<Rightarrow> Inr (out @ out', s))))"

definition UlpProcessReceivedFec ::
  "ulp_fec \<Rightarrow> fec_receiver \<Rightarrow> (rtp_packet_received list \<times> ulp_fec \<times> fec_receiver) result" where
  "UlpProcessReceivedFec fec st =
     (case ulp_process_received (received_packets st) None 0 fec (recovered_packets st) of
        Inl e \<Rightarrow> Inl e
      | Inr (out, ids, num, fec, rec) \<Rightarrow>
          let st = st\<lparr>received_packets := [], recovered_packets := rec\<rparr>
          in if num = 0 then Inr (out, fec, st)
             else case send_recovered ids st of (out', st) \<Rightarrow> Inr (out @ out', fec, st))"

end
