(* ===== verification/Ulp_Columns.thy ===== *)
theory Ulp_Columns
  imports Ulp_Encoder
begin

text \<open>
  The columns of the packet masks: \<^verbatim>\<open>InsertZerosInPacketMasks\<close> moves the column of every packet to the
  distance of its sequence number from the first, shifting bytes bit by bit; the result is the mask
  array in which every other column is zero.
\<close>

definition mask_bit :: "nat \<Rightarrow> byte list \<Rightarrow> nat \<Rightarrow> nat \<Rightarrow> bool" where
  "mask_bit bytes masks row col \<longleftrightarrow> bit (at2 bytes masks row (col div 8)) (7 - col mod 8)"

subsection \<open>Columns under construction\<close>

text \<open>
  After \<open>n\<close> columns, complete bytes hold their columns from the highest bit down; in the last byte the
  columns so far stand above a free lowest bit.
\<close>

definition cols_byte :: "(nat \<Rightarrow> bool) \<Rightarrow> nat \<Rightarrow> nat \<Rightarrow> nat \<Rightarrow> bool" where
  "cols_byte c n b t \<longleftrightarrow> t < 8 \<and>
     (if b < n div 8 then c (8 * b + (7 - t))
      else b = n div 8 \<and> 1 \<le> t \<and> t \<le> n mod 8 \<and> c (8 * b + (n mod 8 - t)))"

definition cols_inv :: "nat \<Rightarrow> nat \<Rightarrow> (nat \<Rightarrow> nat \<Rightarrow> bool) \<Rightarrow> nat \<Rightarrow> byte list \<Rightarrow> bool" where
  "cols_inv rows bytes C n m \<longleftrightarrow> rows * bytes \<le> length m \<and> (\<forall>i < rows. \<forall>k. n \<le> k \<longrightarrow> \<not> C i k) \<and>
     (\<forall>i < rows. \<forall>b < bytes. \<forall>t. bit (at2 bytes m i b) t \<longleftrightarrow> cols_byte (C i) n b t)"

lemma bit_push_byte: "bit (push_bit s x :: byte) t \<longleftrightarrow> s \<le> t \<and> t < 8 \<and> bit x (t - s)"
  unfolding bit_push_bit_iff by (auto simp: possible_bit_def)

lemma cols_byte_add:
  fixes v :: bool
  assumes "\<And>t. bit x t \<longleftrightarrow> cols_byte c n (n div 8) t" "\<forall>k \<ge> n. \<not> c k"
  defines "y \<equiv> x OR (if v then 1 else 0)"
  shows "bit (if n mod 8 \<noteq> 7 then push_bit 1 y else y :: byte) t \<longleftrightarrow> cols_byte (c(n := v)) (Suc n) (n div 8) t"
proof -
  define b r where "b = n div 8" and "r = n mod 8"
  have n: "n = 8 * b + r" "r < 8" by (simp_all add: b_def r_def)
  have x: "bit x t \<longleftrightarrow> 1 \<le> t \<and> t \<le> r \<and> c (8 * b + (r - t))" for t
    using assms(1) [of t] n(2) by (auto simp: cols_byte_def b_def [symmetric] r_def [symmetric])
  have y: "bit y t \<longleftrightarrow> (if t = 0 then v else bit x t)" for t
    using x [of 0] by (auto simp: y_def bit_or_iff bit_1_iff)
  show ?thesis
  proof (cases "r = 7")
    case True
    hence "Suc n div 8 = Suc b" "Suc n mod 8 = 0" using n by auto
    thus ?thesis using True y x [of t] n by (auto simp: cols_byte_def b_def [symmetric] r_def [symmetric])
  next
    case False
    hence s: "Suc n div 8 = b" "Suc n mod 8 = Suc r" using n by (auto simp: div_nat_eqI)
    have "bit (push_bit 1 y) t \<longleftrightarrow> t < 8 \<and> 1 \<le> t \<and> bit y (t - 1)" unfolding bit_push_byte by auto
    thus ?thesis using False s y x [of "t - 1"] n
      by (auto simp: cols_byte_def b_def [symmetric] r_def [symmetric] Suc_diff_le)
  qed
qed

lemma split8: "k < 8 \<Longrightarrow> (8 * b + k) div 8 = (b :: nat) \<and> (8 * b + k) mod 8 = k"
  by simp

lemma cols_byte_zeros:
  assumes "\<And>t. bit x t \<longleftrightarrow> cols_byte c n (n div 8) t" "\<forall>k \<ge> n. \<not> c k"
  shows "bit (push_bit (min z (7 - n mod 8)) x :: byte) t \<longleftrightarrow> cols_byte c (n + z) (n div 8) t"
proof -
  define b r where "b = n div 8" and "r = n mod 8"
  have n: "n = 8 * b + r" "r < 8" by (simp_all add: b_def r_def)
  have x: "bit x t \<longleftrightarrow> 1 \<le> t \<and> t \<le> r \<and> c (8 * b + (r - t))" for t
    using assms(1) [of t] n(2) by (auto simp: cols_byte_def b_def [symmetric] r_def [symmetric])
  show ?thesis
  proof (cases "z \<le> 7 - r")
    case True
    hence "r + z < 8" "n + z = 8 * b + (r + z)" using n by simp_all
    hence s: "(n + z) div 8 = b" "(n + z) mod 8 = r + z" by (metis split8)+
    have "c (8 * b + (r + z - t)) \<Longrightarrow> \<not> n \<le> 8 * b + (r + z - t)" using assms(2) by blast
    hence "c (8 * b + (r + z - t)) \<Longrightarrow> \<not> t \<le> z" using n(1) by linarith
    thus ?thesis using True x [of "t - z"] n(2)
      unfolding bit_push_byte cols_byte_def b_def [symmetric] r_def [symmetric] s by (auto simp: min_def)
  next
    case False
    hence s: "b < (n + z) div 8" using n by (simp add: less_eq_div_iff_mult_less_eq Suc_le_eq [symmetric])
    have "c (8 * b + (7 - t)) \<Longrightarrow> \<not> 8 * b + r \<le> 8 * b + (7 - t)" using assms(2) n by auto
    thus ?thesis using False s x [of "t - (7 - r)"] n(2)
      unfolding bit_push_byte cols_byte_def b_def [symmetric] r_def [symmetric] by (auto simp: min_def)
  qed
qed

lemma cols_byte_other:
  assumes "b \<noteq> n div 8" "\<forall>k \<ge> n. \<not> c k" "n \<le> m" "\<And>k. c' k \<longleftrightarrow> c k \<or> k = n \<and> v"
  shows "cols_byte c n b t \<longleftrightarrow> cols_byte c' m b t"
proof (cases "b < n div 8")
  case True
  moreover have "n div 8 \<le> m div 8" using assms(3) by (rule div_le_mono)
  ultimately show ?thesis using assms(4) by (auto simp: cols_byte_def)
next
  case False
  hence "n div 8 < b" using assms(1) by simp
  hence "n < 8 * b" by (simp add: less_mult_imp_div_less mult.commute div_less_iff_less_mult)
  thus ?thesis using assms False by (auto simp: cols_byte_def)
qed

lemma cols_byte_final:
  assumes "\<And>t. bit x t \<longleftrightarrow> cols_byte c n (n div 8) t" "\<forall>k \<ge> n. \<not> c k"
  shows "bit (push_bit (7 - n mod 8) x :: byte) t \<longleftrightarrow> t < 8 \<and> c (8 * (n div 8) + (7 - t))"
proof -
  have "n div 8 < (n + 8) div 8" by simp
  moreover have "min 8 (7 - n mod 8) = 7 - n mod 8" by simp
  ultimately show ?thesis using cols_byte_zeros [OF assms, of 8 t] by (simp add: cols_byte_def)
qed

subsection \<open>One byte in every row\<close>

definition each_row :: "nat \<Rightarrow> nat \<Rightarrow> nat \<Rightarrow> (nat \<Rightarrow> byte \<Rightarrow> byte) \<Rightarrow> byte list \<Rightarrow> byte list" where
  "each_row rows bytes b f m =
     fold (\<lambda>row m. m[row * bytes + b := f row (m ! (row * bytes + b))]) [0..<rows] m"

lemma each_row_Suc:
  "each_row (Suc rows) bytes b f m =
     (let m' = each_row rows bytes b f m in m'[rows * bytes + b := f rows (m' ! (rows * bytes + b))])"
  by (simp add: each_row_def Let_def)

lemma length_each_row [simp]: "length (each_row rows bytes b f m) = length m"
  by (induction rows) (simp_all add: each_row_Suc Let_def, simp add: each_row_def)

lemma at2_each_row:
  assumes "rows * bytes \<le> length m" "b < bytes" "j < bytes"
  shows "at2 bytes (each_row rows bytes b f m) i j =
           (if i < rows \<and> j = b then f i (at2 bytes m i j) else at2 bytes m i j)"
  using assms(1)
proof (induction rows arbitrary: i)
  case 0
  show ?case by (simp add: each_row_def)
next
  case (Suc rows)
  let ?m = "each_row rows bytes b f m"
  have len: "rows * bytes + b < length m" using Suc.prems index2_less [of rows "Suc rows" b bytes] assms(2) by simp
  have ih: "at2 bytes ?m i j = (if i < rows \<and> j = b then f i (at2 bytes m i j) else at2 bytes m i j)" for i
    using Suc by simp
  show ?case
  proof (cases "i = rows \<and> j = b")
    case True
    thus ?thesis using len ih [of rows] by (simp add: each_row_Suc Let_def at2_def)
  next
    case False
    hence "i * bytes + j \<noteq> rows * bytes + b" using index2_inj [of j bytes b i rows] assms by blast
    hence "at2 bytes (each_row (Suc rows) bytes b f m) i j = at2 bytes ?m i j"
      by (auto simp: each_row_Suc Let_def at2_def)
    thus ?thesis using ih [of i] False by auto
  qed
qed

lemma InsertZeroColumns_rows:
  "InsertZeroColumns z m bytes rows n = each_row rows bytes (n div 8) (\<lambda>_. push_bit (min z (7 - n mod 8))) m"
  by (simp add: InsertZeroColumns_def each_row_def Let_def)

definition add_column :: "nat \<Rightarrow> byte \<Rightarrow> byte \<Rightarrow> byte" where
  "add_column n old x =
     (let y = x OR drop_bit 7 (old AND 0x80) in if n mod 8 \<noteq> 7 then push_bit 1 y else y)"

definition copy_row :: "nat \<Rightarrow> nat \<Rightarrow> nat \<Rightarrow> nat \<Rightarrow> nat \<Rightarrow> byte list \<times> byte list \<Rightarrow> byte list \<times> byte list" where
  "copy_row bytes obytes n k row = (\<lambda>(new_mask, old_mask).
     (new_mask[row * bytes + n div 8 := add_column n (old_mask ! (row * obytes + k div 8)) (new_mask ! (row * bytes + n div 8))],
      old_mask[row * obytes + k div 8 := push_bit 1 (old_mask ! (row * obytes + k div 8))]))"

lemma copy_row_pair: "copy_row bytes obytes n k row (new_mask, old_mask) =
     (new_mask[row * bytes + n div 8 := add_column n (old_mask ! (row * obytes + k div 8)) (new_mask ! (row * bytes + n div 8))],
      old_mask[row * obytes + k div 8 := push_bit 1 (old_mask ! (row * obytes + k div 8))])"
  by (simp only: copy_row_def prod.case)

lemma copy_rows:
  assumes "rows * obytes \<le> length old" "k div 8 < obytes"
  shows "fold (copy_row bytes obytes n k) [0..<rows] (m, old) =
     (each_row rows bytes (n div 8) (\<lambda>row. add_column n (at2 obytes old row (k div 8))) m,
      each_row rows obytes (k div 8) (\<lambda>_. push_bit 1) old)"
  using assms(1)
proof (induction rows)
  case 0
  show ?case by (simp add: each_row_def)
next
  case (Suc r)
  hence "at2 obytes (each_row r obytes (k div 8) (\<lambda>_. push_bit 1) old) r (k div 8) = at2 obytes old r (k div 8)"
    using assms(2) by (subst at2_each_row) simp_all
  hence "each_row r obytes (k div 8) (\<lambda>_. push_bit 1) old ! (r * obytes + k div 8) = at2 obytes old r (k div 8)"
    by (simp add: at2_def)
  moreover have "r * obytes \<le> length old" using Suc.prems by simp
  ultimately show ?case
    by (simp only: upt_Suc_append le0 fold_append comp_apply Suc.IH fold.simps id_apply copy_row_pair
        each_row_Suc Let_def)
qed

lemma CopyColumn_rows:
  assumes "n < 8 * bytes" "rows * obytes \<le> length old" "k div 8 < obytes"
  shows "CopyColumn m bytes old obytes rows n k =
     Inr (each_row rows bytes (n div 8) (\<lambda>row. add_column n (at2 obytes old row (k div 8))) m,
          each_row rows obytes (k div 8) (\<lambda>_. push_bit 1) old)"
proof -
  have "copy_row bytes obytes n k = (\<lambda>row. copy_row bytes obytes n k row)" ..
  hence "CopyColumn m bytes old obytes rows n k = Inr (fold (copy_row bytes obytes n k) [0..<rows] (m, old))"
    using assms(1) by (simp only: CopyColumn_def copy_row_def add_column_def Let_def linorder_not_less [symmetric]
        not_True_eq_False if_False)
  thus ?thesis using copy_rows assms by simp
qed

subsection \<open>The invariant of the loop\<close>

lemma cols_inv_zeros:
  assumes inv: "cols_inv rows bytes C n m" and n: "n < 8 * bytes"
  shows "cols_inv rows bytes C (n + z) (InsertZeroColumns z m bytes rows n)"
proof -
  have b: "n div 8 < bytes" using n by (simp add: less_mult_imp_div_less mult.commute)
  have i: "rows * bytes \<le> length m" "\<And>i k. i < rows \<Longrightarrow> n \<le> k \<Longrightarrow> \<not> C i k"
    "\<And>i b t. i < rows \<Longrightarrow> b < bytes \<Longrightarrow> bit (at2 bytes m i b) t \<longleftrightarrow> cols_byte (C i) n b t"
    using inv by (auto simp: cols_inv_def)
  have "bit (at2 bytes (InsertZeroColumns z m bytes rows n) r j) t \<longleftrightarrow> cols_byte (C r) (n + z) j t"
    if rj: "r < rows" "j < bytes" for r j t
  proof (cases "j = n div 8")
    case True
    thus ?thesis using rj i b cols_byte_zeros [of "at2 bytes m r j" "C r" n z t]
      by (simp add: InsertZeroColumns_rows at2_each_row)
  next
    case False
    thus ?thesis using rj i b cols_byte_other [of j n "C r" "n + z" "C r" False t]
      by (simp add: InsertZeroColumns_rows at2_each_row)
  qed
  thus ?thesis using i by (auto simp: cols_inv_def InsertZeroColumns_rows)
qed

lemma bit_0x80: "bit (0x80 :: byte) t \<longleftrightarrow> t = 7"
proof -
  have "(0x80 :: byte) = push_bit 7 1" by simp
  thus ?thesis by (simp only: bit_push_byte) (auto simp: bit_1_iff)
qed

lemma add_column_or: "add_column n old x = (let y = x OR (if bit old 7 then 1 else 0) in if n mod 8 \<noteq> 7 then push_bit 1 y else y)"
proof -
  have "drop_bit 7 (old AND 0x80) = (if bit old 7 then 1 else 0)"
  proof (rule bit_word_eqI)
    fix t assume "t < LENGTH(8)"
    show "bit (drop_bit 7 (old AND 0x80)) t = bit (if bit old 7 then 1 else 0 :: byte) t"
      by (cases "t = 0") (simp_all add: bit_drop_bit_eq bit_and_iff bit_1_iff bit_0x80)
  qed
  thus ?thesis by (simp add: add_column_def)
qed

lemma cols_byte_add_column:
  assumes "\<And>t. bit x t \<longleftrightarrow> cols_byte c n (n div 8) t" "\<forall>k \<ge> n. \<not> c k"
  shows "bit (add_column n old x) t \<longleftrightarrow> cols_byte (c(n := bit old 7)) (Suc n) (n div 8) t"
  unfolding add_column_or Let_def using assms by (rule cols_byte_add)

lemma cols_inv_add:
  assumes inv: "cols_inv rows bytes C n m" and n: "n < 8 * bytes"
  shows "cols_inv rows bytes (\<lambda>i. (C i)(n := bit (v i) 7)) (Suc n) (each_row rows bytes (n div 8) (\<lambda>row. add_column n (v row)) m)"
proof -
  let ?m = "each_row rows bytes (n div 8) (\<lambda>row. add_column n (v row)) m"
  have b: "n div 8 < bytes" using n by (simp add: less_mult_imp_div_less mult.commute)
  have i: "rows * bytes \<le> length m" "\<And>i k. i < rows \<Longrightarrow> n \<le> k \<Longrightarrow> \<not> C i k"
    "\<And>i b t. i < rows \<Longrightarrow> b < bytes \<Longrightarrow> bit (at2 bytes m i b) t \<longleftrightarrow> cols_byte (C i) n b t"
    using inv by (auto simp: cols_inv_def)
  have "bit (at2 bytes ?m r j) t \<longleftrightarrow> cols_byte ((C r)(n := bit (v r) 7)) (Suc n) j t"
    if rj: "r < rows" "j < bytes" for r j t
  proof (cases "j = n div 8")
    case True
    thus ?thesis using rj i b cols_byte_add_column [of "at2 bytes m r j" "C r" n "v r" t]
      by (simp add: at2_each_row)
  next
    case False
    thus ?thesis using rj i b cols_byte_other [of j n "C r" "Suc n" "(C r)(n := bit (v r) 7)" "bit (v r) 7" t]
      by (auto simp: at2_each_row)
  qed
  thus ?thesis using i by (auto simp: cols_inv_def)
qed

lemma cols_inv_final:
  assumes inv: "cols_inv rows bytes C n m" and n: "n \<le> 8 * bytes" and r: "r < rows" and k: "k < 8 * bytes"
  shows "mask_bit bytes (shift_last bytes rows n m) r k \<longleftrightarrow> C r k"
proof -
  have kb: "k div 8 < bytes" using k by (simp add: less_mult_imp_div_less mult.commute)
  have i: "rows * bytes \<le> length m" "\<And>k. n \<le> k \<Longrightarrow> \<not> C r k"
    "\<And>b t. b < bytes \<Longrightarrow> bit (at2 bytes m r b) t \<longleftrightarrow> cols_byte (C r) n b t"
    using inv r by (auto simp: cols_inv_def)
  have s: "shift_last bytes rows n m =
      (if n mod 8 \<noteq> 0 then each_row rows bytes (n div 8) (\<lambda>_. push_bit (7 - n mod 8)) m else m)"
    by (simp add: shift_last_def each_row_def Let_def)
  have k8: "8 * (k div 8) + (7 - (7 - k mod 8)) = k" "7 - k mod 8 < 8" by (simp_all add: diff_diff_cancel)
  show ?thesis
  proof (cases "n mod 8 \<noteq> 0 \<and> k div 8 = n div 8")
    case True
    hence "n div 8 < bytes" using kb by simp
    thus ?thesis using True s r i k8 cols_byte_final [of "at2 bytes m r (k div 8)" "C r" n "7 - k mod 8"]
      by (simp add: mask_bit_def at2_each_row)
  next
    case False
    have "n mod 8 \<noteq> 0 \<Longrightarrow> n div 8 < bytes"
      using n by (metis div_less_iff_less_mult le_neq_implies_less mod_mult_self1_is_0 mult.commute zero_less_numeral)
    hence "mask_bit bytes (shift_last bytes rows n m) r k \<longleftrightarrow> cols_byte (C r) n (k div 8) (7 - k mod 8)"
      using False i kb r by (auto simp: mask_bit_def s at2_each_row)
    also have "\<dots> \<longleftrightarrow> C r k"
    proof (cases "k div 8 < n div 8")
      case True
      thus ?thesis using k8 by (simp add: cols_byte_def)
    next
      case f: False
      hence "n \<le> k" using False by (metis div_le_mono div_mult_mod_eq le_antisym leI less_or_eq_imp_le mult.commute add_0_right nat_le_linear times_div_less_eq_dividend)
      thus ?thesis using i(2) f False by (auto simp: cols_byte_def)
    qed
    finally show ?thesis .
  qed
qed

subsection \<open>The whole loop\<close>

text \<open>The columns of the old masks that remain to be copied: the current byte has been shifted to its column.\<close>

definition old_at :: "nat \<Rightarrow> nat \<Rightarrow> byte list \<Rightarrow> nat \<Rightarrow> byte list \<Rightarrow> bool" where
  "old_at rows bytes old0 k old \<longleftrightarrow> rows * bytes \<le> length old \<and>
     (\<forall>i < rows. \<forall>j < bytes. (k div 8 < j \<longrightarrow> at2 bytes old i j = at2 bytes old0 i j) \<and>
        (j = k div 8 \<longrightarrow> at2 bytes old i j = push_bit (k mod 8) (at2 bytes old0 i j)))"

lemma old_at_bit:
  assumes "old_at rows bytes old0 k old" "i < rows" "k < 8 * bytes"
  shows "bit (at2 bytes old i (k div 8)) 7 \<longleftrightarrow> mask_bit bytes old0 i k"
proof -
  have "k div 8 < bytes" using assms(3) by (simp add: less_mult_imp_div_less mult.commute)
  hence "at2 bytes old i (k div 8) = push_bit (k mod 8) (at2 bytes old0 i (k div 8))"
    using assms(1,2) by (simp add: old_at_def)
  moreover have "k mod 8 \<le> 7" using mod_less_divisor [of 8 k] by linarith
  ultimately show ?thesis by (simp add: mask_bit_def bit_push_byte)
qed

lemma old_at_step:
  assumes "old_at rows bytes old0 k old" "k < 8 * bytes"
  shows "old_at rows bytes old0 (Suc k) (each_row rows bytes (k div 8) (\<lambda>_. push_bit 1) old)"
proof -
  have b: "k div 8 < bytes" using assms(2) by (simp add: less_mult_imp_div_less mult.commute)
  have l: "rows * bytes \<le> length old" using assms(1) by (simp add: old_at_def)
  have s: "Suc k div 8 = k div 8 \<and> Suc k mod 8 = Suc (k mod 8) \<or> Suc k div 8 = Suc (k div 8) \<and> Suc k mod 8 = 0"
    by (auto simp: div_Suc mod_Suc)
  show ?thesis unfolding old_at_def
  proof (intro conjI allI impI)
    show "rows * bytes \<le> length (each_row rows bytes (k div 8) (\<lambda>_. push_bit 1) old)" using l by simp
    fix i j assume ij: "i < rows" "j < bytes"
    have at: "at2 bytes (each_row rows bytes (k div 8) (\<lambda>_. push_bit 1) old) i j =
        (if j = k div 8 then push_bit 1 (at2 bytes old i j) else at2 bytes old i j)"
      using at2_each_row [OF l b ij(2)] ij(1) by (simp only: simp_thms)
    show "Suc k div 8 < j \<Longrightarrow> at2 bytes (each_row rows bytes (k div 8) (\<lambda>_. push_bit 1) old) i j = at2 bytes old0 i j"
      using assms(1) ij s unfolding at by (auto simp: old_at_def)
    show "j = Suc k div 8 \<Longrightarrow> at2 bytes (each_row rows bytes (k div 8) (\<lambda>_. push_bit 1) old) i j =
        push_bit (Suc k mod 8) (at2 bytes old0 i j)"
    proof -
      assume j: "j = Suc k div 8"
      show ?thesis
      proof (cases "Suc k mod 8 = 0")
        case True
        hence "k div 8 < j" using s j by auto
        thus ?thesis using assms(1) ij True unfolding at by (auto simp: old_at_def)
      next
        case False
        hence e: "j = k div 8" "Suc k mod 8 = Suc (k mod 8)" using s j by auto
        hence "at2 bytes old i j = push_bit (k mod 8) (at2 bytes old0 i j)"
          using assms(1) ij by (simp add: old_at_def)
        thus ?thesis unfolding at e(2) using e(1) by (simp only: refl if_True push_bit_push_bit plus_1_eq_Suc)
      qed
    qed
  qed
qed

definition seq_off :: "u16 \<Rightarrow> byte list \<Rightarrow> nat" where
  "seq_off base p = unat (ParseSequenceNumber p - base)"

text \<open>The reference: the column of packet \<open>k\<close> goes to its distance from the first packet.\<close>

fun place_columns :: "u16 \<Rightarrow> (nat \<Rightarrow> nat \<Rightarrow> bool) \<Rightarrow> byte list list \<Rightarrow> nat \<Rightarrow> (nat \<Rightarrow> nat \<Rightarrow> bool) \<Rightarrow> nat \<Rightarrow> nat \<Rightarrow> bool" where
  "place_columns base B [] k C = C"
| "place_columns base B (p # ps) k C =
     place_columns base B ps (Suc k) (\<lambda>i. (C i)(seq_off base p := B i k))"

lemma place_columns_other:
  "c \<notin> seq_off base ` set ps \<Longrightarrow> place_columns base B ps k C i c = C i c"
  by (induction ps arbitrary: k C) auto

lemma place_columns_nth:
  "distinct (map (seq_off base) ps) \<Longrightarrow> j < length ps \<Longrightarrow>
     place_columns base B ps k C i (seq_off base (ps ! j)) = B i (k + j)"
proof (induction ps arbitrary: k C j)
  case (Cons p ps)
  show ?case
  proof (cases j)
    case 0
    thus ?thesis using Cons.prems by (simp add: place_columns_other)
  next
    case (Suc j')
    thus ?thesis using Cons.prems Cons.IH [of j' "Suc k"] by simp
  qed
qed simp

lemma gap_zeros:
  fixes prev base :: u16
  assumes "prev - base + 1 = of_nat n" "n \<le> seq_off base p"
  shows "unat (ParseSequenceNumber p - prev - 1) = seq_off base p - n"
proof -
  have "ParseSequenceNumber p - prev - 1 = (ParseSequenceNumber p - base) - (prev - base + 1)" by simp
  also have "\<dots> = of_nat (seq_off base p) - of_nat n" by (simp add: assms(1) seq_off_def)
  also have "\<dots> = of_nat (seq_off base p - n)" using assms(2) by simp
  finally have "unat (ParseSequenceNumber p - prev - 1) = (seq_off base p - n) mod 2 ^ 16" by (simp add: unat_of_nat)
  moreover have "seq_off base p < 2 ^ 16"
    using unsigned_less [of "ParseSequenceNumber p - base"] by (simp add: seq_off_def)
  ultimately show ?thesis by simp
qed

lemma insert_zeros_cols:
  assumes "cols_inv rows bytes C n new" "old_at rows obytes old0 k old" "prev - base + 1 = of_nat n"
    "sorted_wrt (<) (n # map (\<lambda>p. Suc (seq_off base p)) ps)"
    "\<And>p. p \<in> set ps \<Longrightarrow> seq_off base p < 8 * bytes \<and> seq_off base p < 48"
    "k + length ps \<le> 8 * obytes"
  shows "\<exists>m. insert_zeros ps prev n k bytes obytes rows (new, old) = Inr (last (n # map (\<lambda>p. Suc (seq_off base p)) ps), m) \<and>
     length m = length new \<and>
     cols_inv rows bytes (place_columns base (mask_bit obytes old0) ps k C) (last (n # map (\<lambda>p. Suc (seq_off base p)) ps)) m"
  using assms
proof (induction ps arbitrary: C n new k old prev)
  case (Cons p ps)
  let ?o = "seq_off base p" and ?z = "unat (ParseSequenceNumber p - prev - 1)"
  have o: "n \<le> ?o" "?o < 8 * bytes" "?o < 48" "k < 8 * obytes" using Cons.prems by auto
  have z: "?z = ?o - n" using Cons.prems(3) o(1) by (rule gap_zeros)
  define new1 where "new1 = (if ?z > 0 then InsertZeroColumns ?z new bytes rows n else new)"
  have inv1: "cols_inv rows bytes C ?o new1"
    using cols_inv_zeros [OF Cons.prems(1), of ?z] o Cons.prems(1) z by (auto simp: new1_def)
  have old: "rows * obytes \<le> length old" "k div 8 < obytes"
    using Cons.prems(2) o(4) by (auto simp: old_at_def less_mult_imp_div_less mult.commute)
  define new2 where "new2 = each_row rows bytes (?o div 8) (\<lambda>row. add_column ?o (at2 obytes old row (k div 8))) new1"
  define old2 where "old2 = each_row rows obytes (k div 8) (\<lambda>_. push_bit 1) old"
  have copy: "CopyColumn new1 bytes old obytes rows ?o k = Inr (new2, old2)"
    unfolding new2_def old2_def using o(2) old by (rule CopyColumn_rows)
  have "cols_inv rows bytes (\<lambda>i. (C i)(?o := bit (at2 obytes old i (k div 8)) 7)) (Suc ?o) new2"
    unfolding new2_def using inv1 o(2) by (rule cols_inv_add)
  hence inv2: "cols_inv rows bytes (\<lambda>i. (C i)(?o := mask_bit obytes old0 i k)) (Suc ?o) new2"
    using old_at_bit [OF Cons.prems(2) _ o(4)] by (auto simp: cols_inv_def)
  have oinv: "old_at rows obytes old0 (Suc k) old2"
    unfolding old2_def using Cons.prems(2) o(4) by (rule old_at_step)
  have base: "ParseSequenceNumber p - base + 1 = of_nat (Suc ?o)" by (simp add: seq_off_def)
  have len: "length new2 = length new" by (simp add: new2_def new1_def InsertZeroColumns_rows)
  have "n + ?z = ?o" "n \<noteq> 48" using o z by simp_all
  hence "insert_zeros (p # ps) prev n k bytes obytes rows (new, old) =
      insert_zeros ps (ParseSequenceNumber p) (Suc ?o) (Suc k) bytes obytes rows (new2, old2)"
    by (simp only: insert_zeros.simps Let_def new1_def [symmetric] copy sum.case if_False Suc_eq_plus1)
  moreover have "last (n # map (\<lambda>p. Suc (seq_off base p)) (p # ps)) = last (Suc ?o # map (\<lambda>p. Suc (seq_off base p)) ps)"
    by simp
  moreover have "sorted_wrt (<) (Suc ?o # map (\<lambda>p. Suc (seq_off base p)) ps)" "Suc k + length ps \<le> 8 * obytes"
    using Cons.prems(4,6) by simp_all
  ultimately show ?case using Cons.IH [OF inv2 oinv base] Cons.prems(5) len
    by (simp only: place_columns.simps list.set_intros)
qed simp

lemma cols_inv_empty: "cols_inv rows bytes (\<lambda>_ _. False) 0 (replicate l 0)" if "rows * bytes \<le> l"
proof -
  have "i < rows \<Longrightarrow> b < bytes \<Longrightarrow> i * bytes + b < l" for i b using index2_less [of i rows b bytes] that by linarith
  thus ?thesis using that by (auto simp: cols_inv_def cols_byte_def at2_def)
qed

lemma old_at_initial: "rows * bytes \<le> length m \<Longrightarrow> old_at rows bytes m 0 m"
  by (simp add: old_at_def)

subsection \<open>The routine against the reference\<close>

definition seq_span :: "byte list list \<Rightarrow> nat" where
  "seq_span media = Suc (seq_off (ParseSequenceNumber (hd media)) (last media))"

definition rising_media :: "byte list list \<Rightarrow> bool" where
  "rising_media media \<longleftrightarrow> media \<noteq> [] \<and> sorted_wrt (<) (map (seq_off (ParseSequenceNumber (hd media))) media)"

lemma PacketMaskSize_bits: "n \<le> 48 \<Longrightarrow> n \<le> 8 * PacketMaskSize n" "PacketMaskSize n \<le> 6" "0 < PacketMaskSize n"
  by (auto simp: PacketMaskSize_def)

lemma strict_from_index:
  assumes "sorted_wrt (<) xs" "k < length xs" "last xs = length xs - 1"
  shows "xs ! k = (k :: nat)"
proof -
  have up: "i + xs ! k \<le> xs ! (k + i)" if "k + i < length xs" for k i
    using that
  proof (induction i)
    case (Suc i)
    have "xs ! (k + i) < xs ! (k + Suc i)" using Suc.prems by (intro sorted_wrt_nth_less [OF assms(1)]) simp_all
    thus ?case using Suc by simp
  qed simp
  have "k + xs ! 0 \<le> xs ! k" using up [of 0 k] assms(2) by simp
  moreover have "(length xs - 1 - k) + xs ! k \<le> xs ! (length xs - 1)"
    using up [of k "length xs - 1 - k"] assms(2) by simp
  moreover have "xs ! (length xs - 1) = length xs - 1" using assms(2,3) by (metis last_conv_nth length_0_conv not_less_zero)
  ultimately show ?thesis using assms(2) by linarith
qed

lemma seq_off_le_last:
  assumes "rising_media media" "p \<in> set media"
  shows "seq_off (ParseSequenceNumber (hd media)) p < seq_span media"
proof -
  let ?o = "seq_off (ParseSequenceNumber (hd media))"
  obtain k where k: "k < length media" "p = media ! k" using assms(2) by (auto simp: in_set_conv_nth)
  have "?o (media ! k) \<le> ?o (media ! (length media - 1))"
    using assms(1) k(1) sorted_wrt_nth_less [of "(<)" "map ?o media" k "length media - 1"]
    by (cases "k < length media - 1") (auto simp: rising_media_def le_less not_less intro: arg_cong)
  thus ?thesis using assms(1) k by (simp add: seq_span_def rising_media_def last_conv_nth)
qed

lemma insert_zeros_first:
  assumes r: "rising_media media" and l: "rows * mask_size \<le> length masks" "length media \<le> 8 * mask_size"
    and s: "seq_span media \<le> 48" and b: "rows * bytes \<le> kUlpMaskArraySize" "seq_span media \<le> 8 * bytes"
  defines "base \<equiv> ParseSequenceNumber (hd media)"
  shows "\<exists>ms m. CopyColumn (replicate kUlpMaskArraySize 0) bytes masks mask_size rows 0 0 = Inr ms \<and>
     insert_zeros (tl media) base 1 1 bytes mask_size rows ms = Inr (seq_span media, m) \<and> length m = kUlpMaskArraySize \<and>
     cols_inv rows bytes (place_columns base (mask_bit mask_size masks) media 0 (\<lambda>_ _. False)) (seq_span media) m"
proof -
  obtain p ps where m: "media = p # ps" using r by (cases media) (auto simp: rising_media_def)
  have o0: "seq_off base p = 0" by (simp add: seq_off_def base_def m)
  define new1 where "new1 = each_row rows bytes (0 div 8) (\<lambda>row. add_column 0 (at2 mask_size masks row (0 div 8))) (replicate kUlpMaskArraySize 0)"
  define old1 where "old1 = each_row rows mask_size (0 div 8) (\<lambda>_. push_bit 1) masks"
  have pos: "0 < 8 * bytes" "0 < 8 * mask_size" "0 div 8 < mask_size"
    using b(2) l(2) by (auto simp: seq_span_def m)
  have "CopyColumn (replicate kUlpMaskArraySize 0) bytes masks mask_size rows 0 0 = Inr (new1, old1)"
    unfolding new1_def old1_def using pos(1) l(1) pos(3) by (rule CopyColumn_rows)
  moreover have "cols_inv rows bytes (\<lambda>i. ((\<lambda>_. False))(0 := bit (at2 mask_size masks i (0 div 8)) 7)) (Suc 0) new1"
    unfolding new1_def using cols_inv_empty [OF b(1)] pos(1) by (rule cols_inv_add)
  hence "cols_inv rows bytes (\<lambda>i. ((\<lambda>_. False))(seq_off base p := mask_bit mask_size masks i 0)) 1 new1"
    using old_at_bit [OF old_at_initial [OF l(1)] _ pos(2)] o0 by (auto simp: cols_inv_def)
  moreover have "old_at rows mask_size masks 1 old1"
    unfolding old1_def using old_at_step [OF old_at_initial [OF l(1)] pos(2)] by simp
  moreover have "sorted_wrt (<) (1 # map (\<lambda>p. Suc (seq_off base p)) ps)"
    using r o0 by (auto simp: rising_media_def m base_def [unfolded m, simplified] sorted_wrt_map)
  moreover have "seq_off base q < 8 * bytes \<and> seq_off base q < 48" if "q \<in> set ps" for q
    using seq_off_le_last [OF r, of q] that s b(2) by (simp add: m base_def)
  moreover have "last (1 # map (\<lambda>p. Suc (seq_off base p)) ps) = seq_span media"
    using o0 by (auto simp: seq_span_def m base_def last_map)
  moreover have "length new1 = kUlpMaskArraySize" by (simp add: new1_def)
  ultimately show ?thesis
    using insert_zeros_cols [of rows bytes _ 1 new1 mask_size masks 1 old1 base base ps] l(2) by (auto simp: m)
qed

lemma rising_consecutive:
  assumes r: "rising_media media" and s: "seq_span media = length media" and k: "k < length media"
  shows "seq_off (ParseSequenceNumber (hd media)) (media ! k) = k"
proof -
  let ?o = "seq_off (ParseSequenceNumber (hd media))"
  have "last (map ?o media) = length media - 1" using r s by (auto simp: seq_span_def rising_media_def last_map)
  thus ?thesis using strict_from_index [of "map ?o media" k] r k by (simp add: rising_media_def)
qed

definition moved_columns :: "nat \<Rightarrow> byte list list \<Rightarrow> byte list \<Rightarrow> byte list \<Rightarrow> bool" where
  "moved_columns rows media masks masks' \<longleftrightarrow>
     (\<forall>i < rows. \<forall>c < 8 * PacketMaskSize (seq_span media).
        mask_bit (PacketMaskSize (seq_span media)) masks' i c \<longleftrightarrow>
        (\<exists>k < length media. seq_off (ParseSequenceNumber (hd media)) (media ! k) = c \<and>
           mask_bit (PacketMaskSize (length media)) masks i k))"

definition clean_masks :: "nat \<Rightarrow> nat \<Rightarrow> byte list \<Rightarrow> bool" where
  "clean_masks rows n masks \<longleftrightarrow> length masks = kUlpMaskArraySize \<and>
     (\<forall>i < rows. \<forall>c < 8 * PacketMaskSize n. mask_bit (PacketMaskSize n) masks i c \<longrightarrow> c < n)"

lemma rows_fit: "rows \<le> 48 \<Longrightarrow> rows * PacketMaskSize n \<le> kUlpMaskArraySize"
  using mult_le_mono [of rows 48 "PacketMaskSize n" 6] PacketMaskSize_bits(2) by simp

lemma mask_bit_take:
  assumes "i < rows" "c < 8 * bytes" "rows * bytes \<le> length m"
  shows "mask_bit bytes (take (rows * bytes) m @ xs) i c \<longleftrightarrow> mask_bit bytes m i c"
proof -
  have "c div 8 < bytes" using assms(2) by (simp add: less_mult_imp_div_less mult.commute)
  hence "i * bytes + c div 8 < rows * bytes" using assms(1) index2_less by blast
  thus ?thesis using assms(3) by (simp add: mask_bit_def at2_def nth_append)
qed

lemma place_columns_moved:
  assumes "rising_media media"
  defines "base \<equiv> ParseSequenceNumber (hd media)"
  shows "place_columns base B media 0 (\<lambda>_ _. False) i c \<longleftrightarrow>
     (\<exists>k < length media. seq_off base (media ! k) = c \<and> B i k)"
proof -
  have d: "distinct (map (seq_off base) media)"
    using assms(1) by (simp add: rising_media_def base_def strict_sorted_iff)
  show ?thesis
  proof (cases "c \<in> seq_off base ` set media")
    case True
    then obtain j where j: "j < length media" "c = seq_off base (media ! j)" by (auto simp: in_set_conv_nth)
    have "k < length media \<Longrightarrow> seq_off base (media ! k) = c \<Longrightarrow> k = j" for k
      using d j by (simp add: distinct_conv_nth) blast
    thus ?thesis using j place_columns_nth [OF d j(1), of B 0 "\<lambda>_ _. False" i] by auto
  next
    case False
    thus ?thesis by (auto simp: place_columns_other)
  qed
qed

lemma InsertZeros_moves:
  assumes r: "rising_media media" and rows: "rows \<le> 48" and n: "length media \<le> 48"
    and c: "clean_masks rows (length media) masks" and s: "seq_span media \<le> 48"
  shows "\<exists>masks'. InsertZerosInPacketMasks media rows (PacketMaskSize (length media)) masks =
      Inr (Some (seq_span media, masks')) \<and> length masks' = kUlpMaskArraySize \<and> moved_columns rows media masks masks'"
proof (cases "seq_span media = length media")
  case True
  have "moved_columns rows media masks masks"
    unfolding moved_columns_def True using c rising_consecutive [OF r True] by (auto simp: clean_masks_def)
  moreover have "InsertZerosInPacketMasks media rows (PacketMaskSize (length media)) masks = Inr (Some (seq_span media, masks))"
    using True by (simp add: InsertZerosInPacketMasks_def Let_def seq_span_def seq_off_def)
  ultimately show ?thesis using c by (simp add: clean_masks_def)
next
  case False
  let ?bytes = "PacketMaskSize (seq_span media)"
  have "length media \<noteq> 1" using False by (cases media) (auto simp: seq_span_def seq_off_def)
  hence l: "\<not> length media \<le> 1" using r by (cases media) (auto simp: rising_media_def)
  have len: "length masks = kUlpMaskArraySize" using c by (simp add: clean_masks_def)
  obtain ms m where f: "CopyColumn (replicate kUlpMaskArraySize 0) ?bytes masks (PacketMaskSize (length media)) rows 0 0 = Inr ms"
      "insert_zeros (tl media) (ParseSequenceNumber (hd media)) 1 1 ?bytes (PacketMaskSize (length media)) rows ms = Inr (seq_span media, m)"
      "length m = kUlpMaskArraySize"
      "cols_inv rows ?bytes (place_columns (ParseSequenceNumber (hd media)) (mask_bit (PacketMaskSize (length media)) masks) media 0 (\<lambda>_ _. False)) (seq_span media) m"
    using insert_zeros_first [OF r, of rows "PacketMaskSize (length media)" masks ?bytes] rows_fit [OF rows] len
      PacketMaskSize_bits(1) [OF n] PacketMaskSize_bits(1) [OF s] s by auto
  define new where "new = shift_last ?bytes rows (seq_span media) m"
  have ln: "length new = kUlpMaskArraySize"
    using f(3) length_each_row [of rows ?bytes "seq_span media div 8"] by (simp add: new_def shift_last_def Let_def each_row_def)
  define masks' where "masks' = take (rows * ?bytes) new @ drop (rows * ?bytes) masks"
  have "InsertZerosInPacketMasks media rows (PacketMaskSize (length media)) masks = Inr (Some (seq_span media, masks'))"
    using l False s f by (simp add: InsertZerosInPacketMasks_def Let_def seq_span_def seq_off_def masks'_def new_def)
  moreover have "length masks' = kUlpMaskArraySize" using ln len rows_fit [OF rows, of "seq_span media"] by (simp add: masks'_def)
  moreover have "moved_columns rows media masks masks'"
    unfolding moved_columns_def masks'_def
    using mask_bit_take [of _ rows _ ?bytes new] rows_fit [OF rows] ln
      cols_inv_final [OF f(4) PacketMaskSize_bits(1) [OF s]] place_columns_moved [OF r] by (simp add: new_def)
  ultimately show ?thesis by blast
qed

lemma InsertZeros_too_wide:
  assumes "rising_media media" "length media \<le> 48" "48 < seq_span media"
  shows "InsertZerosInPacketMasks media rows mask_size masks = Inr None"
proof -
  have "length media \<noteq> 1" using assms by (cases media) (auto simp: seq_span_def seq_off_def)
  hence "\<not> length media \<le> 1" using assms(1) by (cases media) (auto simp: rising_media_def)
  thus ?thesis using assms by (simp add: InsertZerosInPacketMasks_def Let_def seq_span_def seq_off_def)
qed

end
