(* ===== verification/Ulp_Cover.thy ===== *)
theory Ulp_Cover
  imports Ulp_Columns
begin

text \<open>
  What the masks promise: in the mask array for \<open>n\<close> media and \<open>m\<close> parity packets every media packet is
  covered, no parity packet is empty, and no bit stands for a packet that does not exist.
\<close>

definition good_masks :: "nat \<Rightarrow> nat \<Rightarrow> byte list \<Rightarrow> bool" where
  "good_masks n m masks \<longleftrightarrow> m * PacketMaskSize n \<le> length masks \<and>
     (\<forall>i < m. \<forall>c < 8 * PacketMaskSize n. mask_bit (PacketMaskSize n) masks i c \<longrightarrow> c < n) \<and>
     (\<forall>c < n. \<exists>i < m. mask_bit (PacketMaskSize n) masks i c) \<and>
     (\<forall>i < m. \<exists>c < n. mask_bit (PacketMaskSize n) masks i c)"

lemma bit_foldr_or: "bit (foldr (\<lambda>k b. f k OR b) ks 0 :: byte) t \<longleftrightarrow> (\<exists>k \<in> set ks. bit (f k) t)"
  by (induction ks) (auto simp: bit_or_iff)

subsection \<open>Interleaved masks for more than 12 packets\<close>

lemma bit_interleaved_byte:
  "bit (interleaved_byte n m row col) t \<longleftrightarrow>
     t < 8 \<and> (col * 8 + (7 - t)) mod m = row \<and> col * 8 + (7 - t) < n"
proof -
  have d: "bit (drop_bit k (0x80 :: byte)) t \<longleftrightarrow> k + t = 7" for k by (simp only: bit_drop_bit_eq comp_apply bit_0x80)
  have f: "bit (if Q then x else 0 :: byte) t \<longleftrightarrow> Q \<and> bit x t" for Q x by simp
  have "bit (interleaved_byte n m row col) t \<longleftrightarrow>
      (\<exists>k < 8. (col * 8 + k) mod m = row \<and> col * 8 + k < n \<and> k + t = 7)"
    unfolding interleaved_byte_def bit_foldr_or f d by (simp only: set_upt atLeastLessThan_iff Bex_def le0 simp_thms conj_assoc)
  also have "\<dots> \<longleftrightarrow> t < 8 \<and> (col * 8 + (7 - t)) mod m = row \<and> col * 8 + (7 - t) < n"
  proof
    assume "\<exists>k < 8. (col * 8 + k) mod m = row \<and> col * 8 + k < n \<and> k + t = 7"
    then obtain k where "k + t = 7" "(col * 8 + k) mod m = row" "col * 8 + k < n" by blast
    moreover from this(1) have "k = 7 - t" "t < 8" by simp_all
    ultimately show "t < 8 \<and> (col * 8 + (7 - t)) mod m = row \<and> col * 8 + (7 - t) < n" by simp
  qed (auto intro!: exI [of _ "7 - t"])
  finally show ?thesis .
qed

lemma at2_concat_rows:
  assumes "i < rows" "j < cols"
  shows "at2 cols (concat (map (\<lambda>row. map (f row) [0..<cols]) [0..<rows])) i j = f i j"
  using assms(1)
proof (induction rows)
  case (Suc rows)
  have len: "length (concat (map (\<lambda>row. map (f row) [0..<cols]) [0..<rows])) = rows * cols"
    by (simp add: length_concat comp_def sum_list_triv)
  show ?case
  proof (cases "i = rows")
    case True
    thus ?thesis using len assms(2) by (simp add: at2_def nth_append)
  next
    case False
    hence "i * cols + j < rows * cols" using Suc.prems assms(2) by (intro index2_less) simp_all
    thus ?thesis using len Suc False by (simp add: at2_def nth_append)
  qed
qed simp

lemma interleaved_good:
  assumes n: "12 < n" "n \<le> 48" and m: "0 < m" "m \<le> n"
  shows "good_masks n m (LookUp table n m)"
proof -
  let ?b = "PacketMaskSize n"
  have b: "mask_bit ?b (LookUp table n m) i c \<longleftrightarrow> c mod m = i \<and> c < n" if "i < m" "c < 8 * ?b" for i c
  proof -
    have "c div 8 < ?b" using that(2) by (simp add: less_mult_imp_div_less mult.commute)
    moreover have "c div 8 * 8 + (7 - (7 - c mod 8)) = c" "7 - c mod 8 < 8"
      by (simp_all add: mult.commute)
    ultimately show ?thesis using that n by (simp add: mask_bit_def LookUp_def at2_concat_rows bit_interleaved_byte)
  qed
  have c: "c < n \<Longrightarrow> c < 8 * ?b" for c using PacketMaskSize_bits(1) [OF n(2)] by linarith
  have "length (LookUp table n m) = m * ?b"
    using n by (simp add: LookUp_def length_concat comp_def sum_list_triv)
  moreover have "\<exists>i < m. mask_bit ?b (LookUp table n m) i c" if "c < n" for c
    using b [of "c mod m" c] c [OF that] that m by (intro exI [of _ "c mod m"]) simp
  moreover have "\<exists>c < n. mask_bit ?b (LookUp table n m) i c" if "i < m" for i
    using b [OF that, of i] c [of i] that m by (intro exI [of _ i]) simp
  ultimately show ?thesis using b by (auto simp: good_masks_def)
qed

subsection \<open>Masks from the tables\<close>

text \<open>The walk through the flat table arrives at the mask of the nested list.\<close>

definition table_shape :: "nat list list list \<Rightarrow> bool" where
  "table_shape tbl \<longleftrightarrow> length tbl \<le> 16 \<and>
     list_all (\<lambda>masks. length masks < 256 \<and> list_all (\<lambda>j. length (masks ! j) = 2 * (j + 1)) [0..<length masks]) tbl"

lemma skip_masks_length:
  assumes "count \<le> length masks" "\<And>j. j < length masks \<Longrightarrow> length (masks ! j) = inc * (j + 1)"
  shows "skip_masks inc count entry = entry + length (concat (take count masks))"
  using assms(1)
proof (induction count)
  case (Suc count)
  hence "take (Suc count) masks = take count masks @ [masks ! count]" by (simp add: take_Suc_conv_app_nth)
  thus ?case using Suc assms(2) [of count] by (simp add: skip_masks_def)
qed (simp add: skip_masks_def)

definition flat_list :: "nat list list \<Rightarrow> byte list" where
  "flat_list masks = of_nat (length masks) # map of_nat (concat masks)"

lemma flatten_flat: "flatten_masks tbl = of_nat (length tbl) # concat (map flat_list tbl)"
  by (simp add: flatten_masks_def flat_list_def [abs_def])

lemma drop_flatten:
  assumes "i < length tbl"
  shows "drop (1 + length (concat (map flat_list (take i tbl)))) (flatten_masks tbl) =
     flat_list (tbl ! i) @ concat (map flat_list (drop (Suc i) tbl))"
proof -
  have "concat (map flat_list tbl) = concat (map flat_list (take i tbl)) @ flat_list (tbl ! i) @ concat (map flat_list (drop (Suc i) tbl))"
    by (subst id_take_nth_drop [OF assms]) simp
  thus ?thesis by (simp add: flatten_flat)
qed

lemma LookUp_walk:
  assumes s: "table_shape tbl" and i: "i \<le> length tbl" "i < 16"
  shows "fold (\<lambda>i (entry, entry_size_increment).
             let entry_size_increment = (if i = 16 then 6 else entry_size_increment);
                 count = unat (flatten_masks tbl ! entry)
             in (skip_masks entry_size_increment count (entry + 1), entry_size_increment))
           [0..<i] (1, 2) = (1 + length (concat (map flat_list (take i tbl))), 2)"
  using i
proof (induction i)
  case (Suc i)
  let ?e = "1 + length (concat (map flat_list (take i tbl)))"
  have "drop ?e (flatten_masks tbl) \<noteq> []" "hd (drop ?e (flatten_masks tbl)) = of_nat (length (tbl ! i))"
    using drop_flatten [of i tbl] Suc.prems by (simp_all add: flat_list_def)
  hence "flatten_masks tbl ! ?e = of_nat (length (tbl ! i))" by (metis hd_drop_conv_nth drop_eq_Nil linorder_not_le)
  moreover have sh: "length (tbl ! i) < 256" "\<And>j. j < length (tbl ! i) \<Longrightarrow> length (tbl ! i ! j) = 2 * (j + 1)"
    using s Suc.prems by (auto simp: table_shape_def list_all_length)
  ultimately have "unat (flatten_masks tbl ! ?e) = length (tbl ! i)" by (simp add: unat_of_nat)
  moreover have "skip_masks 2 (length (tbl ! i)) (?e + 1) = ?e + length (flat_list (tbl ! i))"
    using skip_masks_length [of "length (tbl ! i)" "tbl ! i" 2 "?e + 1"] sh(2) by (simp add: flat_list_def)
  moreover have "take (Suc i) tbl = take i tbl @ [tbl ! i]" using Suc.prems by (simp add: take_Suc_conv_app_nth)
  ultimately show ?case using Suc by (simp add: Let_def)
qed simp

lemma LookUpInFecTable_flatten:
  assumes s: "table_shape tbl" and i: "i < length tbl" and j: "j < length (tbl ! i)"
  shows "LookUpInFecTable (flatten_masks tbl) i j = map of_nat (tbl ! i ! j)"
proof -
  have i16: "i < 16" "i \<noteq> 16" using s i by (auto simp: table_shape_def)
  have sh: "\<And>j. j < length (tbl ! i) \<Longrightarrow> length (tbl ! i ! j) = 2 * (j + 1)"
    using s i by (auto simp: table_shape_def list_all_length)
  let ?e = "1 + length (concat (map flat_list (take i tbl)))" and ?t = "length (concat (take j (tbl ! i)))"
  have skip: "skip_masks 2 j (?e + 1) = ?e + (1 + ?t)"
    using skip_masks_length [of j "tbl ! i" 2 "?e + 1"] sh j by simp
  have "concat (tbl ! i) = concat (take j (tbl ! i)) @ (tbl ! i ! j) @ concat (drop (Suc j) (tbl ! i))"
    by (subst id_take_nth_drop [OF j]) simp
  hence "drop (1 + ?t) (flat_list (tbl ! i) @ xs) = map of_nat (tbl ! i ! j) @ map of_nat (concat (drop (Suc j) (tbl ! i))) @ xs" for xs
    by (simp add: flat_list_def)
  moreover have "drop (?e + (1 + ?t)) (flatten_masks tbl) = drop (1 + ?t) (drop ?e (flatten_masks tbl))"
    unfolding drop_drop by (simp only: ac_simps)
  ultimately have "drop (?e + (1 + ?t)) (flatten_masks tbl) = map of_nat (tbl ! i ! j) @ map of_nat (concat (drop (Suc j) (tbl ! i))) @ concat (map flat_list (drop (Suc i) tbl))"
    unfolding drop_flatten [OF i] by (rule trans [rotated])
  thus ?thesis using LookUp_walk [OF s _ i16(1)] i i16 skip sh [OF j]
    by (simp add: LookUpInFecTable_def)
qed

definition high_byte :: "nat \<Rightarrow> byte" where
  "high_byte n = (if n < 8 then push_bit (8 - n) 0xff else 0xff)"

definition low_byte :: "nat \<Rightarrow> byte" where
  "low_byte n = (if n < 8 then 0 else push_bit (16 - n) 0xff)"

definition or_column :: "nat \<Rightarrow> byte list \<Rightarrow> nat \<Rightarrow> byte" where
  "or_column m masks j = foldr (\<lambda>i b. at2 2 masks i j OR b) [0..<m] 0"

definition entry_good :: "nat \<Rightarrow> nat \<Rightarrow> nat list \<Rightarrow> bool" where
  "entry_good n m e \<longleftrightarrow> length e = 2 * m \<and>
     (let masks = map of_nat e
      in list_all (\<lambda>i. at2 2 masks i 0 OR at2 2 masks i 1 \<noteq> 0) [0..<m] \<and>
         or_column m masks 0 = high_byte n \<and> or_column m masks 1 = low_byte n)"

definition table_good :: "nat list list list \<Rightarrow> bool" where
  "table_good tbl \<longleftrightarrow> length tbl = 12 \<and> list_all (\<lambda>i. length (tbl ! i) = Suc i \<and>
     list_all (\<lambda>j. entry_good (Suc i) (Suc j) (tbl ! i ! j)) [0..<Suc i]) [0..<12]"

lemma bit_0xff: "bit (0xff :: byte) t \<longleftrightarrow> t < 8"
proof -
  have "(0xff :: byte) = mask 8" by (simp add: mask_eq_exp_minus_1)
  thus ?thesis by (simp only: bit_mask_iff) (auto simp: possible_bit_def)
qed

lemma bit_high_byte: "t < 8 \<Longrightarrow> bit (high_byte n) t \<longleftrightarrow> 7 - t < n"
  unfolding high_byte_def if_distrib [of "\<lambda>x. bit x t"] bit_push_byte bit_0xff by auto

lemma bit_low_byte: "t < 8 \<Longrightarrow> n \<le> 16 \<Longrightarrow> bit (low_byte n) t \<longleftrightarrow> 8 + (7 - t) < n"
  unfolding low_byte_def if_distrib [of "\<lambda>x. bit x t"] bit_push_byte bit_0xff by auto

lemma bit_or_column: "bit (or_column m masks j) t \<longleftrightarrow> (\<exists>i < m. bit (at2 2 masks i j) t)"
  unfolding or_column_def bit_foldr_or by auto

lemma entry_good_masks:
  assumes e: "entry_good n m e" and n: "0 < n" "n \<le> 12" and m: "m \<le> n"
  shows "good_masks n m (map of_nat e)"
proof -
  let ?m = "map of_nat e :: byte list"
  have b: "PacketMaskSize n = 2" using n by (simp add: PacketMaskSize_def)
  have or: "or_column m ?m 0 = high_byte n" "or_column m ?m 1 = low_byte n"
    and nz: "\<And>i. i < m \<Longrightarrow> at2 2 ?m i 0 OR at2 2 ?m i 1 \<noteq> 0" and len: "length ?m = m * 2"
    using e by (auto simp: entry_good_def Let_def list_all_length)
  have col: "(\<exists>i < m. mask_bit 2 ?m i c) \<longleftrightarrow> c < n" if "c < 16" for c
  proof (cases "c < 8")
    case True
    thus ?thesis using bit_or_column [of m ?m 0 "7 - c"] bit_high_byte [of "7 - c" n] by (simp add: or(1) mask_bit_def)
  next
    case False
    hence c: "c div 8 = 1" "c mod 8 = c - 8" "7 - (c - 8) < 8" "8 + (7 - (7 - (c - 8))) = c"
      using that by (auto simp: div_nat_eqI mod_if)
    show ?thesis unfolding mask_bit_def c(1,2) bit_or_column [symmetric] or(2)
      using bit_low_byte [OF c(3), of n] n c(4) by simp
  qed
  have row: "\<exists>c < n. mask_bit 2 ?m i c" if i: "i < m" for i
  proof -
    have "\<exists>t < 8. bit (at2 2 ?m i 0 OR at2 2 ?m i 1) t"
      using nz [OF i] bit_word_eqI [of "at2 2 ?m i 0 OR at2 2 ?m i 1" 0] by auto
    then obtain t where t: "t < 8" "bit (at2 2 ?m i 0) t \<or> bit (at2 2 ?m i 1) t" by (auto simp: bit_or_iff)
    have "(8 * 1 + (7 - t)) div 8 = 1" "(8 * 1 + (7 - t)) mod 8 = 7 - t" using split8 [of "7 - t" 1] by simp_all
    hence "mask_bit 2 ?m i (7 - t) \<or> mask_bit 2 ?m i (8 + (7 - t))" using t by (auto simp: mask_bit_def)
    moreover have "7 - t < 16" "8 + (7 - t) < 16" by simp_all
    ultimately obtain c where "c < 16" "mask_bit 2 ?m i c" by blast
    thus ?thesis using col i by blast
  qed
  show ?thesis unfolding good_masks_def b using col row n len by fastforce
qed

lemma table_good_nth:
  assumes "table_good tbl" "i < 12" "j \<le> i"
  shows "length tbl = 12" "length (tbl ! i) = Suc i" "entry_good (Suc i) (Suc j) (tbl ! i ! j)"
proof -
  show "length tbl = 12" using assms(1) by (simp add: table_good_def)
  have "i \<in> set [0..<12]" "j \<in> set [0..<Suc i]" using assms by (simp_all del: upt_Suc)
  thus "length (tbl ! i) = Suc i" "entry_good (Suc i) (Suc j) (tbl ! i ! j)"
    using assms(1) unfolding table_good_def list_all_iff by blast+
qed

lemma table_good_shape:
  assumes t: "table_good tbl"
  shows "table_shape tbl"
proof -
  have 12: "length tbl = 12" using table_good_nth(1) [OF t, of 0 0] by simp
  have l: "length (tbl ! i) = Suc i" if "i < 12" for i using table_good_nth(2) [OF t that, of 0] by simp
  have "length (tbl ! i ! j) = 2 * (j + 1)" if "i < 12" "j \<le> i" for i j
    using table_good_nth(3) [OF t that] unfolding entry_good_def by simp
  thus ?thesis using 12 l by (simp add: table_shape_def list_all_length less_Suc_eq_le)
qed

lemma table_LookUp:
  assumes t: "table_good tbl" and m: "0 < m" "m \<le> n" and n: "n \<le> 48"
  shows "good_masks n m (LookUp (flatten_masks tbl) n m) \<and> length (LookUp (flatten_masks tbl) n m) = m * PacketMaskSize n"
proof (cases "n \<le> 12")
  case True
  have e: "entry_good n m (tbl ! (n - 1) ! (m - 1))" and l: "length tbl = 12" "length (tbl ! (n - 1)) = n"
    using table_good_nth [OF t, of "n - 1" "m - 1"] True m by auto
  hence "LookUp (flatten_masks tbl) n m = map of_nat (tbl ! (n - 1) ! (m - 1))"
    using True m table_good_shape [OF t] by (simp add: LookUp_def LookUpInFecTable_flatten)
  moreover have "PacketMaskSize n = 2" using True by (simp add: PacketMaskSize_def)
  moreover have "length (tbl ! (n - 1) ! (m - 1)) = m * 2" using e by (simp add: entry_good_def)
  ultimately show ?thesis using entry_good_masks [OF e] True m by simp
next
  case False
  thus ?thesis using interleaved_good [of n m] m n
    by (simp add: LookUp_def length_concat comp_def sum_list_triv)
qed

text \<open>Every entry of the two tables, evaluated.\<close>

lemma random_table_good: "table_good kPacketMaskRandomLists"
  by code_simp

lemma bursty_table_good: "table_good kPacketMaskBurstyLists"
  by code_simp

lemma PickTable_good: "\<exists>tbl. table_good tbl \<and> PickTable kind n = flatten_masks tbl"
  using random_table_good bursty_table_good
  by (auto simp: PickTable_def kPacketMaskRandomTbl_def kPacketMaskBurstyTbl_def)

lemma mask_bit_append:
  assumes "i < rows" "c < 8 * bytes" "rows * bytes \<le> length m"
  shows "mask_bit bytes (m @ xs) i c \<longleftrightarrow> mask_bit bytes m i c"
proof -
  have "c div 8 < bytes" using assms(2) by (simp add: less_mult_imp_div_less mult.commute)
  hence "i * bytes + c div 8 < rows * bytes" using assms(1) index2_less by blast
  thus ?thesis using assms(3) by (simp add: mask_bit_def at2_def nth_append)
qed

lemma GeneratePacketMasks_good:
  fixes kind :: fec_mask_kind
  assumes m: "0 < m" "m \<le> n" and n: "n \<le> 48"
  defines "masks \<equiv> GeneratePacketMasks n m 0 False (PickTable kind n) (replicate kUlpMaskArraySize 0)"
  shows "good_masks n m masks" "clean_masks m n masks"
proof -
  obtain tbl where tbl: "table_good tbl" "PickTable kind n = flatten_masks tbl" using PickTable_good by blast
  let ?l = "LookUp (flatten_masks tbl) n m"
  have l: "good_masks n m ?l" "length ?l = m * PacketMaskSize n" using table_LookUp [OF tbl(1) m n] by simp_all
  have masks: "masks = ?l @ drop (length ?l) (replicate kUlpMaskArraySize 0)"
    by (simp add: masks_def GeneratePacketMasks_def tbl(2) Let_def)
  have b: "mask_bit (PacketMaskSize n) masks i c \<longleftrightarrow> mask_bit (PacketMaskSize n) ?l i c"
    if "i < m" "c < 8 * PacketMaskSize n" for i c
    unfolding masks using that l(2) by (intro mask_bit_append [where rows = m]) simp_all
  have len: "length masks = kUlpMaskArraySize" using rows_fit [of m n] m n l(2) by (simp add: masks)
  have c: "c < n \<Longrightarrow> c < 8 * PacketMaskSize n" for c using PacketMaskSize_bits(1) [OF n] by linarith
  show "good_masks n m masks" unfolding good_masks_def
  proof (intro conjI)
    show "m * PacketMaskSize n \<le> length masks" using rows_fit [of m n] m n len by simp
    show "\<forall>i < m. \<forall>c < 8 * PacketMaskSize n. mask_bit (PacketMaskSize n) masks i c \<longrightarrow> c < n"
      using b l(1) by (simp add: good_masks_def)
    have "\<forall>k < n. \<exists>i < m. mask_bit (PacketMaskSize n) ?l i k" "\<forall>i < m. \<exists>k < n. mask_bit (PacketMaskSize n) ?l i k"
      using l(1) by (simp_all add: good_masks_def)
    thus "\<forall>k < n. \<exists>i < m. mask_bit (PacketMaskSize n) masks i k" "\<forall>i < m. \<exists>k < n. mask_bit (PacketMaskSize n) masks i k"
      by (metis b c)+
  qed
  thus "clean_masks m n masks" using len by (simp add: clean_masks_def good_masks_def)
qed

end
