(* ===== verification/Ulp_Sound.thy ===== *)
theory Ulp_Sound
  imports Ulp_Decoder RS_Recovery
begin

text \<open>
  The decoder of the XOR code: what a parity packet carries, that a recovery restores the missing
  packet, that over a session every recovered packet is the one that was sent, and that the decoder
  stops only when no parity packet can restore anything more.
\<close>

subsection \<open>XOR of packets\<close>

text \<open>Adding a packet is a step of the Reed-Solomon code with the factor 1.\<close>

lemma xor_packet_add_media: "xor_packet src off dst = add_media gf256_mul src off dst 1"
  by (simp add: xor_packet_def add_media_def XorHeaders_def GFMulRTPHeaders_def XorPayloads_def GFMulRTPPayloads_def
    mul_add_def gf256r.mul_one_right)

lemma xor_packet_code:
  assumes "12 \<le> length src" "12 \<le> off" "off \<le> length dst"
  shows "\<exists>d. xor_packet src off dst = Inr d \<and> length d = max (length dst) (off + (length src - 12)) \<and>
     (\<forall>q. code off d q = code off dst q XOR rtp_code src q) \<and> (\<forall>i. 8 \<le> i \<longrightarrow> i < off \<longrightarrow> d ! i = dst ! i)"
  using gf256r.add_media_code [OF assms, of 1] by (simp add: xor_packet_add_media gf256r.mul_one_right)

text \<open>The sum of the code words of the packets with the given numbers.\<close>

definition code_sum :: "(u16 \<Rightarrow> byte list) \<Rightarrow> u16 list \<Rightarrow> nat \<Rightarrow> byte" where
  "code_sum M ss q = foldr (\<lambda>s b. rtp_code (M s) q XOR b) ss 0"

lemma code_sum_simps [simp]: "code_sum M [] q = 0" "code_sum M (s # ss) q = rtp_code (M s) q XOR code_sum M ss q"
  by (simp_all add: code_sum_def)

lemma code_sum_append: "code_sum M (ss @ ts) q = code_sum M ss q XOR code_sum M ts q"
  by (induction ss) (simp_all add: xor.assoc)

text \<open>The two highest bits of the first byte are used by the header.\<close>

definition low :: "nat \<Rightarrow> byte \<Rightarrow> byte" where
  "low q b = (if q = 0 then b AND 0x3f else b)"

lemma low_xor: "low q (a XOR b) = low q a XOR low q b"
  by (simp add: low_def bit.conj_xor_distrib2)

lemma xor_middle: "(a XOR b) XOR a = (b :: byte)"
  by (simp add: xor.commute [of a b] xor.assoc)

subsection \<open>What is sent\<close>

text \<open>A packet that was sent: an RTP packet of version 2 with its sequence number and source.\<close>

definition sent_packet :: "(u16 \<Rightarrow> byte list) \<Rightarrow> u32 \<Rightarrow> u16 \<Rightarrow> bool" where
  "sent_packet M ssrc s \<longleftrightarrow> 12 \<le> length (M s) \<and> length (M s) < 65536 \<and> ParseSequenceNumber (M s) = s \<and>
     ParseSsrc (M s) = ssrc \<and> M s ! 0 AND 0xc0 = 0x80"

definition ulp_carries :: "(u16 \<Rightarrow> byte list) \<Rightarrow> u32 \<Rightarrow> ulp_packet \<Rightarrow> bool" where
  "ulp_carries M ssrc f \<longleftrightarrow> 12 \<le> up_header_size f \<and> length (up_pkt f) = up_header_size f + up_protection_length f \<and>
     (\<forall>q. low q (code (up_header_size f) (up_pkt f) q) = low q (code_sum M (map pp_seq (up_protected f)) q)) \<and>
     (\<forall>p \<in> set (up_protected f). sent_packet M ssrc (pp_seq p) \<and> pp_ssrc p = ssrc \<and> (pp_pkt p = None \<or> pp_pkt p = Some (M (pp_seq p))))"

subsection \<open>Recovery of a packet\<close>

text \<open>The loop over the protected packets adds those that have arrived, and finds a missing one.\<close>

lemma xor_protected_sum:
  assumes "\<forall>p \<in> set ps. sent_packet M ssrc (pp_seq p) \<and> (pp_pkt p = None \<or> pp_pkt p = Some (M (pp_seq p)))" "12 \<le> length d"
  shows "\<exists>d'. xor_protected ps (sn, src, d) =
      Inr (last (sn # map pp_seq (filter (\<lambda>p. pp_pkt p = None) ps)), last (src # map pp_ssrc (filter (\<lambda>p. pp_pkt p = None) ps)), d') \<and>
    12 \<le> length d' \<and> (\<forall>q. code 12 d' q = code 12 d q XOR code_sum M (map pp_seq (filter (\<lambda>p. pp_pkt p \<noteq> None) ps)) q)"
  using assms
proof (induction ps arbitrary: sn src d)
  case (Cons p ps)
  show ?case
  proof (cases "pp_pkt p")
    case None
    thus ?thesis using Cons.IH [of d "pp_seq p" "pp_ssrc p"] Cons.prems by simp
  next
    case (Some pkt)
    hence pkt: "pkt = M (pp_seq p)" "12 \<le> length pkt" using Cons.prems(1) by (auto simp: sent_packet_def)
    obtain d1 where d1: "xor_packet pkt 12 d = Inr d1" "12 \<le> length d1" "\<And>q. code 12 d1 q = code 12 d q XOR rtp_code pkt q"
      using xor_packet_code [OF pkt(2) _ Cons.prems(2)] Cons.prems(2) by auto
    from Cons.IH [OF _ d1(2), of sn src] Cons.prems(1) show ?thesis
      using Some d1(1,3) pkt(1) by (auto simp: xor.assoc)
  qed
qed simp

lemma code_sum_filter:
  "code_sum M (map pp_seq ps) q =
     code_sum M (map pp_seq (filter (\<lambda>p. pp_pkt p \<noteq> None) ps)) q XOR code_sum M (map pp_seq (filter (\<lambda>p. pp_pkt p = None) ps)) q"
  by (induction ps) (auto simp: xor.assoc xor.left_commute)

lemma UlpFinish_eq:
  assumes "12 \<le> length d"
  shows "UlpFinishPacketRecovery sn ssrc d = FinishPacketRecovery sn ssrc (d[0 := (d ! 0 OR 0x80) AND 0xbf])"
  using assms by (simp add: UlpFinishPacketRecovery_def FinishPacketRecovery_def Let_def)

lemma version_bits: "b AND 0xc0 = 0x80 \<Longrightarrow> a AND 0x3f = b AND 0x3f \<Longrightarrow> (a OR 0x80) AND 0xbf = b" for a b :: byte
proof -
  assume v: "b AND 0xc0 = 0x80" and l: "a AND 0x3f = b AND 0x3f"
  have "(a OR 0x80) AND 0xbf = (a OR 0x80) AND (0x3f OR 0x80)" by simp
  also have "\<dots> = ((a OR 0x80) AND 0x3f) OR ((a OR 0x80) AND 0x80)" by (simp only: bit.conj_disj_distrib)
  also have "\<dots> = (b AND 0x3f) OR (b AND 0xc0)" by (simp add: bit.conj_disj_distrib2 l v)
  also have "\<dots> = b AND (0x3f OR 0xc0)" by (simp only: bit.conj_disj_distrib)
  also have "(0x3f OR 0xc0 :: byte) = -1" by code_simp
  finally show "(a OR 0x80) AND 0xbf = b" by simp
qed

text \<open>With one packet missing, the recovery gives exactly that packet, unless it is too long or the parity packet is.\<close>

definition ulp_fits :: "ulp_packet \<Rightarrow> bool" where
  "ulp_fits f \<longleftrightarrow> up_protection_length f \<le> 1488 \<and> up_protection_length f \<le> 1500 - up_header_size f"

lemma UlpStart_code:
  assumes "12 \<le> up_header_size f" "length (up_pkt f) = up_header_size f + up_protection_length f"
  shows "\<exists>d. UlpStartPacketRecovery f = (if ulp_fits f then Some d else None) \<and> 12 \<le> length d \<and>
    (\<forall>q. code 12 d q = code (up_header_size f) (up_pkt f) q)"
proof -
  let ?d = "take 12 (up_pkt f) @ take (up_protection_length f) (drop (up_header_size f) (up_pkt f))"
  have "code 12 ?d q = code (up_header_size f) (up_pkt f) q" for q
    using assms by (auto simp: code_def nth_append)
  thus ?thesis using assms by (intro exI [of _ ?d]) (auto simp: UlpStartPacketRecovery_def ulp_fits_def)
qed

lemma UlpRecover_original:
  assumes "ulp_carries M ssrc f" "filter (\<lambda>p. pp_pkt p = None) (up_protected f) = [m]"
  shows "UlpRecoverPacket f = Inr (if ulp_fits f \<and> length (M (pp_seq m)) \<le> 1488
    then Some \<lparr>rp_ssrc = ssrc, rp_seq = pp_seq m, was_recovered = True, returned = False, rp_pkt = M (pp_seq m)\<rparr> else None)"
proof -
  have f: "12 \<le> up_header_size f" "length (up_pkt f) = up_header_size f + up_protection_length f"
    "\<And>q. low q (code (up_header_size f) (up_pkt f) q) = low q (code_sum M (map pp_seq (up_protected f)) q)"
    "\<forall>p \<in> set (up_protected f). sent_packet M ssrc (pp_seq p) \<and> (pp_pkt p = None \<or> pp_pkt p = Some (M (pp_seq p)))"
    using assms(1) by (auto simp: ulp_carries_def)
  have "m \<in> set (up_protected f)" using arg_cong [OF assms(2), of set] by auto
  hence m: "sent_packet M ssrc (pp_seq m)" "pp_ssrc m = ssrc" using assms(1) by (auto simp: ulp_carries_def)
  let ?p = "M (pp_seq m)"
  obtain d where d: "UlpStartPacketRecovery f = (if ulp_fits f then Some d else None)" "12 \<le> length d"
    "\<And>q. code 12 d q = code (up_header_size f) (up_pkt f) q" using UlpStart_code [OF f(1,2)] by auto
  obtain e where e: "xor_protected (up_protected f) (0, 0, d) = Inr (pp_seq m, ssrc, e)" "12 \<le> length e"
    "\<And>q. code 12 e q = code 12 d q XOR code_sum M (map pp_seq (filter (\<lambda>p. pp_pkt p \<noteq> None) (up_protected f))) q"
    using xor_protected_sum [OF f(4) d(2), of 0 0] assms(2) m(2) by auto
  have low: "low q (code 12 e q) = low q (rtp_code ?p q)" for q
    unfolding e(3) low_xor d(3) f(3) code_sum_filter [of M "up_protected f"] assms(2) by (simp add: low_xor xor_middle)
  let ?e = "e[0 := (e ! 0 OR 0x80) AND 0xbf]"
  have "code 12 ?e q = rtp_code ?p q" for q
  proof (cases "q = 0")
    case True
    have "e ! 0 AND 0x3f = ?p ! 0 AND 0x3f" using low [of 0] by (simp add: low_def code_def rtp_code_def rtp_header_def Let_def)
    hence "(e ! 0 OR 0x80) AND 0xbf = ?p ! 0" using m(1) by (intro version_bits) (simp_all add: sent_packet_def)
    thus ?thesis using True e(2) by (cases e) (simp_all add: code_def rtp_code_def rtp_header_def Let_def)
  next
    case False
    hence "code 12 ?e q = code 12 e q" by (simp add: code_def)
    thus ?thesis using low [of q] False by (simp add: low_def)
  qed
  hence "FinishPacketRecovery (ParseSequenceNumber ?p) (ParseSsrc ?p) ?e = (if length ?p > 1488 then None else Some ?p)"
    using m(1) e(2) by (intro Finish_original) (auto simp: sent_packet_def)
  hence "UlpFinishPacketRecovery (pp_seq m) ssrc e = (if length ?p > 1488 then None else Some ?p)"
    using m(1) e(2) by (simp add: UlpFinish_eq sent_packet_def)
  thus ?thesis using d(1) e(1) by (simp add: UlpRecoverPacket_def)
qed

subsection \<open>Assigning packets that have arrived\<close>

definition genuine_list :: "(u16 \<Rightarrow> byte list) \<Rightarrow> recovered_packet list \<Rightarrow> bool" where
  "genuine_list M rs \<longleftrightarrow> (\<forall>r \<in> set rs. rp_pkt r = M (rp_seq r))"

text \<open>Packets are assigned by sequence number only; numbers and sources stay.\<close>

definition assigned :: "(u16 \<Rightarrow> byte list) \<Rightarrow> protected_packet list \<Rightarrow> protected_packet list \<Rightarrow> bool" where
  "assigned M ps qs \<longleftrightarrow> list_all2 (\<lambda>p q. pp_seq q = pp_seq p \<and> pp_ssrc q = pp_ssrc p \<and>
     (pp_pkt q = pp_pkt p \<or> pp_pkt q = Some (M (pp_seq p)))) ps qs"

lemma assigned_refl [simp]: "assigned M ps ps"
  by (simp add: assigned_def list_all2_refl)

lemma UlpAssign_assigned: "genuine_list M rs \<Longrightarrow> assigned M ps (UlpAssignRecoveredPackets ps rs)"
proof (induction ps rs rule: UlpAssignRecoveredPackets.induct)
  case (3 p ps r rs)
  hence "pp_seq p = rp_seq r" if "\<not> IsNewerSequenceNumber (rp_seq r) (pp_seq p)" "\<not> IsNewerSequenceNumber (pp_seq p) (rp_seq r)"
    using that IsNewer_total by blast
  thus ?case using 3 by (auto simp: assigned_def genuine_list_def)
qed (simp_all add: assigned_def list_all2_refl)

lemma carries_assigned:
  assumes "ulp_carries M ssrc f" "assigned M (up_protected f) qs"
  shows "ulp_carries M ssrc (f\<lparr>up_protected := qs\<rparr>)"
proof -
  have s: "map pp_seq qs = map pp_seq (up_protected f)"
    using assms(2) unfolding assigned_def by (induction rule: list_all2_induct) auto
  have "\<exists>p \<in> set (up_protected f). pp_seq q = pp_seq p \<and> pp_ssrc q = pp_ssrc p \<and> (pp_pkt q = pp_pkt p \<or> pp_pkt q = Some (M (pp_seq p)))"
    if "q \<in> set qs" for q
    using assms(2) that unfolding assigned_def by (induction rule: list_all2_induct) auto
  thus ?thesis using assms(1) s unfolding ulp_carries_def by fastforce
qed

lemma update_covering_carries:
  assumes "ulp_carries M ssrc f" "rp_pkt r = M (rp_seq r)"
  shows "ulp_carries M ssrc (ulp_update_covering r f)"
proof -
  have "assigned M (up_protected f) ((up_protected f)[i := (up_protected f ! i)\<lparr>pp_pkt := Some (rp_pkt r)\<rparr>])"
    if "i < length (up_protected f)" "pp_seq (up_protected f ! i) = rp_seq r" for i
    using that assms(2) by (auto simp: assigned_def list_all2_conv_all_nth nth_list_update)
  thus ?thesis using carries_assigned [OF assms(1)] assms(1) by (simp add: ulp_update_covering_def Let_def)
qed

subsection \<open>Recovery loop\<close>

definition ulp_inv :: "(u16 \<Rightarrow> byte list) \<Rightarrow> u32 \<Rightarrow> ulp_packet list \<Rightarrow> recovered_packet list \<Rightarrow> bool" where
  "ulp_inv M ssrc fecs rs \<longleftrightarrow> (\<forall>f \<in> set fecs. ulp_carries M ssrc f) \<and> genuine_list M rs"

lemma missing_one: "UlpNumCoveredPacketsMissing f = 1 \<Longrightarrow> \<exists>m. filter (\<lambda>p. pp_pkt p = None) (up_protected f) = [m]"
  by (cases "filter (\<lambda>p. pp_pkt p = None) (up_protected f)"; cases "tl (filter (\<lambda>p. pp_pkt p = None) (up_protected f))")
    (auto simp: UlpNumCoveredPacketsMissing_def)

lemma UlpUpdate_inv:
  "ulp_inv M ssrc fecs rs \<Longrightarrow> rp_pkt r = M (rp_seq r) \<Longrightarrow> ulp_inv M ssrc (UlpUpdateCoveringFecPackets r fecs) (UlpDiscardOldRecoveredPackets (sort_by rp_less (rs @ [r])))"
  by (auto simp: ulp_inv_def UlpUpdateCoveringFecPackets_def genuine_list_def UlpDiscardOldRecoveredPackets_def
    intro!: update_covering_carries dest!: in_set_dropD)

text \<open>It returns, keeps the invariant, and leaves only parity packets with two or more packets missing.\<close>

lemma UlpAttemptRecovery_returns:
  assumes "ulp_inv M ssrc (passed @ fs) rs" "\<forall>f \<in> set passed. 1 < UlpNumCoveredPacketsMissing f"
  shows "\<exists>fecs' rs' n. UlpAttemptRecovery passed fs rs num = Inr (fecs', rs', n) \<and> ulp_inv M ssrc fecs' rs' \<and>
    (\<forall>f \<in> set fecs'. 1 < UlpNumCoveredPacketsMissing f)"
  using assms
proof (induction passed fs rs num rule: UlpAttemptRecovery.induct)
  case (2 passed f fs rs num)
  have sub: "ulp_inv M ssrc (passed @ fs) rs" using "2.prems"(1) by (simp add: ulp_inv_def)
  show ?case
  proof (cases "UlpNumCoveredPacketsMissing f = 1")
    case one: True
    then obtain m where m: "filter (\<lambda>p. pp_pkt p = None) (up_protected f) = [m]" using missing_one by blast
    have c: "ulp_carries M ssrc f" using "2.prems"(1) by (simp add: ulp_inv_def)
    show ?thesis
    proof (cases "ulp_fits f \<and> length (M (pp_seq m)) \<le> 1488")
      case True
      let ?r = "\<lparr>rp_ssrc = ssrc, rp_seq = pp_seq m, was_recovered = True, returned = False, rp_pkt = M (pp_seq m)\<rparr>"
      have r: "UlpRecoverPacket f = Inr (Some ?r)" using UlpRecover_original [OF c m] True by simp
      show ?thesis using "2.IH"(2) [OF one r refl] UlpUpdate_inv [OF sub, of ?r] one r by simp
    next
      case False
      hence r: "UlpRecoverPacket f = Inr None" using UlpRecover_original [OF c m] by simp
      show ?thesis using "2.IH"(1) [OF one r refl sub "2.prems"(2)] one r by simp
    qed
  next
    case False
    show ?thesis
    proof (cases "UlpNumCoveredPacketsMissing f = 0 \<or> UlpIsOldFecPacket f rs")
      case True
      thus ?thesis using "2.IH"(3) [OF False True sub "2.prems"(2)] False by simp
    next
      case old: False
      thus ?thesis using "2.IH"(4) [OF False old] "2.prems" False by simp
    qed
  qed
qed simp

subsection \<open>Sessions\<close>

text \<open>What the decoder relies on for a parity packet.\<close>

definition ulp_parity :: "(u16 \<Rightarrow> byte list) \<Rightarrow> u32 \<Rightarrow> byte list \<Rightarrow> bool" where
  "ulp_parity M ssrc pkt \<longleftrightarrow> (\<forall>src. \<exists>h w. UlpReadFecHeader src pkt = Some (h, w) \<and>
     12 \<le> uh_size h \<and> length w = uh_size h + uh_protection_length h \<and>
     (let ps = protected_of_bytes ssrc (us_seq_num_base (uh_stream h))
                 (take (us_mask_size (uh_stream h)) (drop (us_mask_offset (uh_stream h)) w))
      in (\<forall>q. low q (code (uh_size h) w q) = low q (code_sum M (map pp_seq ps) q)) \<and>
         (\<forall>p \<in> set ps. sent_packet M ssrc (pp_seq p))))"

definition from_ulp_sender :: "(u16 \<Rightarrow> byte list) \<Rightarrow> u32 \<Rightarrow> received_packet \<Rightarrow> bool" where
  "from_ulp_sender M ssrc p \<longleftrightarrow> (if rcv_is_fec p then ulp_parity M ssrc (rcv_pkt p) else rcv_pkt p = M (rcv_seq p))"

lemma protected_of_bytes_blank: "p \<in> set (protected_of_bytes ssrc base masks) \<Longrightarrow> pp_ssrc p = ssrc \<and> pp_pkt p = None"
  by (auto simp: protected_of_bytes_def)

lemma in_set_tl: "x \<in> set (tl xs) \<Longrightarrow> x \<in> set xs"
  by (cases xs) auto

lemma UlpInsertFec_inv:
  assumes "ulp_inv M ssrc (ulp_received st) rs" "ulp_protected_media_ssrc st = ssrc" "ulp_parity M ssrc (rcv_pkt p)"
  shows "ulp_inv M ssrc (ulp_received (UlpInsertFecPacket rs p st)) rs"
proof -
  obtain h w where h: "UlpReadFecHeader (rcv_ssrc p) (rcv_pkt p) = Some (h, w)" "12 \<le> uh_size h" "length w = uh_size h + uh_protection_length h"
    and ps: "\<forall>q. low q (code (uh_size h) w q) = low q (code_sum M (map pp_seq (protected_of_bytes ssrc (us_seq_num_base (uh_stream h))
                 (take (us_mask_size (uh_stream h)) (drop (us_mask_offset (uh_stream h)) w)))) q)"
      "\<forall>x \<in> set (protected_of_bytes ssrc (us_seq_num_base (uh_stream h))
                 (take (us_mask_size (uh_stream h)) (drop (us_mask_offset (uh_stream h)) w))). sent_packet M ssrc (pp_seq x)"
    using assms(3) unfolding ulp_parity_def Let_def by blast
  define pr where "pr = protected_of_bytes ssrc (us_seq_num_base (uh_stream h)) (take (us_mask_size (uh_stream h)) (drop (us_mask_offset (uh_stream h)) w))"
  let ?f = "\<lambda>ps. \<lparr>up_ssrc = rcv_ssrc p, up_seq = rcv_seq p, up_protected = ps,
      up_header_size = uh_size h, up_stream = uh_stream h, up_protection_length = uh_protection_length h, up_pkt = w\<rparr>"
  have "ulp_carries M ssrc (?f pr)"
    using h ps protected_of_bytes_blank unfolding ulp_carries_def pr_def by fastforce
  hence c: "ulp_carries M ssrc (?f (UlpAssignRecoveredPackets pr rs))"
    using carries_assigned [of M ssrc "?f pr"] UlpAssign_assigned [of M rs pr] assms(1) by (simp add: ulp_inv_def)
  show ?thesis
    using assms(1,2) h(1) c unfolding UlpInsertFecPacket_def Let_def
    by (auto simp: ulp_inv_def pr_def dest!: in_set_tl)
qed

lemma UlpInsertFec_ssrc: "ulp_protected_media_ssrc (UlpInsertFecPacket rs p st) = ulp_protected_media_ssrc st"
  by (auto simp: UlpInsertFecPacket_def Let_def split: option.splits)

lemma UlpInsertMedia_inv:
  assumes "ulp_inv M ssrc (ulp_received st) rs" "rcv_pkt p = M (rcv_seq p)" "UlpInsertMediaPacket p st rs = (st', rs')"
  shows "ulp_inv M ssrc (ulp_received st') rs'" "ulp_protected_media_ssrc st' = ulp_protected_media_ssrc st"
  using assms by (auto simp: UlpInsertMediaPacket_def Let_def ulp_inv_def genuine_list_def UlpUpdateCoveringFecPackets_def
    intro!: update_covering_carries split: if_splits)

lemma ulp_inv_sub: "ulp_inv M ssrc fecs rs \<Longrightarrow> set fecs' \<subseteq> set fecs \<Longrightarrow> set rs' \<subseteq> set rs \<Longrightarrow> ulp_inv M ssrc fecs' rs'"
  by (auto simp: ulp_inv_def genuine_list_def)

lemma UlpInsertPacket_inv:
  assumes "ulp_inv M ssrc (ulp_received st) rs" "ulp_protected_media_ssrc st = ssrc" "from_ulp_sender M ssrc p"
    and "UlpInsertPacket p st rs = (st', rs')"
  shows "ulp_inv M ssrc (ulp_received st') rs'" "ulp_protected_media_ssrc st' = ssrc"
proof -
  define st1 where "st1 = st\<lparr>ulp_received := (if ulp_received st \<noteq> [] \<and> rcv_ssrc p = up_ssrc (hd (ulp_received st))
      then dropWhile (\<lambda>f. unat (MinDiff (rcv_seq p) (up_seq f)) > kUlpOldSequenceThreshold) (ulp_received st) else ulp_received st)\<rparr>"
  have i1: "ulp_inv M ssrc (ulp_received st1) rs" "ulp_protected_media_ssrc st1 = ssrc"
    using assms(1,2) by (auto simp: st1_def intro: ulp_inv_sub dest: set_dropWhileD)
  obtain st2 rs2 where s2: "(if rcv_is_fec p then (UlpInsertFecPacket rs p st1, rs) else UlpInsertMediaPacket p st1 rs) = (st2, rs2)"
    by fastforce
  have i2: "ulp_inv M ssrc (ulp_received st2) rs2" "ulp_protected_media_ssrc st2 = ssrc"
    using s2 UlpInsertFec_inv [OF i1] UlpInsertFec_ssrc [of rs p st1] UlpInsertMedia_inv [OF i1(1)] i1(2) assms(3)
    by (auto simp: from_ulp_sender_def split: if_splits)
  have "st' = st2" "rs' = UlpDiscardOldRecoveredPackets rs2"
    using assms(4) s2 by (auto simp: UlpInsertPacket_def Let_def st1_def split: if_splits)
  thus "ulp_inv M ssrc (ulp_received st') rs'" "ulp_protected_media_ssrc st' = ssrc"
    using i2 ulp_inv_sub [OF i2(1) _ set_drop_subset] by (auto simp: UlpDiscardOldRecoveredPackets_def)
qed

lemma DecodeFec_returns:
  assumes "ulp_inv M ssrc (ulp_received st) rs" "ulp_protected_media_ssrc st = ssrc" "from_ulp_sender M ssrc p"
  shows "\<exists>st' rs' n. DecodeFec p st rs = Inr (st', rs', n) \<and> ulp_inv M ssrc (ulp_received st') rs' \<and>
    ulp_protected_media_ssrc st' = ssrc \<and> (\<forall>f \<in> set (ulp_received st'). 1 < UlpNumCoveredPacketsMissing f)"
proof -
  obtain st1 rs1 where s1: "(if length rs = kUlpMaxTrackedMediaPackets \<and> rcv_ssrc p = rp_ssrc (last rs) \<and>
      unat (MinDiff (rcv_seq p) (rp_seq (last rs))) > kUlpMaxTrackedMediaPackets then UlpResetState st else (st, rs)) = (st1, rs1)"
    by fastforce
  have i1: "ulp_inv M ssrc (ulp_received st1) rs1" "ulp_protected_media_ssrc st1 = ssrc"
    using s1 assms(1,2) by (auto simp: UlpResetState_def ulp_inv_def genuine_list_def split: if_splits)
  obtain st2 rs2 where s2: "UlpInsertPacket p st1 rs1 = (st2, rs2)" by fastforce
  note i2 = UlpInsertPacket_inv [OF i1 assms(3) s2]
  from UlpAttemptRecovery_returns [of M ssrc "[]" "ulp_received st2" rs2 0] i2 show ?thesis
    unfolding DecodeFec_def s1 Let_def by (fastforce simp: s2)
qed

text \<open>A session: the packets that arrive, one call of the decoder for each.\<close>

fun ulp_run :: "received_packet list \<Rightarrow> ulp_fec \<Rightarrow> recovered_packet list \<Rightarrow> (ulp_fec \<times> recovered_packet list) result" where
  "ulp_run [] st rs = Inr (st, rs)"
| "ulp_run (p # ps) st rs = (case DecodeFec p st rs of Inl e \<Rightarrow> Inl e | Inr (st, rs, n) \<Rightarrow> ulp_run ps st rs)"

lemma ulp_run_returns:
  assumes "ulp_inv M ssrc (ulp_received st) rs" "ulp_protected_media_ssrc st = ssrc" "\<forall>p \<in> set ps. from_ulp_sender M ssrc p"
    and "\<forall>f \<in> set (ulp_received st). 1 < UlpNumCoveredPacketsMissing f"
  shows "\<exists>st' rs'. ulp_run ps st rs = Inr (st', rs') \<and> ulp_inv M ssrc (ulp_received st') rs' \<and>
    (\<forall>f \<in> set (ulp_received st'). 1 < UlpNumCoveredPacketsMissing f)"
  using assms
proof (induction ps arbitrary: st rs)
  case (Cons p ps)
  obtain st1 rs1 n where "DecodeFec p st rs = Inr (st1, rs1, n)" "ulp_inv M ssrc (ulp_received st1) rs1" "ulp_protected_media_ssrc st1 = ssrc"
    "\<forall>f \<in> set (ulp_received st1). 1 < UlpNumCoveredPacketsMissing f"
    using DecodeFec_returns [OF Cons.prems(1,2)] Cons.prems(3) by fastforce
  thus ?case using Cons.IH [of st1 rs1] Cons.prems(3) by simp
qed auto

end
