(* ===== verification/Ulp_Encode.thy ===== *)
theory Ulp_Encode
  imports Ulp_Cover Ulp_Sound
begin

text \<open>
  The contract of the XOR encoder: for a batch of packets with rising sequence numbers it returns one
  packet for each row of the masks, whose header names exactly the packets of the row and whose bytes
  are the sum of their code words.
\<close>

subsection \<open>Payload of a parity packet\<close>

definition media_sum :: "byte list list \<Rightarrow> nat \<Rightarrow> byte" where
  "media_sum ps q = foldr (\<lambda>p b. rtp_code p q XOR b) ps 0"

text \<open>A parity packet starts empty.\<close>

definition parity_code :: "nat \<Rightarrow> byte list \<Rightarrow> nat \<Rightarrow> byte" where
  "parity_code hs d q = (if d = [] then 0 else code hs d q)"

lemma code_grow: "8 \<le> length d \<Longrightarrow> code hs (grow d n) q = code hs d q"
  by (auto simp: code_def grow_def nth_append)

lemma code_zero: "8 \<le> n \<Longrightarrow> code hs (grow [] n) q = 0"
  by (auto simp: code_def grow_def)

lemma parity_step:
  assumes "12 \<le> length p" "12 \<le> hs" "d = [] \<or> hs \<le> length d"
  shows "\<exists>d'. xor_packet p hs (grow d (hs + (length p - 12))) = Inr d' \<and> hs \<le> length d' \<and>
    length d' = max (length d) (hs + (length p - 12)) \<and> (\<forall>q. code hs d' q = parity_code hs d q XOR rtp_code p q)"
proof -
  have "code hs (grow d (hs + (length p - 12))) q = parity_code hs d q" for q
    using assms by (auto simp: parity_code_def code_grow code_zero)
  thus ?thesis using xor_packet_code [OF assms(1,2), of "grow d (hs + (length p - 12))"] assms(2) by fastforce
qed

definition row_packets :: "nat \<Rightarrow> byte list \<Rightarrow> nat \<Rightarrow> u16 \<Rightarrow> byte list list \<Rightarrow> byte list list" where
  "row_packets bytes masks i base ps = filter (\<lambda>p. mask_bit bytes masks i (seq_off base p)) ps"

lemma and_single_bit: "(x :: byte) AND push_bit t 1 \<noteq> 0 \<longleftrightarrow> t < 8 \<and> bit x t"
proof -
  have "x AND push_bit t 1 \<noteq> 0 \<longleftrightarrow> (\<exists>n. bit (x AND push_bit t 1) n)"
    by (metis bit_0_eq bit_eqI bot_apply bot_bool_def)
  also have "\<dots> \<longleftrightarrow> (\<exists>n. bit x n \<and> t \<le> n \<and> n < 8 \<and> n - t = 0)"
    by (simp only: bit_and_iff bit_push_byte bit_1_iff)
  also have "\<dots> \<longleftrightarrow> t < 8 \<and> bit x t" by (metis diff_is_0_eq le_antisym order_refl)
  finally show ?thesis .
qed

lemma next_column:
  assumes "seq_off base p \<le> seq_off base p'"
  shows "(seq_off base p mod 8 + unat (ParseSequenceNumber p' - ParseSequenceNumber p)) mod 8 = seq_off base p' mod 8"
    "seq_off base p div 8 + (seq_off base p mod 8 + unat (ParseSequenceNumber p' - ParseSequenceNumber p)) div 8 = seq_off base p' div 8"
proof -
  have "unat (ParseSequenceNumber p' - ParseSequenceNumber p) = unat ((ParseSequenceNumber p' - base) - (ParseSequenceNumber p - base))"
    by simp
  also have "\<dots> = seq_off base p' - seq_off base p"
    using assms unfolding seq_off_def by (intro unat_sub) (simp add: word_le_nat_alt)
  finally have d: "seq_off base p' = 8 * (seq_off base p div 8) + (seq_off base p mod 8 + unat (ParseSequenceNumber p' - ParseSequenceNumber p))"
    using assms mult_div_mod_eq [of 8 "seq_off base p"] by linarith
  have "(8 * a + x) mod 8 = x mod 8" "(8 * a + x) div 8 = a + x div 8" for a x :: nat by simp_all
  thus "(seq_off base p mod 8 + unat (ParseSequenceNumber p' - ParseSequenceNumber p)) mod 8 = seq_off base p' mod 8"
    "seq_off base p div 8 + (seq_off base p mod 8 + unat (ParseSequenceNumber p' - ParseSequenceNumber p)) div 8 = seq_off base p' div 8"
    by (metis d)+
qed

lemma payload_step:
  assumes "12 \<le> length p" "length p \<le> 12 + l" "12 \<le> hs" "d = [] \<or> hs \<le> length d" "length d \<le> hs + l"
    and idx: "idx < length masks" and m: "masks ! idx AND push_bit (7 - b) 1 \<noteq> 0 \<longleftrightarrow> m"
  shows "\<exists>d'. (if idx \<ge> length masks then Inl OutOfBounds
            else if masks ! idx AND push_bit (7 - b) 1 \<noteq> 0 then
              xor_packet p hs (grow d (hs + (length p - kRtpHeaderSize)))
            else Inr d) = Inr d' \<and> (d' = [] \<or> hs \<le> length d') \<and> length d' \<le> hs + l \<and> (d \<noteq> [] \<or> m \<longrightarrow> d' \<noteq> []) \<and>
      (\<forall>q. parity_code hs d' q = parity_code hs d q XOR media_sum (if m then [p] else []) q)"
proof (cases m)
  case True
  obtain d' where x: "xor_packet p hs (grow d (hs + (length p - 12))) = Inr d'" "hs \<le> length d'"
    "length d' = max (length d) (hs + (length p - 12))" "\<And>q. code hs d' q = parity_code hs d q XOR rtp_code p q"
    using parity_step [of p hs d] assms(1,3,4) by auto
  hence "d' \<noteq> []" "length d' \<le> hs + l" using assms by auto
  thus ?thesis using True m idx x by (intro exI [of _ d']) (simp add: parity_code_def media_sum_def)
next
  case False
  thus ?thesis using m idx assms(4,5) by (intro exI [of _ d]) (simp add: media_sum_def)
qed

lemma ulp_payload_sum:
  assumes "ps \<noteq> []" "prev = ParseSequenceNumber (hd ps)" "idx = i * bytes + seq_off base (hd ps) div 8"
    "b = seq_off base (hd ps) mod 8" "sorted_wrt (<) (map (seq_off base) ps)"
    "\<forall>p \<in> set ps. seq_off base p < 8 * bytes \<and> 12 \<le> length p \<and> length p \<le> 12 + l"
    "i * bytes + bytes \<le> length masks" "12 \<le> hs" "d = [] \<or> hs \<le> length d" "length d \<le> hs + l"
  shows "\<exists>d'. ulp_payload masks hs ps prev idx b d = Inr d' \<and> (d' = [] \<or> hs \<le> length d') \<and> length d' \<le> hs + l \<and>
    (d \<noteq> [] \<or> row_packets bytes masks i base ps \<noteq> [] \<longrightarrow> d' \<noteq> []) \<and>
    (\<forall>q. parity_code hs d' q = parity_code hs d q XOR media_sum (row_packets bytes masks i base ps) q)"
  using assms
proof (induction ps arbitrary: prev idx b d)
  case (Cons p ps)
  let ?o = "seq_off base p" and ?m = "mask_bit bytes masks i (seq_off base p)"
  have o: "?o div 8 < bytes" using Cons.prems(6) by (simp add: less_mult_imp_div_less mult.commute)
  have p: "12 \<le> length p" "length p \<le> 12 + l" using Cons.prems(6) by simp_all
  have idx: "idx < length masks" using Cons.prems(3,7) o by simp
  have m: "masks ! idx AND push_bit (7 - b) 1 \<noteq> 0 \<longleftrightarrow> ?m"
    unfolding and_single_bit using Cons.prems(3,4) by (auto simp: mask_bit_def at2_def)
  obtain d1 where d1: "(if idx \<ge> length masks then Inl OutOfBounds
            else if masks ! idx AND push_bit (7 - b) 1 \<noteq> 0 then
              xor_packet p hs (grow d (hs + (length p - kRtpHeaderSize)))
            else Inr d) = Inr d1" "d1 = [] \<or> hs \<le> length d1" "length d1 \<le> hs + l" "d \<noteq> [] \<or> ?m \<longrightarrow> d1 \<noteq> []"
      "\<And>q. parity_code hs d1 q = parity_code hs d q XOR media_sum (if ?m then [p] else []) q"
    using payload_step [OF p Cons.prems(8-10) idx m] by blast
  have r: "row_packets bytes masks i base (p # ps) = (if ?m then [p] else []) @ row_packets bytes masks i base ps"
    by (simp add: row_packets_def)
  have sum: "media_sum (xs @ ys) q = media_sum xs q XOR media_sum ys q" for xs ys q
    by (induction xs) (simp_all add: media_sum_def xor.assoc)
  show ?case
  proof (cases ps)
    case Nil
    thus ?thesis using d1 r unfolding ulp_payload.simps d1(1) by (auto simp: row_packets_def)
  next
    case c: (Cons p' ps')
    have "?o \<le> seq_off base p'" using Cons.prems(5) c by simp
    note n = next_column [OF this]
    have "ulp_payload masks hs (p # ps) prev idx b d =
        ulp_payload masks hs ps (ParseSequenceNumber p') (i * bytes + seq_off base p' div 8) (seq_off base p' mod 8) d1"
      using n Cons.prems(2-4) unfolding ulp_payload.simps(2) [of masks hs p ps] d1(1)
      by (simp add: c Let_def add.assoc del: ulp_payload.simps)
    moreover obtain d2 where d2: "ulp_payload masks hs ps (ParseSequenceNumber p') (i * bytes + seq_off base p' div 8) (seq_off base p' mod 8) d1 = Inr d2"
        "d2 = [] \<or> hs \<le> length d2" "length d2 \<le> hs + l" "d1 \<noteq> [] \<or> row_packets bytes masks i base ps \<noteq> [] \<longrightarrow> d2 \<noteq> []"
        "\<And>q. parity_code hs d2 q = parity_code hs d1 q XOR media_sum (row_packets bytes masks i base ps) q"
      using Cons.IH [of "ParseSequenceNumber p'" "i * bytes + seq_off base p' div 8" "seq_off base p' mod 8" d1]
        Cons.prems(5-8) d1(2,3) c by auto
    moreover have "d \<noteq> [] \<or> row_packets bytes masks i base (p # ps) \<noteq> [] \<longrightarrow> d2 \<noteq> []" using d1(4) d2(4) unfolding r by auto
    ultimately show ?thesis using d1(5) by (intro exI [of _ d2]) (simp add: r sum xor.assoc)
  qed
qed simp

subsection \<open>Header\<close>

lemma Ulp_first_byte:
  fixes x :: byte and l :: bool
  defines "y \<equiv> (if l then (x AND 0x7f) OR 0x40 else (x AND 0x7f) AND 0xbf)"
  shows "y AND 0x40 \<noteq> 0 \<longleftrightarrow> l" "y AND 0x3f = x AND 0x3f"
proof -
  have c: "(0x7f AND 0x40 :: byte) = 0x40" "(0x7f AND 0xbf :: byte) = 0x3f" "(0x3f AND 0x40 :: byte) = 0" "(0x7f AND 0x3f :: byte) = 0x3f"
      "(0x40 AND 0x3f :: byte) = 0" "(0x40 AND 0x40 :: byte) = 0x40" "(0x3f AND 0x3f :: byte) = 0x3f"
    by simp_all
  show "y AND 0x40 \<noteq> 0 \<longleftrightarrow> l"
  proof (cases l)
    case True
    have "y AND 0x40 = ((x AND 0x7f) AND 0x40) OR 0x40" using True by (simp add: y_def bit.conj_disj_distrib2)
    moreover have "bit (((x AND 0x7f) AND 0x40) OR 0x40) 6" by (simp add: bit_or_iff)
    ultimately show ?thesis using True by (metis bit_0_eq bot_apply bot_bool_def)
  next
    case False
    thus ?thesis by (simp add: y_def and.assoc)
  qed
  show "y AND 0x3f = x AND 0x3f" by (simp add: y_def bit.conj_disj_distrib2 and.assoc)
qed

lemma Ulp_Finalize_nth:
  assumes s: "length pmask = 2 \<or> length pmask = 6" and d: "12 + length pmask \<le> length d" "length d - (12 + length pmask) < 65536"
  shows "\<exists>f. UlpFinalizeFecHeader base pmask d = Inr f \<and> length f = length d \<and> ReadBigEndian16 f 2 = base \<and>
     unat (ReadBigEndian16 f 10) = length d - (12 + length pmask) \<and> take (length pmask) (drop 12 f) = pmask \<and>
     f ! 0 = (if length pmask = 6 then (d ! 0 AND 0x7f) OR 0x40 else (d ! 0 AND 0x7f) AND 0xbf) \<and> f ! 8 = d ! 2 \<and> f ! 9 = d ! 3 \<and>
     (\<forall>k < length d. k = 1 \<or> 4 \<le> k \<and> k < 8 \<or> 12 + length pmask \<le> k \<longrightarrow> f ! k = d ! k)"
proof -
  let ?hs = "12 + length pmask"
  have hs: "UlpfecHeaderSize (length pmask) = ?hs" using s by (auto simp: UlpfecHeaderSize_def)
  define x where "x = (if length pmask = 6 then (d ! 0 AND 0x7f) OR 0x40 else (d ! 0 AND 0x7f) AND 0xbf)"
  define a where "a = d[0 := x, 8 := d ! 2, 9 := d ! 3]"
  define b where "b = WriteBigEndian16 a 2 base"
  define c where "c = WriteBigEndian16 b 10 (word_of_int (int (length d) - int ?hs))"
  define f where "f = take 12 c @ pmask @ drop ?hs c"
  have len: "length a = length d" "length b = length d" "length c = length d" "length f = length d" "12 \<le> length d"
    using d by (simp_all add: a_def b_def c_def f_def)
  have f: "UlpFinalizeFecHeader base pmask d = Inr f"
    using d len(5) hs s by (cases d) (auto simp: UlpFinalizeFecHeader_def Let_def f_def c_def b_def a_def x_def)
  have fc: "f ! k = c ! k" if "k < length d" "k < 12 \<or> ?hs \<le> k" for k
    using that len by (auto simp: f_def nth_append)
  have ck: "c ! k = b ! k" if "k < length d" "k < 10 \<or> 12 \<le> k" for k
    unfolding c_def using that by (intro nth_Write16) (auto simp: len)
  have bk: "b ! k = a ! k" if "k < length d" "k < 2 \<or> 4 \<le> k" for k
    unfolding b_def using that by (intro nth_Write16) (auto simp: len)
  have "ReadBigEndian16 f 2 = ReadBigEndian16 b 2" using len by (intro Read16_cong) (simp_all add: fc ck)
  moreover have "\<dots> = base" using Read_Write16 [of 2 a base] len by (simp add: b_def)
  moreover have "ReadBigEndian16 f 10 = ReadBigEndian16 c 10" using len by (intro Read16_cong) (simp_all add: fc)
  moreover have "\<dots> = word_of_int (int (length d) - int ?hs)" unfolding c_def using len by (intro Read_Write16) simp
  moreover have "int (length d) - int ?hs = int (length d - ?hs)" using d(1) by linarith
  moreover have "take (length pmask) (drop 12 f) = pmask" using len by (simp add: f_def)
  moreover have "f ! 0 = x" "f ! 8 = d ! 2" "f ! 9 = d ! 3"
    using len fc [of 0] ck [of 0] bk [of 0] fc [of 8] ck [of 8] bk [of 8] fc [of 9] ck [of 9] bk [of 9]
    by (cases d; simp add: a_def)+
  moreover have "\<And>k. k < length d \<Longrightarrow> k = 1 \<or> 4 \<le> k \<and> k < 8 \<or> ?hs \<le> k \<Longrightarrow> f ! k = d ! k"
    by (auto simp: fc ck bk a_def)
  ultimately show ?thesis
    using f len(4) unat_length16 [OF d(2)] unfolding x_def by (intro exI [of _ f]) presburger
qed

lemma Ulp_Read_Finalize:
  assumes s: "length pmask = 2 \<or> length pmask = 6" and d: "12 + length pmask \<le> length d" "length d - (12 + length pmask) < 65536"
  shows "\<exists>f w. UlpFinalizeFecHeader base pmask d = Inr f \<and>
     (\<forall>ssrc. UlpReadFecHeader ssrc f = Some (\<lparr>uh_size = 12 + length pmask,
        uh_stream = \<lparr>us_ssrc = ssrc, us_seq_num_base = base, us_mask_offset = 12, us_mask_size = length pmask\<rparr>,
        uh_protection_length = length d - (12 + length pmask)\<rparr>, w)) \<and>
     length w = length d \<and> take (length pmask) (drop 12 w) = pmask \<and>
     (\<forall>q. low q (code (12 + length pmask) w q) = low q (code (12 + length pmask) d q))"
proof -
  let ?hs = "12 + length pmask" and ?l = "length pmask = 6"
  define x where "x = (if ?l then (d ! 0 AND 0x7f) OR 0x40 else (d ! 0 AND 0x7f) AND 0xbf)"
  obtain f where f: "UlpFinalizeFecHeader base pmask d = Inr f" "length f = length d" "ReadBigEndian16 f 2 = base"
      "unat (ReadBigEndian16 f 10) = length d - ?hs" "take (length pmask) (drop 12 f) = pmask" "f ! 0 = x" "f ! 8 = d ! 2" "f ! 9 = d ! 3"
      and fk: "\<And>k. k < length d \<Longrightarrow> k = 1 \<or> 4 \<le> k \<and> k < 8 \<or> ?hs \<le> k \<Longrightarrow> f ! k = d ! k"
    using Ulp_Finalize_nth [OF assms, of base] unfolding x_def by blast
  have x: "x AND 0x40 \<noteq> 0 \<longleftrightarrow> ?l" "x AND 0x3f = d ! 0 AND 0x3f" unfolding x_def by (rule Ulp_first_byte)+
  let ?w = "f[2 := f ! 8, 3 := f ! 9]"
  have "UlpReadFecHeader ssrc f = Some (\<lparr>uh_size = ?hs,
      uh_stream = \<lparr>us_ssrc = ssrc, us_seq_num_base = base, us_mask_offset = 12, us_mask_size = length pmask\<rparr>,
      uh_protection_length = length d - ?hs\<rparr>, ?w)" for ssrc
    unfolding UlpReadFecHeader_def Let_def f(6) x(1) using s d(1) f(2-4) by (auto simp: UlpfecHeaderSize_def)
  moreover have "take (length pmask) (drop 12 ?w) = pmask" using f(5) by simp
  moreover have w: "?w ! k = d ! k" if kr: "k < length d" "0 < k" "k < 8 \<or> ?hs \<le> k" for k
  proof -
    consider "k = 2" | "k = 3" | "k = 1 \<or> 4 \<le> k \<and> k < 8 \<or> ?hs \<le> k" "k \<noteq> 2" "k \<noteq> 3" using kr(2,3) by linarith
    thus ?thesis using kr(1) d(1) f(2,7,8) fk [of k] by cases simp_all
  qed
  have "low q (code ?hs ?w q) = low q (code ?hs d q)" for q
    using w [of q] w [of "?hs + (q - 8)"] d(1) f(2,6) x(2) by (cases "q = 0") (auto simp: code_def low_def)
  ultimately show ?thesis using f(1,2) by (intro exI [of _ f] exI [of _ ?w]) simp
qed

subsection \<open>The packets a header names\<close>

lemma protected_columns:
  "map pp_seq (protected_of_bytes ssrc base pm) =
     map (\<lambda>c. base + of_nat c) (filter (\<lambda>c. bit (pm ! (c div 8)) (7 - c mod 8)) [0..<8 * length pm])"
proof -
  have "map pp_seq (concat (map (\<lambda>byte_idx.
       map (\<lambda>bit_idx. \<lparr>pp_ssrc = ssrc, pp_seq = base + of_nat (byte_idx * 8) + of_nat bit_idx, pp_pkt = None\<rparr>)
         (filter (\<lambda>bit_idx. pm ! byte_idx AND push_bit (7 - bit_idx) 1 \<noteq> 0) [0..<8])) [0..<n])) =
     map (\<lambda>c. base + of_nat c) (filter (\<lambda>c. bit (pm ! (c div 8)) (7 - c mod 8)) [0..<8 * n])" for n
  proof (induction n)
    case (Suc n)
    have u: "[0..<8 * Suc n] = [0..<8 * n] @ map (\<lambda>k. 8 * n + k) [0..<8]"
      using upt_add_eq_append [of 0 "8 * n" 8] map_add_upt [of "8 * n" 8] by (simp add: add.commute)
    have "filter (\<lambda>k. bit (pm ! ((8 * n + k) div 8)) (7 - (8 * n + k) mod 8)) [0..<8] =
        filter (\<lambda>k. pm ! n AND push_bit (7 - k) 1 \<noteq> 0) [0..<8]"
      using split8 [of _ n] by (intro filter_cong refl) (simp only: and_single_bit set_upt atLeastLessThan_iff, auto)
    thus ?case using Suc unfolding u by (simp add: filter_map comp_def add.assoc mult.commute)
  qed simp
  thus ?thesis by (simp add: protected_of_bytes_def)
qed

lemma protected_row:
  assumes "i < rows" "rows * bytes \<le> length masks"
  shows "map pp_seq (protected_of_bytes ssrc base (take bytes (drop (i * bytes) masks))) =
     map (\<lambda>c. base + of_nat c) (filter (mask_bit bytes masks i) [0..<8 * bytes])"
proof -
  have "Suc i * bytes \<le> rows * bytes" using assms(1) by (intro mult_le_mono1) simp
  hence l: "i * bytes + bytes \<le> length masks" using assms(2) by simp
  hence "filter (\<lambda>c. bit (take bytes (drop (i * bytes) masks) ! (c div 8)) (7 - c mod 8)) [0..<8 * bytes] =
      filter (mask_bit bytes masks i) [0..<8 * bytes]"
    by (intro filter_cong refl) (simp add: mask_bit_def at2_def less_mult_imp_div_less mult.commute)
  thus ?thesis using l by (simp add: protected_columns)
qed

lemma moved_row:
  assumes r: "rising_media media" and m: "moved_columns rows media masks masks'" and i: "i < rows" and s: "seq_span media \<le> 48"
  defines "bytes \<equiv> PacketMaskSize (seq_span media)" and "base \<equiv> ParseSequenceNumber (hd media)"
  shows "filter (mask_bit bytes masks' i) [0..<8 * bytes] = map (seq_off base) (row_packets bytes masks' i base media)"
proof (rule sorted_distinct_set_unique)
  have inc: "sorted_wrt (<) (map (seq_off base) media)" using r by (simp add: rising_media_def base_def)
  hence "sorted_wrt (<) (map (seq_off base) (row_packets bytes masks' i base media))"
    by (simp add: row_packets_def sorted_wrt_map sorted_wrt_filter)
  thus "sorted (map (seq_off base) (row_packets bytes masks' i base media))"
    "distinct (map (seq_off base) (row_packets bytes masks' i base media))"
    by (simp_all add: strict_sorted_iff)
  have b: "seq_off base p < 8 * bytes" if "p \<in> set media" for p
    using seq_off_le_last [OF r that] PacketMaskSize_bits(1) [OF s] by (simp add: bytes_def base_def)
  show "set (filter (mask_bit bytes masks' i) [0..<8 * bytes]) = set (map (seq_off base) (row_packets bytes masks' i base media))"
  proof (intro equalityI subsetI)
    fix c assume "c \<in> set (filter (mask_bit bytes masks' i) [0..<8 * bytes])"
    hence c: "c < 8 * bytes" "mask_bit bytes masks' i c" by simp_all
    then obtain k where "k < length media" "seq_off base (media ! k) = c"
      using m i unfolding moved_columns_def bytes_def [symmetric] base_def [symmetric] by blast
    thus "c \<in> set (map (seq_off base) (row_packets bytes masks' i base media))"
      using c(2) by (auto simp: row_packets_def intro!: image_eqI [of _ _ "media ! k"])
  qed (auto simp: row_packets_def b)
qed (simp_all add: sorted_wrt_filter)

lemma seq_off_back: "base + of_nat (seq_off base p) = ParseSequenceNumber p"
  by (simp add: seq_off_def)

subsection \<open>The encoder\<close>

definition ulp_named :: "byte list \<Rightarrow> u16 list" where
  "ulp_named f = (case UlpReadFecHeader 0 f of
       None \<Rightarrow> []
     | Some (h, w) \<Rightarrow> map pp_seq (protected_of_bytes 0 (us_seq_num_base (uh_stream h))
         (take (us_mask_size (uh_stream h)) (drop (us_mask_offset (uh_stream h)) w))))"

definition sent_media :: "(u16 \<Rightarrow> byte list) \<Rightarrow> u32 \<Rightarrow> byte list list \<Rightarrow> bool" where
  "sent_media M ssrc media \<longleftrightarrow> (\<forall>p \<in> set media. M (ParseSequenceNumber p) = p \<and> sent_packet M ssrc (ParseSequenceNumber p))"

lemma sent_media_sum: "sent_media M ssrc ps \<Longrightarrow> code_sum M (map ParseSequenceNumber ps) q = media_sum ps q"
  by (induction ps) (simp_all add: sent_media_def media_sum_def)

lemma sent_media_row: "sent_media M ssrc ps \<Longrightarrow> sent_media M ssrc (row_packets bytes masks i base ps)"
  by (simp add: sent_media_def row_packets_def)

lemma parity_row:
  assumes r: "rising_media media" and s: "seq_span media \<le> 48" and M: "sent_media M ssrc media"
    and m: "moved_columns rows media masks masks'" "length masks' = kUlpMaskArraySize" and i: "i < rows" "rows \<le> 48"
  defines "bytes \<equiv> PacketMaskSize (seq_span media)" and "base \<equiv> ParseSequenceNumber (hd media)"
  assumes ne: "row_packets bytes masks' i base media \<noteq> []"
  shows "\<exists>d f. ulp_payload masks' (UlpfecHeaderSize bytes) media base (i * bytes) 0 [] = Inr d \<and>
     UlpFinalizeFecHeader base (take bytes (drop (i * bytes) masks')) d = Inr f \<and> ulp_parity M ssrc f \<and>
     ulp_named f = map ParseSequenceNumber (row_packets bytes masks' i base media)"
proof -
  let ?row = "row_packets bytes masks' i base media" and ?pm = "take bytes (drop (i * bytes) masks')"
  have b: "bytes = 2 \<or> bytes = 6" by (simp add: bytes_def PacketMaskSize_def)
  hence hs: "UlpfecHeaderSize bytes = 12 + bytes" by (auto simp: UlpfecHeaderSize_def)
  have "Suc i * bytes \<le> rows * bytes" using i by (intro mult_le_mono1) simp
  hence l: "i * bytes + bytes \<le> length masks'" "rows * bytes \<le> length masks'"
    using rows_fit [OF i(2), of "seq_span media"] m(2) by (simp_all add: bytes_def)
  hence pm: "length ?pm = bytes" by simp
  have o: "\<forall>p \<in> set media. seq_off base p < 8 * bytes \<and> 12 \<le> length p \<and> length p \<le> 12 + 65523"
    using seq_off_le_last [OF r] PacketMaskSize_bits(1) [OF s] M
    by (fastforce simp: bytes_def base_def sent_media_def sent_packet_def)
  obtain d where d: "ulp_payload masks' (12 + bytes) media base (i * bytes) 0 [] = Inr d" "d = [] \<or> 12 + bytes \<le> length d"
      "length d \<le> 12 + bytes + 65523" "d \<noteq> []" "\<And>q. parity_code (12 + bytes) d q = media_sum ?row q"
    using ulp_payload_sum [of media base "i * bytes" i bytes base 0 65523 masks' "12 + bytes" "[]"] r o l(1) ne
    by (auto simp: rising_media_def base_def seq_off_def parity_code_def)
  have dl: "length ?pm = 2 \<or> length ?pm = 6" "12 + length ?pm \<le> length d" "length d - (12 + length ?pm) < 65536"
    unfolding pm using b d(2-4) by auto
  obtain f w where f: "UlpFinalizeFecHeader base ?pm d = Inr f" "length w = length d" "take bytes (drop 12 w) = ?pm"
      "\<And>ssrc. UlpReadFecHeader ssrc f = Some (\<lparr>uh_size = 12 + bytes,
        uh_stream = \<lparr>us_ssrc = ssrc, us_seq_num_base = base, us_mask_offset = 12, us_mask_size = bytes\<rparr>,
        uh_protection_length = length d - (12 + bytes)\<rparr>, w)"
      "\<And>q. low q (code (12 + bytes) w q) = low q (code (12 + bytes) d q)"
    using Ulp_Read_Finalize [OF dl, of base, unfolded pm] by blast
  have named: "map pp_seq (protected_of_bytes src base ?pm) = map ParseSequenceNumber ?row" for src
    using protected_row [OF i(1) l(2), of src base] moved_row [OF r m(1) i(1) s]
    by (simp add: bytes_def base_def seq_off_back)
  have sum: "low q (code (12 + bytes) w q) = low q (code_sum M (map ParseSequenceNumber ?row) q)" for q
    using f(5) d(4,5) sent_media_sum [OF sent_media_row [OF M]] by (simp add: parity_code_def)
  have "sent_packet M ssrc (pp_seq p)" if "p \<in> set (protected_of_bytes ssrc base ?pm)" for p
  proof -
    have "pp_seq p \<in> set (map ParseSequenceNumber ?row)" using that named [of ssrc] by (metis imageI list.set_map)
    thus ?thesis using M by (auto simp: row_packets_def sent_media_def)
  qed
  hence "ulp_parity M ssrc f" using d(2,4) f(2,3,4) sum named [of ssrc] by (simp add: ulp_parity_def)
  moreover have "ulp_named f = map ParseSequenceNumber ?row" using f(3,4) named [of 0] by (simp add: ulp_named_def)
  ultimately show ?thesis using d(1) f(1) hs by auto
qed

lemma rows_cover:
  assumes r: "rising_media media" and s: "seq_span media \<le> 48" and g: "good_masks (length media) rows masks"
    and m: "moved_columns rows media masks masks'"
  defines "bytes \<equiv> PacketMaskSize (seq_span media)" and "base \<equiv> ParseSequenceNumber (hd media)"
  shows "i < rows \<Longrightarrow> row_packets bytes masks' i base media \<noteq> []"
    "p \<in> set media \<Longrightarrow> \<exists>i < rows. p \<in> set (row_packets bytes masks' i base media)"
proof -
  have bit: "mask_bit bytes masks' i (seq_off base (media ! k))"
    if "i < rows" "k < length media" "mask_bit (PacketMaskSize (length media)) masks i k" for i k
  proof -
    have "seq_off base (media ! k) < 8 * bytes"
      using seq_off_le_last [OF r, of "media ! k"] PacketMaskSize_bits(1) [OF s] that(2) by (simp add: bytes_def base_def)
    thus ?thesis using m that unfolding moved_columns_def bytes_def base_def by blast
  qed
  show "row_packets bytes masks' i base media \<noteq> []" if i: "i < rows"
  proof -
    obtain k where k: "k < length media" "mask_bit (PacketMaskSize (length media)) masks i k"
      using g i unfolding good_masks_def by blast
    hence "media ! k \<in> set (row_packets bytes masks' i base media)" using bit [OF i] by (simp add: row_packets_def)
    thus ?thesis by auto
  qed
  show "\<exists>i < rows. p \<in> set (row_packets bytes masks' i base media)" if "p \<in> set media"
  proof -
    obtain k where k: "k < length media" "p = media ! k" using \<open>p \<in> set media\<close> by (auto simp: in_set_conv_nth)
    obtain i where "i < rows" "mask_bit (PacketMaskSize (length media)) masks i k" using g k(1) unfolding good_masks_def by blast
    thus ?thesis using bit k by (auto simp: row_packets_def)
  qed
qed

lemma EncodeFec_contract:
  fixes factor :: byte
  assumes r: "rising_media media" and n: "length media \<le> 48" and s: "seq_span media \<le> 48" and M: "sent_media M ssrc media"
  defines "num \<equiv> nat (NumFecPackets (int (length media)) (uint factor))"
  assumes num: "0 < num" "num \<le> length media"
  shows "\<exists>fecs. EncodeFec media factor 0 False kind = Inr (0, fecs) \<and> length fecs = num \<and>
     (\<forall>f \<in> set fecs. ulp_parity M ssrc f \<and> set (ulp_named f) \<subseteq> ParseSequenceNumber ` set media) \<and>
     (\<forall>p \<in> set media. \<exists>f \<in> set fecs. ParseSequenceNumber p \<in> set (ulp_named f))"
proof -
  let ?base = "ParseSequenceNumber (hd media)" and ?bytes = "PacketMaskSize (seq_span media)"
  let ?masks = "GeneratePacketMasks (length media) num 0 False (PickTable kind (length media)) (replicate kUlpMaskArraySize 0)"
  have g: "good_masks (length media) num ?masks" "clean_masks num (length media) ?masks"
    using GeneratePacketMasks_good [OF num n] by simp_all
  obtain ms where ms: "InsertZerosInPacketMasks media num (PacketMaskSize (length media)) ?masks = Inr (Some (seq_span media, ms))"
      "length ms = kUlpMaskArraySize" "moved_columns num media ?masks ms"
    using InsertZeros_moves [OF r _ n g(2) s] num n by auto
  note cov = rows_cover [OF r s g(1) ms(3)]
  let ?row = "\<lambda>i. row_packets ?bytes ms i ?base media"
  have "\<forall>i. \<exists>d f. i < num \<longrightarrow> ulp_payload ms (UlpfecHeaderSize ?bytes) media ?base (i * ?bytes) 0 [] = Inr d \<and>
     UlpFinalizeFecHeader ?base (take ?bytes (drop (i * ?bytes) ms)) d = Inr f \<and> ulp_parity M ssrc f \<and>
     ulp_named f = map ParseSequenceNumber (?row i)"
    using parity_row [OF r s M ms(3,2)] cov(1) num n by (meson le_trans)
  then obtain D F where DF: "\<And>i. i < num \<Longrightarrow> ulp_payload ms (UlpfecHeaderSize ?bytes) media ?base (i * ?bytes) 0 [] = Inr (D i) \<and>
     UlpFinalizeFecHeader ?base (take ?bytes (drop (i * ?bytes) ms)) (D i) = Inr (F i) \<and> ulp_parity M ssrc (F i) \<and>
     ulp_named (F i) = map ParseSequenceNumber (?row i)" by metis
  have gen: "UlpGenerateFecPayloads ms ?bytes media num = Inr (map D [0..<num])"
    unfolding UlpGenerateFecPayloads_def using DF by (intro map_result_Inr) simp
  have fin: "UlpFinalizeFecHeaders ms ?bytes ?base (map D [0..<num]) = Inr (map F [0..<num])"
    unfolding UlpFinalizeFecHeaders_def using DF map_result_Inr [of "[0..<num]" _ F] by simp
  have "\<not> (\<exists>p \<in> set media. length p < kRtpHeaderSize)" using M by (auto simp: sent_media_def sent_packet_def)
  hence "EncodeFec media factor 0 False kind = Inr (0, map F [0..<num])"
    unfolding EncodeFec_def Let_def num_def [symmetric] using ms(1) gen fin n num r by (simp add: rising_media_def)
  moreover have "\<exists>f \<in> set (map F [0..<num]). ParseSequenceNumber p \<in> set (ulp_named f)" if "p \<in> set media" for p
    using cov(2) [OF that] DF by fastforce
  moreover have "ulp_parity M ssrc f \<and> set (ulp_named f) \<subseteq> ParseSequenceNumber ` set media" if "f \<in> set (map F [0..<num])" for f
    using that DF by (auto simp: row_packets_def)
  ultimately show ?thesis by (intro exI [of _ "map F [0..<num]"]) simp
qed

end
