(* ===== verification/Ulp_Properties.thy ===== *)
theory Ulp_Properties
  imports Ulp_Encode
begin

text \<open>
  The properties of the XOR code: masks, encoder, decoder, and the two together.
\<close>

subsection \<open>Examples\<close>

definition ulp_media :: "u16 \<Rightarrow> byte list" where
  "ulp_media s = [0x80, 96, 0, ucast s, 0, 0, 0, 1, 0, 0, 0, 9, ucast s, 7]"

lemma ulp_media_fields:
  "ParseSequenceNumber (ulp_media 10) = 10" "ParseSequenceNumber (ulp_media 12) = 12"
  "ParseSsrc (ulp_media 10) = 9" "ParseSsrc (ulp_media 12) = 9" "ulp_media s ! 0 AND 0xc0 = 0x80" "length (ulp_media s) = 14"
  by (code_simp, code_simp, code_simp, code_simp) (simp_all add: ulp_media_def)

lemma ulp_media_sent: "sent_packet ulp_media 9 10" "sent_packet ulp_media 9 12"
  using ulp_media_fields by (simp_all add: sent_packet_def)

lemma ulp_media_batch: "rising_media [ulp_media 10, ulp_media 12]" "seq_span [ulp_media 10, ulp_media 12] = 3"
  by (simp_all add: rising_media_def seq_span_def seq_off_def ulp_media_fields)

lemma ulp_media_example: "sent_media ulp_media 9 [ulp_media 10, ulp_media 12]"
  using ulp_media_sent by (simp add: sent_media_def ulp_media_fields)

lemma ulp_num_bounds:
  fixes factor :: byte
  assumes "0 < n" "factor \<noteq> 0"
  shows "0 < nat (NumFecPackets (int n) (uint factor))" "nat (NumFecPackets (int n) (uint factor)) \<le> n"
proof -
  have f: "0 \<le> uint factor" "uint factor < 256" "uint factor \<noteq> 0"
    using unsigned_less [of factor] assms(2) by (simp_all add: unsigned_eq_0_iff)
  show "0 < nat (NumFecPackets (int n) (uint factor))" "nat (NumFecPackets (int n) (uint factor)) \<le> n"
    using NumFecPackets_bounds [of "int n", OF _ f(1,2)] assms(1) f(3) by auto
qed

lemma EncodeFec_too_wide:
  fixes factor :: byte
  assumes "rising_media media" "length media \<le> 48" "48 < seq_span media" "sent_media M ssrc media"
    and "0 < nat (NumFecPackets (int (length media)) (uint factor))" "nat (NumFecPackets (int (length media)) (uint factor)) \<le> length media"
  shows "EncodeFec media factor 0 False kind = Inr (-1, [])"
proof -
  have "\<not> (\<exists>p \<in> set media. length p < kRtpHeaderSize)" using assms(4) by (auto simp: sent_media_def sent_packet_def)
  thus ?thesis using assms(2,5,6) InsertZeros_too_wide [OF assms(1-3)] assms(1)
    by (simp add: EncodeFec_def Let_def rising_media_def)
qed

subsection \<open>Masks\<close>

text \<open>
  C18: For every number of media packets up to 48, every number of parity packets up to that number and both
  kinds of masks, the mask array that the encoder starts from covers every media packet, has no empty
  row and has no bit for a packet that does not exist.
\<close>

theorem generated_masks_cover:
  fixes kind :: fec_mask_kind
  assumes "0 < m" "m \<le> n" "n \<le> 48"
  shows "good_masks n m (GeneratePacketMasks n m 0 False (PickTable kind n) (replicate kUlpMaskArraySize 0))"
  using assms by (rule GeneratePacketMasks_good)

theorem generated_masks_cover_witness:
  "good_masks 20 7 (GeneratePacketMasks 20 7 0 False (PickTable kFecMaskBursty 20) (replicate kUlpMaskArraySize 0))"
  using generated_masks_cover [of 7 20 kFecMaskBursty] by simp

text \<open>
  C16: Moving the columns bit by bit is the same as placing the column of each packet at the distance of
  its sequence number from the first one: the new masks have exactly these columns, all others are zero.
\<close>

theorem insert_zeros_places_columns:
  assumes "rising_media media" "rows \<le> 48" "length media \<le> 48" "clean_masks rows (length media) masks" "seq_span media \<le> 48"
  shows "\<exists>masks'. InsertZerosInPacketMasks media rows (PacketMaskSize (length media)) masks = Inr (Some (seq_span media, masks')) \<and>
     length masks' = kUlpMaskArraySize \<and> moved_columns rows media masks masks'"
  using assms by (rule InsertZeros_moves)

lemma two_columns_clean: "clean_masks 1 (length [ulp_media 10, ulp_media 12]) (0xc0 # replicate 287 0)"
proof -
  have "list_all (\<lambda>c. mask_bit 2 (0xc0 # replicate 287 0) 0 c \<longrightarrow> c < 2) [0..<16]" by code_simp
  thus ?thesis by (auto simp: clean_masks_def PacketMaskSize_def list_all_iff numeral_2_eq_2 [symmetric])
qed

lemma two_columns_bits: "mask_bit 2 (0xc0 # replicate 287 0) 0 0" "mask_bit 2 (0xc0 # replicate 287 0) 0 (Suc 0)"
  "seq_off 10 (ulp_media 10) = 0" "seq_off 10 (ulp_media 12) = 2"
  by (code_simp, code_simp) (simp_all add: seq_off_def ulp_media_fields)

theorem insert_zeros_places_columns_witness:
  "\<exists>masks'. InsertZerosInPacketMasks [ulp_media 10, ulp_media 12] 1 2 (0xc0 # replicate 287 0) = Inr (Some (3, masks')) \<and>
     mask_bit 2 masks' 0 0 \<and> \<not> mask_bit 2 masks' 0 1 \<and> mask_bit 2 masks' 0 2"
proof -
  have size: "PacketMaskSize (length [ulp_media 10, ulp_media 12]) = 2" "PacketMaskSize 3 = 2" by (simp_all add: PacketMaskSize_def)
  obtain masks' where m: "InsertZerosInPacketMasks [ulp_media 10, ulp_media 12] 1 2 (0xc0 # replicate 287 0) = Inr (Some (3, masks'))"
      "moved_columns 1 [ulp_media 10, ulp_media 12] (0xc0 # replicate 287 0) masks'"
    using insert_zeros_places_columns [OF ulp_media_batch(1) _ _ two_columns_clean] unfolding size ulp_media_batch(2) by auto
  have "mask_bit 2 masks' 0 c \<longleftrightarrow> c = 0 \<or> c = 2" if "c < 16" for c
    using m(2) that by (auto simp: moved_columns_def ulp_media_batch ulp_media_fields size(2) PacketMaskSize_def two_columns_bits Ex_less_Suc2)
  thus ?thesis using m(1) by simp
qed

subsection \<open>Encoder\<close>

text \<open>
  C8: For a batch of sent packets in order, with gaps, whose sequence numbers span at most 48, the encoder
  returns the number of parity packets that the protection factor asks for; each carries the sum of
  exactly the packets its header names, and every packet of the batch is named by one of them.
\<close>

theorem EncodeFec_protects:
  fixes factor :: byte
  assumes "rising_media media" "length media \<le> 48" "seq_span media \<le> 48" "sent_media M ssrc media" "factor \<noteq> 0"
  shows "\<exists>fecs. EncodeFec media factor 0 False kind = Inr (0, fecs) \<and>
     length fecs = nat (NumFecPackets (int (length media)) (uint factor)) \<and> fecs \<noteq> [] \<and>
     (\<forall>f \<in> set fecs. ulp_parity M ssrc f \<and> set (ulp_named f) \<subseteq> ParseSequenceNumber ` set media) \<and>
     (\<forall>p \<in> set media. \<exists>f \<in> set fecs. ParseSequenceNumber p \<in> set (ulp_named f))"
proof -
  have "0 < nat (NumFecPackets (int (length media)) (uint factor))" "nat (NumFecPackets (int (length media)) (uint factor)) \<le> length media"
    using ulp_num_bounds [OF _ assms(5)] assms(1) by (simp_all add: rising_media_def)
  from EncodeFec_contract [OF assms(1-4) this, of kind] this(1) show ?thesis by fastforce
qed

theorem EncodeFec_protects_witness:
  "\<exists>fecs. EncodeFec [ulp_media 10, ulp_media 12] 255 0 False kFecMaskRandom = Inr (0, fecs) \<and> length fecs = 2 \<and>
     (\<exists>f. f \<in> set fecs \<and> 12 \<in> set (ulp_named f))"
proof -
  have "nat (NumFecPackets 2 255) = 2" by code_simp
  thus ?thesis using EncodeFec_protects [OF ulp_media_batch(1) _ _ ulp_media_example, of 255 kFecMaskRandom] ulp_media_batch(2)
    by (auto simp: ulp_media_fields)
qed

text \<open>
  C19: A batch whose sequence numbers span more than 48 is refused with -1 and no parity packets; no check
  fails and no byte is written out of bounds.
\<close>

theorem EncodeFec_refuses:
  fixes factor :: byte
  assumes "rising_media media" "length media \<le> 48" "48 < seq_span media" "sent_media M ssrc media" "factor \<noteq> 0"
  shows "EncodeFec media factor 0 False kind = Inr (-1, [])"
proof -
  have "0 < nat (NumFecPackets (int (length media)) (uint factor))" "nat (NumFecPackets (int (length media)) (uint factor)) \<le> length media"
    using ulp_num_bounds [OF _ assms(5)] assms(1) by (simp_all add: rising_media_def)
  thus ?thesis by (rule EncodeFec_too_wide [OF assms(1-4)])
qed

lemma wide_batch:
  "rising_media [ulp_media 10, ulp_media 100]" "seq_span [ulp_media 10, ulp_media 100] = 91" "sent_media ulp_media 9 [ulp_media 10, ulp_media 100]"
proof -
  have "ParseSequenceNumber (ulp_media 100) = 100" "ParseSsrc (ulp_media 100) = 9" by code_simp+
  thus "rising_media [ulp_media 10, ulp_media 100]" "seq_span [ulp_media 10, ulp_media 100] = 91" "sent_media ulp_media 9 [ulp_media 10, ulp_media 100]"
    using ulp_media_sent(1)
    by (simp_all add: rising_media_def seq_span_def seq_off_def sent_media_def sent_packet_def ulp_media_fields)
qed

theorem EncodeFec_refuses_witness:
  "EncodeFec [ulp_media 10, ulp_media 100] 255 0 False kFecMaskBursty = Inr (-1, [])"
  using EncodeFec_refuses [OF wide_batch(1) _ _ wide_batch(3), of 255] by (simp add: wide_batch(2))

subsection \<open>Decoder\<close>

text \<open>
  C17: A parity packet that carries the sum of the packets it names, all but one of which have arrived,
  recovers the missing packet byte for byte, with its number and source; it recovers nothing exactly
  when the parity packet or the packet exceeds the size of an IP packet less the headers.
\<close>

theorem UlpRecoverPacket_restores:
  assumes "ulp_carries M ssrc f" "filter (\<lambda>p. pp_pkt p = None) (up_protected f) = [m]"
  shows "UlpRecoverPacket f = Inr (if ulp_fits f \<and> length (M (pp_seq m)) \<le> 1488
    then Some \<lparr>rp_ssrc = ssrc, rp_seq = pp_seq m, was_recovered = True, returned = False, rp_pkt = M (pp_seq m)\<rparr> else None)"
  using assms by (rule UlpRecover_original)

definition lone_parity :: ulp_packet where
  "lone_parity = \<lparr>up_ssrc = 9, up_seq = 20, up_protected = [\<lparr>pp_ssrc = 9, pp_seq = 10, pp_pkt = None\<rparr>], up_header_size = 14,
     up_stream = \<lparr>us_ssrc = 9, us_seq_num_base = 10, us_mask_offset = 12, us_mask_size = 2\<rparr>, up_protection_length = 2,
     up_pkt = [0x00, 96, 0, 2, 0, 0, 0, 1, 0, 2, 0, 2, 0x80, 0, 10, 7]\<rparr>"

lemma lone_parity_carries: "ulp_carries ulp_media 9 lone_parity"
proof -
  have "list_all (\<lambda>q. low q (code 14 (up_pkt lone_parity) q) = low q (rtp_code (ulp_media 10) q)) [0..<10]" by code_simp
  hence "low q (code 14 (up_pkt lone_parity) q) = low q (rtp_code (ulp_media 10) q)" if "q < 10" for q
    using that by (simp add: list_all_iff)
  moreover have "code 14 (up_pkt lone_parity) q = 0" "rtp_code (ulp_media 10) q = 0" if "10 \<le> q" for q
    using that by (simp_all add: code_def rtp_code_def lone_parity_def ulp_media_fields)
  ultimately have "low q (code 14 (up_pkt lone_parity) q) = low q (rtp_code (ulp_media 10) q)" for q
    by (cases "q < 10") auto
  thus ?thesis using ulp_media_sent(1) by (simp add: ulp_carries_def lone_parity_def)
qed

theorem UlpRecoverPacket_restores_witness:
  "UlpRecoverPacket lone_parity = Inr (Some \<lparr>rp_ssrc = 9, rp_seq = 10, was_recovered = True, returned = False, rp_pkt = ulp_media 10\<rparr>)"
  using UlpRecoverPacket_restores [OF lone_parity_carries] by (simp add: lone_parity_def ulp_fits_def ulp_media_fields)

text \<open>A parity packet from the encoder, for a batch of sent packets.\<close>

definition ulp_encoded :: "(u16 \<Rightarrow> byte list) \<Rightarrow> u32 \<Rightarrow> byte list \<Rightarrow> bool" where
  "ulp_encoded M ssrc f \<longleftrightarrow> (\<exists>media factor kind fecs. rising_media media \<and> sent_media M ssrc media \<and>
     EncodeFec media factor 0 False kind = Inr (0, fecs) \<and> f \<in> set fecs)"

lemma ulp_encoded_parity:
  assumes "ulp_encoded M ssrc f"
  shows "ulp_parity M ssrc f"
proof -
  obtain media factor kind fecs where e: "rising_media media" "sent_media M ssrc media"
    "EncodeFec media factor 0 False kind = Inr (0, fecs)" "f \<in> set fecs" using assms by (auto simp: ulp_encoded_def)
  have l: "length media \<le> 48" using e(3) by (auto simp: EncodeFec_def Let_def split: if_splits)
  have num: "0 < nat (NumFecPackets (int (length media)) (uint factor))" using e(3,4) by (auto simp: EncodeFec_def Let_def split: if_splits)
  moreover have n: "nat (NumFecPackets (int (length media)) (uint factor)) \<le> length media"
    using ulp_num_bounds(2) [of "length media" factor] num e(1) by (cases "factor = 0") (auto simp: rising_media_def NumFecPackets_def)
  moreover have "seq_span media \<le> 48" using EncodeFec_too_wide [OF e(1) l _ e(2) num n, of kind] e(3) by fastforce
  ultimately show ?thesis using EncodeFec_contract [OF e(1) l _ e(2), of factor kind] e(3,4) by auto
qed

definition ulp_arrival :: "(u16 \<Rightarrow> byte list) \<Rightarrow> u32 \<Rightarrow> received_packet \<Rightarrow> bool" where
  "ulp_arrival M ssrc p \<longleftrightarrow> (if rcv_is_fec p then ulp_encoded M ssrc (rcv_pkt p) else rcv_pkt p = M (rcv_seq p))"

lemma ulp_arrival_from_sender: "ulp_arrival M ssrc p \<Longrightarrow> from_ulp_sender M ssrc p"
  by (auto simp: ulp_arrival_def from_ulp_sender_def ulp_encoded_parity split: if_splits)

text \<open>
  C7: Whatever part of the media packets and of the encoder's parity packets arrives, in whatever order and
  however often, the decoder returns after each packet, and every packet it holds as received or
  recovered is, byte for byte, the packet that was sent with that number.
\<close>

theorem ulp_session_sound:
  assumes "ulp_received st = []" "\<forall>p \<in> set ps. ulp_arrival M (ulp_protected_media_ssrc st) p"
  shows "\<exists>st' rs. ulp_run ps st [] = Inr (st', rs) \<and> (\<forall>r \<in> set rs. rp_pkt r = M (rp_seq r))"
  using ulp_run_returns [of M "ulp_protected_media_ssrc st" st "[]" ps] assms ulp_arrival_from_sender
  by (fastforce simp: ulp_inv_def genuine_list_def)

text \<open>
  C15: The decoder stops only when nothing more can be recovered: after every packet of a session each
  parity packet that is still buffered misses at least two of the packets it protects.
\<close>

theorem ulp_session_exhaustive:
  assumes "ulp_received st = []" "\<forall>p \<in> set ps. ulp_arrival M (ulp_protected_media_ssrc st) p"
  shows "\<exists>st' rs. ulp_run ps st [] = Inr (st', rs) \<and>
    (\<forall>f \<in> set (ulp_received st'). 2 \<le> length (filter (\<lambda>p. pp_pkt p = None) (up_protected f)))"
  using ulp_run_returns [of M "ulp_protected_media_ssrc st" st "[]" ps] assms ulp_arrival_from_sender
  by (fastforce simp: ulp_inv_def genuine_list_def UlpNumCoveredPacketsMissing_def)

definition ulp_start :: ulp_fec where
  "ulp_start = \<lparr>ulp_ssrc = 9, ulp_protected_media_ssrc = 9, ulp_received = []\<rparr>"

definition ulp_arrivals :: "byte list \<Rightarrow> received_packet list" where
  "ulp_arrivals f = [\<lparr>rcv_ssrc = 9, rcv_seq = 12, rcv_is_fec = False, rcv_pkt = ulp_media 12\<rparr>,
     \<lparr>rcv_ssrc = 9, rcv_seq = 13, rcv_is_fec = True, rcv_pkt = f\<rparr>]"

lemma ulp_arrivals_ok:
  assumes "EncodeFec [ulp_media 10, ulp_media 12] 255 0 False kFecMaskRandom = Inr (0, fecs)" "f \<in> set fecs"
  shows "\<forall>p \<in> set (ulp_arrivals f). ulp_arrival ulp_media (ulp_protected_media_ssrc ulp_start) p"
proof -
  have "ulp_encoded ulp_media 9 f" using assms ulp_media_batch(1) ulp_media_example unfolding ulp_encoded_def by blast
  thus ?thesis by (simp add: ulp_arrivals_def ulp_arrival_def ulp_start_def)
qed

lemma ulp_fecs_example: "\<exists>fecs. EncodeFec [ulp_media 10, ulp_media 12] 255 0 False kFecMaskRandom = Inr (0, fecs) \<and> fecs \<noteq> []"
  using EncodeFec_contract [OF ulp_media_batch(1) _ _ ulp_media_example, of 255 kFecMaskRandom] ulp_num_bounds [of 2 255] ulp_media_batch(2)
  by fastforce

theorem ulp_session_sound_witness:
  "\<exists>fecs st' rs. EncodeFec [ulp_media 10, ulp_media 12] 255 0 False kFecMaskRandom = Inr (0, fecs) \<and> fecs \<noteq> [] \<and>
     ulp_run (ulp_arrivals (hd fecs)) ulp_start [] = Inr (st', rs) \<and> list_all (\<lambda>r. rp_pkt r = ulp_media (rp_seq r)) rs"
proof -
  obtain fecs where f: "EncodeFec [ulp_media 10, ulp_media 12] 255 0 False kFecMaskRandom = Inr (0, fecs)" "fecs \<noteq> []"
    using ulp_fecs_example by blast
  show ?thesis using ulp_session_sound [OF _ ulp_arrivals_ok [OF f(1) hd_in_set [OF f(2)]]] f
    by (auto simp: ulp_start_def list_all_iff)
qed

theorem ulp_session_exhaustive_witness:
  "\<exists>fecs st' rs. EncodeFec [ulp_media 10, ulp_media 12] 255 0 False kFecMaskRandom = Inr (0, fecs) \<and> fecs \<noteq> [] \<and>
     ulp_run (ulp_arrivals (hd fecs)) ulp_start [] = Inr (st', rs) \<and>
     list_all (\<lambda>f. 2 \<le> length (filter (\<lambda>p. pp_pkt p = None) (up_protected f))) (ulp_received st')"
proof -
  obtain fecs where f: "EncodeFec [ulp_media 10, ulp_media 12] 255 0 False kFecMaskRandom = Inr (0, fecs)" "fecs \<noteq> []"
    using ulp_fecs_example by blast
  show ?thesis using ulp_session_exhaustive [OF _ ulp_arrivals_ok [OF f(1) hd_in_set [OF f(2)]]] f
    by (auto simp: ulp_start_def list_all_iff)
qed

end
