(* ===== verification/Rtp_Layout.thy ===== *)
theory Rtp_Layout
  imports Rtp_Packet
begin

text \<open>
  The layout of an RTP packet: what parsing reads of the buffer, which bytes it depends on, and where
  the header extensions lie.  A packet is consistent when its fields are those that parsing its buffer
  gives.
\<close>

subsection \<open>Header extensions\<close>

definition ext_start :: "extension_info \<Rightarrow> nat" where
  "ext_start e = unat (ext_offset e)"

definition ext_end :: "extension_info \<Rightarrow> nat" where
  "ext_end e = unat (ext_offset e) + unat (ext_length e)"

definition ext_header :: "bool \<Rightarrow> nat" where
  "ext_header one_byte = (if one_byte then 1 else 2)"

definition ext_id_at :: "byte list \<Rightarrow> bool \<Rightarrow> nat \<Rightarrow> byte" where
  "ext_id_at data one_byte i = (if one_byte then drop_bit 4 (data ! i) else data ! i)"

definition ext_length_at :: "byte list \<Rightarrow> bool \<Rightarrow> nat \<Rightarrow> byte" where
  "ext_length_at data one_byte i = (if one_byte then 1 + (data ! i AND 0xf) else data ! (i + 1))"

definition ext_break :: "byte list \<Rightarrow> bool \<Rightarrow> nat \<Rightarrow> nat \<Rightarrow> bool" where
  "ext_break data one_byte i room \<longleftrightarrow>
     one_byte \<and> (ext_id_at data one_byte i = 15 \<or> ext_id_at data one_byte i = 0 \<and> ext_length_at data one_byte i \<noteq> 1) \<or>
     ext_header one_byte + unat (ext_length_at data one_byte i) > room"

lemma parse_extensions_step:
  "parse_extensions data one_byte off cap esize entries =
     (let i = off + esize; start = i + ext_header one_byte; len = ext_length_at data one_byte i
      in if cap \<le> esize + ext_header one_byte then (esize, entries)
         else if data ! i = 0 then parse_extensions data one_byte off cap (esize + 1) entries
         else if ext_break data one_byte i (cap - esize) then (esize, entries)
         else if start > 0xffff then (esize, FindOrCreateExtensionInfo (ext_id_at data one_byte i) (\<lambda>e. e) entries)
         else parse_extensions data one_byte off cap (esize + (ext_header one_byte + unat len))
                (FindOrCreateExtensionInfo (ext_id_at data one_byte i)
                   (\<lambda>e. e\<lparr>ext_length := len, ext_offset := of_nat start\<rparr>) entries))"
  by (subst parse_extensions.simps)
    (auto simp: Let_def ext_header_def ext_id_at_def ext_length_at_def ext_break_def)

lemma unat_u16: "n \<le> 0xffff \<Longrightarrow> unat (of_nat n :: u16) = n"
  by (simp add: unat_of_nat)

lemma FindOrCreate_set:
  assumes "e \<in> set (FindOrCreateExtensionInfo i f es)"
  shows "e \<in> set es \<or> (\<exists>e'. e = f e' \<and> (e' \<in> set es \<or> ext_start e' = ext_end e'))"
  using assms by (induction es) (fastforce simp: ext_start_def ext_end_def split: if_splits)+

text \<open>An entry that parsing adds lies behind the position it started from, or is blank.\<close>

lemma parse_extensions_entries:
  assumes "parse_extensions data one_byte off cap esize entries = (esz, ents)" "e \<in> set ents"
  shows "e \<in> set entries \<or> ext_start e = ext_end e \<or>
    (off + esize + ext_header one_byte \<le> ext_start e \<and> ext_end e \<le> off + cap)"
  using assms
proof (induction "cap - esize" arbitrary: esize entries rule: less_induct)
  case less
  let ?i = "off + esize"
  let ?h = "ext_header one_byte"
  let ?len = "ext_length_at data one_byte ?i"
  let ?id = "ext_id_at data one_byte ?i"
  note p = less.prems(1) [unfolded parse_extensions_step [of data one_byte off cap esize entries] Let_def]
  have h: "0 < ?h" by (simp add: ext_header_def)
  consider "cap \<le> esize + ?h \<or> data ! ?i \<noteq> 0 \<and> ext_break data one_byte ?i (cap - esize)"
    | "\<not> cap \<le> esize + ?h" "data ! ?i = 0"
    | "\<not> cap \<le> esize + ?h" "data ! ?i \<noteq> 0" "\<not> ext_break data one_byte ?i (cap - esize)" "?i + ?h > 0xffff"
    | "\<not> cap \<le> esize + ?h" "data ! ?i \<noteq> 0" "\<not> ext_break data one_byte ?i (cap - esize)" "\<not> ?i + ?h > 0xffff" by blast
  thus ?case
  proof cases
    case 1 thus ?thesis using p less.prems(2) by (auto split: if_splits)
  next
    case 2
    have "cap - (esize + 1) < cap - esize" using 2(1) by linarith
    thus ?thesis using p 2 less.hyps [of "esize + 1" entries] less.prems(2) by auto
  next
    case 3 thus ?thesis using p FindOrCreate_set less.prems(2) by fastforce
  next
    case 4
    let ?new = "\<lambda>e. e\<lparr>ext_length := ?len, ext_offset := of_nat (?i + ?h)\<rparr>"
    have n: "unat (of_nat (?i + ?h) :: u16) = ?i + ?h" using 4(4) by (intro unat_u16) simp
    have "?h + unat ?len \<le> cap - esize" using 4(3) by (simp add: ext_break_def)
    hence new: "?i + ?h \<le> ext_start (?new e')" "ext_end (?new e') \<le> off + cap" for e'
      using 4(1) n by (simp_all add: ext_start_def ext_end_def)
    have "e \<in> set (FindOrCreateExtensionInfo ?id ?new entries) \<or> ext_start e = ext_end e \<or>
        (off + (esize + (?h + unat ?len)) + ?h \<le> ext_start e \<and> ext_end e \<le> off + cap)"
      by (rule less.hyps [of "esize + (?h + unat ?len)" "FindOrCreateExtensionInfo ?id ?new entries"]) (use p 4 h less.prems(2) in auto)
    thus ?thesis using FindOrCreate_set [of e ?id ?new entries] new by fastforce
  qed
qed

text \<open>Parsing reads the headers of the extensions only, not their contents.\<close>

lemma parse_extensions_cong:
  assumes "parse_extensions data one_byte off cap esize entries = (esz, ents)"
    and "\<forall>e \<in> set entries. ext_end e \<le> off + esize"
    and "\<And>i. off + esize \<le> i \<Longrightarrow> i < off + cap \<Longrightarrow> \<forall>e \<in> set ents. \<not> (ext_start e \<le> i \<and> i < ext_end e) \<Longrightarrow> data' ! i = data ! i"
  shows "parse_extensions data' one_byte off cap esize entries = (esz, ents)"
  using assms
proof (induction "cap - esize" arbitrary: esize entries rule: less_induct)
  case less
  let ?i = "off + esize"
  let ?h = "ext_header one_byte"
  let ?len = "ext_length_at data one_byte ?i"
  let ?id = "ext_id_at data one_byte ?i"
  let ?new = "\<lambda>e. e\<lparr>ext_length := ?len, ext_offset := of_nat (?i + ?h)\<rparr>"
  have h: "0 < ?h" by (simp add: ext_header_def)
  have same: "data' ! i = data ! i" if "?i \<le> i" "i < ?i + ?h" "esize + ?h < cap" for i
  proof (rule less.prems(3))
    show "\<forall>e \<in> set ents. \<not> (ext_start e \<le> i \<and> i < ext_end e)"
      using parse_extensions_entries [OF less.prems(1)] less.prems(2) that by fastforce
  qed (use that in auto)
  note p = less.prems(1) [unfolded parse_extensions_step [of data one_byte off cap esize entries] Let_def]
  have at: "data' ! ?i = data ! ?i" "ext_length_at data' one_byte ?i = ?len" "ext_id_at data' one_byte ?i = ?id"
    "ext_break data' one_byte ?i (cap - esize) = ext_break data one_byte ?i (cap - esize)" if "esize + ?h < cap"
  proof -
    show b: "data' ! ?i = data ! ?i" using same [of ?i] h that by simp
    show l: "ext_length_at data' one_byte ?i = ?len"
      using b same [of "?i + 1"] that by (auto simp: ext_length_at_def ext_header_def)
    show "ext_id_at data' one_byte ?i = ?id" using b by (simp add: ext_id_at_def)
    thus "ext_break data' one_byte ?i (cap - esize) = ext_break data one_byte ?i (cap - esize)" using l by (simp add: ext_break_def)
  qed
  have pad: "parse_extensions data' one_byte off cap (esize + 1) entries = (esz, ents)"
    if "esize + ?h < cap" "data ! ?i = 0"
    by (rule less.hyps) (use p that h less.prems(2,3) in auto)
  have ext: "parse_extensions data' one_byte off cap (esize + (?h + unat ?len)) (FindOrCreateExtensionInfo ?id ?new entries) = (esz, ents)"
    if "esize + ?h < cap" "data ! ?i \<noteq> 0" "\<not> ext_break data one_byte ?i (cap - esize)" "\<not> ?i + ?h > 0xffff"
  proof (rule less.hyps)
    have "unat (of_nat (?i + ?h) :: u16) = ?i + ?h" using that(4) by (intro unat_u16) simp
    thus "\<forall>e \<in> set (FindOrCreateExtensionInfo ?id ?new entries). ext_end e \<le> off + (esize + (?h + unat ?len))"
      using less.prems(2) FindOrCreate_set [of _ ?id ?new entries] by (fastforce simp: ext_end_def)
  qed (use p that h less.prems(3) in auto)
  show ?case
    unfolding parse_extensions_step [of data' one_byte off cap esize entries] Let_def
    using p at pad ext by (auto simp: not_le split: if_splits)
qed

subsection \<open>Layout\<close>

text \<open>What parsing finds behind the fixed header, independent of the packet object it fills.\<close>

record rtp_layout =
  lay_offset :: nat
  lay_esize :: nat
  lay_entries :: "extension_info list"

definition layout_of :: "byte list \<Rightarrow> rtp_layout option" where
  "layout_of data =
     (let off = kFixedHeaderSize + unat (data ! 0 AND 0x0f) * 4; profile = ReadBigEndian16 data off;
          cap = unat (ReadBigEndian16 data (off + 2)) * 4
      in if length data < kFixedHeaderSize \<or> drop_bit 6 (data ! 0) \<noteq> 2 \<or> length data < off then None
         else if data ! 0 AND 0x10 = 0 then Some \<lparr>lay_offset = off, lay_esize = 0, lay_entries = []\<rparr>
         else if off + 4 > length data \<or> off + 4 + cap > length data then None
         else if profile \<noteq> kOneByteExtensionProfileId \<and>
           profile AND kTwobyteExtensionProfileIdAppBitsFilter \<noteq> kTwoByteExtensionProfileId
         then Some \<lparr>lay_offset = off + 4 + cap, lay_esize = 0, lay_entries = []\<rparr>
         else case parse_extensions data (profile = kOneByteExtensionProfileId) (off + 4) cap 0 [] of
                (esize, entries) \<Rightarrow> Some \<lparr>lay_offset = off + 4 + cap, lay_esize = esize, lay_entries = entries\<rparr>)"

definition padding_of :: "byte list \<Rightarrow> nat \<Rightarrow> byte" where
  "padding_of data off = (if data ! 0 AND 0x20 \<noteq> 0 \<and> off < length data then data ! (length data - 1) else 0)"

definition padding_ok :: "byte list \<Rightarrow> nat \<Rightarrow> bool" where
  "padding_ok data off \<longleftrightarrow>
     (data ! 0 AND 0x20 \<noteq> 0 \<and> off < length data \<longrightarrow> data ! (length data - 1) \<noteq> 0) \<and>
     off + unat (padding_of data off) \<le> length data"

lemma ParseBuffer_layout:
  "ParseBuffer data p =
     (case layout_of data of
        None \<Rightarrow> None
      | Some l \<Rightarrow>
          if padding_ok data (lay_offset l) then
            Some (p\<lparr>marker := ((data ! 1) AND 0x80 \<noteq> 0), payload_type := (data ! 1) AND 0x7f,
                    sequence_number := ReadBigEndian16 data 2, timestamp := ReadBigEndian32 data 4,
                    rtp_ssrc := ReadBigEndian32 data 8, payload_offset := lay_offset l,
                    extensions_size := lay_esize l, extension_entries := lay_entries l,
                    padding_size := padding_of data (lay_offset l),
                    payload_size := length data - lay_offset l - unat (padding_of data (lay_offset l))\<rparr>)
          else None)"
  by (auto simp: ParseBuffer_def layout_of_def padding_of_def padding_ok_def Let_def split: prod.splits)

lemma layout_of_bounds:
  assumes "layout_of data = Some l"
  shows "12 \<le> lay_offset l" "lay_offset l \<le> length data"
    "e \<in> set (lay_entries l) \<Longrightarrow> 16 \<le> ext_start e \<and> ext_end e \<le> lay_offset l \<or> ext_start e = ext_end e"
proof -
  show "12 \<le> lay_offset l" "lay_offset l \<le> length data"
    using assms by (auto simp: layout_of_def Let_def split: if_splits prod.splits)
  show "16 \<le> ext_start e \<and> ext_end e \<le> lay_offset l \<or> ext_start e = ext_end e" if "e \<in> set (lay_entries l)"
    using assms that parse_extensions_entries [where e = e and entries = "[]" and esize = 0]
    by (fastforce simp: layout_of_def Let_def split: if_splits prod.splits)
qed

text \<open>The layout depends on the first byte, the lengths, and what lies outside the contents of extensions.\<close>

lemma layout_of_cong:
  assumes "layout_of data = Some l" "data' ! 0 = data ! 0" "lay_offset l \<le> length data'"
    and "\<And>i. 12 \<le> i \<Longrightarrow> i < lay_offset l \<Longrightarrow> \<forall>e \<in> set (lay_entries l). \<not> (ext_start e \<le> i \<and> i < ext_end e) \<Longrightarrow> data' ! i = data ! i"
  shows "layout_of data' = Some l"
proof -
  define off where "off = kFixedHeaderSize + unat (data ! 0 AND 0x0f) * 4"
  have ends: "ext_end e \<le> i \<or> i < ext_start e \<or> off + 4 \<le> i" if "e \<in> set (lay_entries l)" "data ! 0 AND 0x10 \<noteq> 0" for e i
  proof -
    have "off + 4 \<le> ext_start e \<or> ext_start e = ext_end e"
      using assms(1) that parse_extensions_entries [where e = e and entries = "[]" and esize = 0]
      by (fastforce simp: layout_of_def Let_def off_def split: if_splits prod.splits)
    thus ?thesis by auto
  qed
  show ?thesis
  proof (cases "data ! 0 AND 0x10 = 0")
    case True
    thus ?thesis using assms(1-3) by (auto simp: layout_of_def Let_def split: if_splits)
  next
    case False
    define cap where "cap = unat (ReadBigEndian16 data (off + 2)) * 4"
    have o: "off + 4 + cap = lay_offset l" "12 \<le> off"
      using assms(1) False by (auto simp: layout_of_def Let_def off_def cap_def split: if_splits prod.splits)
    have "data' ! i = data ! i" if "off \<le> i" "i < off + 4" for i
      using assms(4) [of i] ends [of _ i] False that o by fastforce
    hence r: "ReadBigEndian16 data' off = ReadBigEndian16 data off" "unat (ReadBigEndian16 data' (off + 2)) * 4 = cap"
      unfolding cap_def by (simp_all add: ReadBigEndian16_def)
    have o': "kFixedHeaderSize + unat (data' ! 0 AND 0x0f) * 4 = off" using assms(2) by (simp add: off_def)
    note l = assms(1) [unfolded layout_of_def Let_def off_def [symmetric] cap_def [symmetric]]
    let ?ob = "ReadBigEndian16 data off = kOneByteExtensionProfileId"
    let ?skip = "\<not> ?ob \<and> ReadBigEndian16 data off AND kTwobyteExtensionProfileIdAppBitsFilter \<noteq> kTwoByteExtensionProfileId"
    have "parse_extensions data' ?ob (off + 4) cap 0 [] = parse_extensions data ?ob (off + 4) cap 0 []" if "\<not> ?skip"
    proof -
      have d: "parse_extensions data ?ob (off + 4) cap 0 [] = (lay_esize l, lay_entries l)"
        using l that False by (auto split: if_splits prod.splits)
      thus ?thesis using parse_extensions_cong [OF d, of data'] assms(4) o by auto
    qed
    thus ?thesis
      using l assms(2,3) False o unfolding layout_of_def Let_def o' r by (cases ?skip) (auto split: if_splits prod.splits)
  qed
qed

end
