(* ===== verification/Rtp_Fields.thy ===== *)
theory Rtp_Fields
  imports Rtp_Layout
begin

text \<open>
  A packet is consistent when parsing its buffer gives its fields.  Every setter keeps this, so that a
  packet that is sent is parsed on the other side as the packet that was built.
\<close>

definition consistent :: "'a rtp_packet_scheme \<Rightarrow> bool" where
  "consistent p \<longleftrightarrow> ParseBuffer (buffer p) p = Some p"

lemma consistent_iff:
  "consistent p \<longleftrightarrow> (\<exists>l. layout_of (buffer p) = Some l \<and> padding_ok (buffer p) (lay_offset l) \<and>
     marker p = (buffer p ! 1 AND 0x80 \<noteq> 0) \<and> payload_type p = buffer p ! 1 AND 0x7f \<and>
     sequence_number p = ReadBigEndian16 (buffer p) 2 \<and> timestamp p = ReadBigEndian32 (buffer p) 4 \<and>
     rtp_ssrc p = ReadBigEndian32 (buffer p) 8 \<and> payload_offset p = lay_offset l \<and>
     extensions_size p = lay_esize l \<and> extension_entries p = lay_entries l \<and>
     padding_size p = padding_of (buffer p) (lay_offset l) \<and>
     payload_size p = length (buffer p) - lay_offset l - unat (padding_of (buffer p) (lay_offset l)))"
  unfolding consistent_def ParseBuffer_layout by (cases p) (auto split: option.splits)

lemma Parse_consistent:
  assumes "Parse data p = (True, q)"
  shows "consistent q" "buffer q = data" "extensions q = extensions p"
  using assms by (auto simp: Parse_def consistent_def ParseBuffer_layout split: option.splits if_splits)

lemma consistent_bounds:
  assumes "consistent p"
  shows "12 \<le> payload_offset p" "payload_offset p + payload_size p + unat (padding_size p) = length (buffer p)"
    "e \<in> set (extension_entries p) \<Longrightarrow> 16 \<le> ext_start e \<and> ext_end e \<le> payload_offset p \<or> ext_start e = ext_end e"
proof -
  obtain l where l: "layout_of (buffer p) = Some l" "padding_ok (buffer p) (lay_offset l)" "payload_offset p = lay_offset l"
    "extension_entries p = lay_entries l" "padding_size p = padding_of (buffer p) (lay_offset l)"
    "payload_size p = length (buffer p) - lay_offset l - unat (padding_of (buffer p) (lay_offset l))"
    using assms by (auto simp: consistent_iff)
  show "12 \<le> payload_offset p" "payload_offset p + payload_size p + unat (padding_size p) = length (buffer p)"
    using l layout_of_bounds(1,2) [OF l(1)] by (simp_all add: padding_ok_def)
  show "16 \<le> ext_start e \<and> ext_end e \<le> payload_offset p \<or> ext_start e = ext_end e" if "e \<in> set (extension_entries p)"
    using layout_of_bounds(3) [OF l(1)] that l by simp
qed

text \<open>Changes of the fixed header, and changes behind it.\<close>

lemma consistent_header:
  assumes "consistent p" "length d = length (buffer p)" "d ! 0 = buffer p ! 0" "\<And>i. 12 \<le> i \<Longrightarrow> i < length d \<Longrightarrow> d ! i = buffer p ! i"
    and "buffer q = d" "marker q = (d ! 1 AND 0x80 \<noteq> 0)" "payload_type q = d ! 1 AND 0x7f"
    and "sequence_number q = ReadBigEndian16 d 2" "timestamp q = ReadBigEndian32 d 4" "rtp_ssrc q = ReadBigEndian32 d 8"
    and "payload_offset q = payload_offset p" "payload_size q = payload_size p" "padding_size q = padding_size p"
      "extensions_size q = extensions_size p" "extension_entries q = extension_entries p"
  shows "consistent q"
proof -
  obtain l where l: "layout_of (buffer p) = Some l" "padding_ok (buffer p) (lay_offset l)" "payload_offset p = lay_offset l"
    "extensions_size p = lay_esize l" "extension_entries p = lay_entries l" "padding_size p = padding_of (buffer p) (lay_offset l)"
    "payload_size p = length (buffer p) - lay_offset l - unat (padding_of (buffer p) (lay_offset l))"
    using assms(1) by (auto simp: consistent_iff)
  have "layout_of d = Some l"
    by (rule layout_of_cong [OF l(1)]) (use assms(2-4) layout_of_bounds [OF l(1)] in auto)
  moreover have p: "padding_of d (lay_offset l) = padding_of (buffer p) (lay_offset l)"
    using assms(2-4) layout_of_bounds [OF l(1)] by (auto simp: padding_of_def)
  moreover have "padding_ok d (lay_offset l)"
    using assms(2-4) layout_of_bounds [OF l(1)] l(2) unfolding padding_ok_def p by auto
  ultimately show ?thesis using assms(2,5-) l unfolding consistent_iff by auto
qed

lemma consistent_behind:
  assumes "consistent p" "payload_offset p \<le> length d"
    and "\<And>i. i < payload_offset p \<Longrightarrow> \<forall>e \<in> set (extension_entries p). \<not> (ext_start e \<le> i \<and> i < ext_end e) \<Longrightarrow> d ! i = buffer p ! i"
    and "buffer p ! 0 AND 0x20 \<noteq> 0 \<Longrightarrow> length d = length (buffer p) \<and> (\<forall>i \<ge> payload_offset p. i < length d \<longrightarrow> d ! i = buffer p ! i)"
  shows "consistent (p\<lparr>payload_size := length d - payload_offset p - unat (padding_size p), buffer := d\<rparr>)"
proof -
  obtain l where l: "layout_of (buffer p) = Some l" "padding_ok (buffer p) (lay_offset l)" "payload_offset p = lay_offset l"
    "extension_entries p = lay_entries l" "padding_size p = padding_of (buffer p) (lay_offset l)"
    using assms(1) by (auto simp: consistent_iff)
  have fixed: "d ! i = buffer p ! i" if "i < 12" for i
    using assms(3) [of i] consistent_bounds [OF assms(1)] that by fastforce
  have last: "d ! (length d - 1) = buffer p ! (length d - 1)" if "buffer p ! 0 AND 0x20 \<noteq> 0" "lay_offset l < length d"
    using assms(4) that l(3) by simp
  have "layout_of d = Some l"
    by (rule layout_of_cong [OF l(1)]) (use assms(2,3) fixed l in auto)
  moreover have "padding_of d (lay_offset l) = padding_of (buffer p) (lay_offset l)" "padding_ok d (lay_offset l)"
    using last l assms(2,4) fixed [of 0] by (auto simp: padding_ok_def padding_of_def)
  moreover have "ReadBigEndian16 d 2 = ReadBigEndian16 (buffer p) 2" "ReadBigEndian32 d 4 = ReadBigEndian32 (buffer p) 4"
    "ReadBigEndian32 d 8 = ReadBigEndian32 (buffer p) 8" "d ! 1 = buffer p ! 1"
    using fixed by (simp_all add: ReadBigEndian16_def ReadBigEndian32_def)
  ultimately show ?thesis using assms(1) l unfolding consistent_iff by simp
qed

subsection \<open>Setters\<close>

lemma byte_flags:
  "(b OR 0x80) AND 0x80 = 0x80" "(b OR 0x80) AND 0x7f = b AND 0x7f" "(b AND 0x7f) AND 0x80 = 0" "(b AND 0x7f) AND 0x7f = b AND 0x7f" for b :: byte
  by (simp_all add: bit.conj_disj_distrib2 and.assoc)

lemma byte_payload_type:
  fixes b pt :: byte
  assumes "pt \<le> 0x7f"
  shows "((b AND 0x80) OR pt) AND 0x7f = pt" "((b AND 0x80) OR pt) AND 0x80 = b AND 0x80"
proof -
  have "uint (take_bit 7 pt) = uint pt"
    using assms by (simp add: unsigned_take_bit_eq word_le_def take_bit_int_eq_self)
  hence m: "pt AND 0x7f = pt" by (simp add: take_bit_eq_mask mask_eq_exp_minus_1 word_uint_eq_iff)
  moreover have "pt AND 0x80 = 0"
  proof -
    have "pt AND 0x80 = (pt AND 0x7f) AND 0x80" using m by simp
    thus ?thesis by (simp add: and.assoc)
  qed
  ultimately show "((b AND 0x80) OR pt) AND 0x7f = pt" "((b AND 0x80) OR pt) AND 0x80 = b AND 0x80"
    by (simp_all add: bit.conj_disj_distrib2 and.assoc)
qed

lemma Read16_same: "(\<And>j. i \<le> j \<Longrightarrow> j \<le> i + 1 \<Longrightarrow> d ! j = d' ! j) \<Longrightarrow> ReadBigEndian16 d i = ReadBigEndian16 d' i"
  by (simp add: ReadBigEndian16_def)

lemma Read32_same: "(\<And>j. i \<le> j \<Longrightarrow> j \<le> i + 3 \<Longrightarrow> d ! j = d' ! j) \<Longrightarrow> ReadBigEndian32 d i = ReadBigEndian32 d' i"
  by (simp add: ReadBigEndian32_def)

lemma consistent_fields:
  assumes "consistent p"
  shows "12 \<le> length (buffer p)" "marker p = (buffer p ! 1 AND 0x80 \<noteq> 0)" "payload_type p = buffer p ! 1 AND 0x7f"
    "sequence_number p = ReadBigEndian16 (buffer p) 2" "timestamp p = ReadBigEndian32 (buffer p) 4" "rtp_ssrc p = ReadBigEndian32 (buffer p) 8"
  using assms consistent_bounds [OF assms] by (auto simp: consistent_iff)

lemma consistent_index: "consistent p \<Longrightarrow> i < 12 \<Longrightarrow> i < length (buffer p)" "consistent p \<Longrightarrow> buffer p \<noteq> []"
  using consistent_fields(1) by fastforce+

lemma SetMarker_consistent: "consistent p \<Longrightarrow> consistent (SetMarker m p)"
  by (rule consistent_header [of p "buffer (SetMarker m p)"])
    (auto simp: SetMarker_def WriteAt_def Let_def consistent_fields consistent_index byte_flags intro!: Read16_same Read32_same)

lemma SetPayloadType_consistent: "consistent p \<Longrightarrow> pt \<le> 0x7f \<Longrightarrow> consistent (SetPayloadType pt p)"
  by (rule consistent_header [of p "buffer (SetPayloadType pt p)"])
    (auto simp: SetPayloadType_def WriteAt_def consistent_fields consistent_index byte_payload_type intro!: Read16_same Read32_same)

lemma SetSequenceNumber_consistent: "consistent p \<Longrightarrow> consistent (SetSequenceNumber s p)"
  by (rule consistent_header [of p "buffer (SetSequenceNumber s p)"])
    (auto simp: SetSequenceNumber_def consistent_fields consistent_index nth_Write16 Read_Write16 intro!: Read16_same Read32_same)

lemma SetTimestamp_consistent: "consistent p \<Longrightarrow> consistent (SetTimestamp s p)"
  by (rule consistent_header [of p "buffer (SetTimestamp s p)"])
    (auto simp: SetTimestamp_def consistent_fields consistent_index nth_Write32 Read_Write32 intro!: Read16_same Read32_same)

lemma SetSsrc_consistent: "consistent p \<Longrightarrow> consistent (SetSsrc s p)"
  by (rule consistent_header [of p "buffer (SetSsrc s p)"])
    (auto simp: SetSsrc_def consistent_fields consistent_index nth_Write32 Read_Write32 intro!: Read16_same Read32_same)

subsection \<open>Payload and extensions\<close>

lemma nth_SetSize: "i < n \<Longrightarrow> i < length d \<Longrightarrow> SetSize n d ! i = d ! i"
  by (simp add: SetSize_def nth_grow)

lemma length_SetSize [simp]: "length (SetSize n d) = n"
  by (simp add: SetSize_def)

text \<open>\<^verbatim>\<open>SetPayloadSize\<close> is for packets without padding.\<close>

lemma SetPayloadSize_consistent:
  assumes "consistent p" "buffer p ! 0 AND 0x20 = 0"
  shows "consistent (SetPayloadSize n p)" "buffer (SetPayloadSize n p) ! 0 AND 0x20 = 0"
proof -
  have z: "padding_size p = 0" using assms by (auto simp: consistent_iff padding_of_def)
  note b = consistent_bounds(1,2) [OF assms(1)]
  have "consistent (p\<lparr>payload_size := length (SetSize (payload_offset p + n) (buffer p)) - payload_offset p - unat (padding_size p),
      buffer := SetSize (payload_offset p + n) (buffer p)\<rparr>)"
    by (rule consistent_behind [OF assms(1)]) (use b assms(2) in \<open>auto intro!: nth_SetSize\<close>)
  thus "consistent (SetPayloadSize n p)" using z by (simp add: SetPayloadSize_def)
  have "SetSize (payload_offset p + n) (buffer p) ! 0 = buffer p ! 0"
    by (rule nth_SetSize) (use b consistent_index [OF assms(1)] in auto)
  thus "buffer (SetPayloadSize n p) ! 0 AND 0x20 = 0" using assms(2) by (simp add: SetPayloadSize_def)
qed

lemma write_payload_consistent:
  assumes "consistent p" "buffer p ! 0 AND 0x20 = 0" "length d = length (buffer p)" "take (payload_offset p) d = take (payload_offset p) (buffer p)"
  shows "consistent (p\<lparr>buffer := d\<rparr>)"
proof -
  have z: "padding_size p = 0" using assms(1,2) by (auto simp: consistent_iff padding_of_def)
  have n: "d ! i = buffer p ! i" if "i < payload_offset p" for i
    using assms(4) that by (metis nth_take)
  note b = consistent_bounds(2) [OF assms(1)]
  have "consistent (p\<lparr>payload_size := length d - payload_offset p - unat (padding_size p), buffer := d\<rparr>)"
    by (rule consistent_behind [OF assms(1)]) (use b n assms(2,3) in auto)
  moreover have "payload_size p = length d - payload_offset p - unat (padding_size p)" using b assms(3) z by simp
  ultimately have "consistent (p\<lparr>payload_size := payload_size p, buffer := d\<rparr>)" by (simp only:)
  thus ?thesis by simp
qed

lemma zero_range_steps [simp]:
  "zero_range off 0 d = d" "zero_range off (Suc n) d = (zero_range off n d)[off + n := 0]"
  by (simp_all add: zero_range_def)

lemma length_zero_range [simp]: "length (zero_range off n d) = length d"
  by (induction n) auto

lemma zero_range_nth: "i < length d \<Longrightarrow> zero_range off n d ! i = (if off \<le> i \<and> i < off + n then 0 else d ! i)"
proof (induction n)
  case (Suc n) thus ?case by (cases "i = off + n") auto
qed auto

text \<open>The bytes of an extension that the network may change.\<close>

definition mutable_byte :: "extension_map \<Rightarrow> extension_info \<Rightarrow> nat \<Rightarrow> bool" where
  "mutable_byte ids e i \<longleftrightarrow> ext_start e \<le> i \<and> i < ext_end e \<and>
     (GetType ids (ext_id e) \<in> {TransportSequenceNumber, TransportSequenceNumber02, TransmissionTimeOffset, AbsoluteSendTime} \<or>
      GetType ids (ext_id e) = VideoTiming \<and> ext_start e + kPacerExitDeltaOffset \<le> i)"

lemma zero_extension_nth:
  "length (zero_extension ids e d) = length d"
  "i < length d \<Longrightarrow> zero_extension ids e d ! i = (if mutable_byte ids e i then 0 else d ! i)"
  by (auto simp: zero_extension_def mutable_byte_def ext_start_def ext_end_def zero_range_nth split: rtp_extension_type.splits)

lemma ZeroMutable_nth:
  "length (buffer (ZeroMutableExtensions p)) = length (buffer p)"
  "i < length (buffer p) \<Longrightarrow> buffer (ZeroMutableExtensions p) ! i =
     (if \<exists>e \<in> set (extension_entries p). mutable_byte (extensions p) e i then 0 else buffer p ! i)"
proof -
  have *: "length (fold (zero_extension ids) es d) = length d \<and> (i < length d \<longrightarrow>
      fold (zero_extension ids) es d ! i = (if \<exists>e \<in> set es. mutable_byte ids e i then 0 else d ! i))" for ids es d
    by (induction es arbitrary: d) (auto simp: zero_extension_nth)
  show "length (buffer (ZeroMutableExtensions p)) = length (buffer p)" using * by (simp add: ZeroMutableExtensions_def)
  show "buffer (ZeroMutableExtensions p) ! i =
     (if \<exists>e \<in> set (extension_entries p). mutable_byte (extensions p) e i then 0 else buffer p ! i)" if "i < length (buffer p)"
    using * [of "extensions p" "extension_entries p" "buffer p"] that by (auto simp: ZeroMutableExtensions_def)
qed

lemma ZeroMutable_consistent: 
  assumes "consistent p"
  shows "consistent (ZeroMutableExtensions p)"
proof -
  note b = consistent_bounds(2) [OF assms]
  have same: "buffer (ZeroMutableExtensions p) ! i = buffer p ! i"
    if "i < length (buffer p)" "\<forall>e \<in> set (extension_entries p). \<not> (ext_start e \<le> i \<and> i < ext_end e)" for i
    using ZeroMutable_nth(2) [OF that(1)] that(2) by (auto simp: mutable_byte_def)
  have "consistent (p\<lparr>payload_size := length (buffer (ZeroMutableExtensions p)) - payload_offset p - unat (padding_size p),
      buffer := buffer (ZeroMutableExtensions p)\<rparr>)"
  proof (rule consistent_behind [OF assms])
    show "payload_offset p \<le> length (buffer (ZeroMutableExtensions p))" using b ZeroMutable_nth(1) [of p] by simp
    show "buffer (ZeroMutableExtensions p) ! i = buffer p ! i"
      if "i < payload_offset p" "\<forall>e \<in> set (extension_entries p). \<not> (ext_start e \<le> i \<and> i < ext_end e)" for i
      by (rule same) (use b that in auto)
    have "\<not> (ext_start e \<le> i \<and> i < ext_end e)" if "payload_offset p \<le> i" "e \<in> set (extension_entries p)" for i e
      using consistent_bounds(3) [OF assms that(2)] that(1) by auto
    thus "length (buffer (ZeroMutableExtensions p)) = length (buffer p) \<and>
        (\<forall>i \<ge> payload_offset p. i < length (buffer (ZeroMutableExtensions p)) \<longrightarrow> buffer (ZeroMutableExtensions p) ! i = buffer p ! i)"
      using same ZeroMutable_nth(1) [of p] by auto
  qed
  moreover have "payload_size p = length (buffer (ZeroMutableExtensions p)) - payload_offset p - unat (padding_size p)"
    using b ZeroMutable_nth(1) [of p] by simp
  ultimately have "consistent (p\<lparr>payload_size := payload_size p, buffer := buffer (ZeroMutableExtensions p)\<rparr>)" by (simp only:)
  thus ?thesis by (simp add: ZeroMutableExtensions_def)
qed

end
