(* ===== verification/Red_Transport.thy ===== *)
theory Red_Transport
  imports Fec_Generator Fec_Receiver Rtp_Fields
begin

text \<open>
  RED encapsulation from the sender to the receiver: media packets are wrapped in \<^verbatim>\<open>rtp_sender_video.cc\<close>,
  unwrapped for the FEC generator in \<^verbatim>\<open>rtp_sender_egress.cc\<close>, and unwrapped by the receiver; parity
  packets are wrapped by the generator.  Both ends of the FEC see the same media packets, and the
  decoder gets the parity packets of the encoder.
\<close>

definition BuildRedPayload :: "rtp_packet_to_send \<Rightarrow> rtp_packet_to_send \<Rightarrow> rtp_packet_to_send" where
  "BuildRedPayload media_packet red =
     (let red = AllocatePayload (kRedForFecHeaderLength + payload_size media_packet) red
      in red\<lparr>buffer := write_range (payload_offset red)
           (payload_type media_packet # payload media_packet) (buffer red)\<rparr>)"

definition red_media :: "byte \<Rightarrow> rtp_packet_to_send \<Rightarrow> rtp_packet_to_send" where
  "red_media red_pt packet =
     (let red = SetPayloadType red_pt (BuildRedPayload packet packet)
      in red\<lparr>is_red := True, packet_type := Some kVideo, allow_retransmission := allow_retransmission packet\<rparr>)"

definition unpack_red :: "rtp_packet_to_send \<Rightarrow> rtp_packet_to_send" where
  "unpack_red packet =
     (let unpacked = SetPayloadType (buffer packet ! headers_size packet) packet;
          unpacked = SetPayloadSize (payload_size packet - 1) unpacked
      in unpacked\<lparr>buffer := write_range (payload_offset unpacked) (drop 1 (payload packet)) (buffer unpacked)\<rparr>)"

subsection \<open>Buffers\<close>

definition header :: "'a rtp_packet_scheme \<Rightarrow> byte list" where
  "header p = take (payload_offset p) (buffer p)"

text \<open>A packet that can be wrapped: its fields agree with its buffer and it has no padding.\<close>

definition sendable :: "'a rtp_packet_scheme \<Rightarrow> bool" where
  "sendable p \<longleftrightarrow> consistent p \<and> buffer p ! 0 AND 0x20 = 0"

lemma sendable_parts:
  assumes "sendable p"
  shows "buffer p = header p @ payload p" "length (header p) = payload_offset p" "12 \<le> payload_offset p"
    "length (payload p) = payload_size p" "padding_size p = 0"
proof -
  have c: "consistent p" and z: "padding_size p = 0"
    using assms by (auto simp: sendable_def consistent_iff padding_of_def)
  note b = consistent_bounds(1,2) [OF c]
  show "buffer p = header p @ payload p" using b z by (simp add: header_def payload_def)
  show "length (header p) = payload_offset p" "12 \<le> payload_offset p" "length (payload p) = payload_size p" "padding_size p = 0"
    using b z by (simp_all add: header_def payload_def)
qed

lemma SetPayloadSize_sendable: "sendable p \<Longrightarrow> sendable (SetPayloadSize n p)"
  using SetPayloadSize_consistent by (auto simp: sendable_def)

lemma SetPayloadSize_buffer:
  assumes "sendable p"
  shows "buffer (SetPayloadSize n p) = header p @ take n (payload p) @ replicate (n - payload_size p) 0"
proof -
  note s = sendable_parts [OF assms]
  have "SetSize (payload_offset p + n) (header p @ payload p) = header p @ take n (payload p) @ replicate (n - payload_size p) 0"
    using s(2,4) by (simp add: SetSize_def grow_def)
  thus ?thesis using s(1) by (simp add: SetPayloadSize_def)
qed

lemma SetPayloadType_buffer:
  assumes "12 \<le> length h" "buffer p = h @ d"
  shows "buffer (SetPayloadType pt p) = h[1 := (h ! 1 AND 0x80) OR pt] @ d"
  using assms by (simp add: SetPayloadType_def WriteAt_def list_update_append nth_append)

lemma write_range_append: "length h = off \<Longrightarrow> length xs = length d \<Longrightarrow> write_range off xs (h @ d) = h @ xs"
  by (simp add: write_range_def)


lemma SetPayloadType_sendable: "sendable p \<Longrightarrow> pt \<le> 0x7f \<Longrightarrow> sendable (SetPayloadType pt p)"
  using SetPayloadType_consistent [of p pt] by (simp add: sendable_def SetPayloadType_def WriteAt_def)

lemma SetMarker_sendable: "sendable p \<Longrightarrow> sendable (SetMarker m p)"
  using SetMarker_consistent [of p m] by (simp add: sendable_def SetMarker_def WriteAt_def Let_def)

text \<open>Filling the whole payload.\<close>

lemma fill_payload_sendable:
  assumes "sendable p" "length xs = payload_size p"
  shows "sendable (p\<lparr>buffer := write_range (payload_offset p) xs (buffer p)\<rparr>)"
    "write_range (payload_offset p) xs (buffer p) = header p @ xs"
proof -
  note s = sendable_parts [OF assms(1)]
  show w: "write_range (payload_offset p) xs (buffer p) = header p @ xs"
    using s assms(2) write_range_append [of "header p" "payload_offset p" xs "payload p"] by simp
  have "consistent (p\<lparr>buffer := header p @ xs\<rparr>)"
  proof (rule write_payload_consistent)
    show "length (header p @ xs) = length (buffer p)" using s(2,4) assms(2) arg_cong [OF s(1), of length] by simp
    show "take (payload_offset p) (header p @ xs) = take (payload_offset p) (buffer p)"
      using s(2) unfolding header_def [symmetric] by simp
  qed (use assms(1) in \<open>simp_all add: sendable_def\<close>)
  moreover have "(header p @ xs) ! 0 = buffer p ! 0"
    using s(2,3) arg_cong [OF s(1), of "\<lambda>b. b ! 0"] by (simp add: nth_append)
  ultimately show "sendable (p\<lparr>buffer := write_range (payload_offset p) xs (buffer p)\<rparr>)"
    using assms(1) by (simp add: w sendable_def)
qed

text \<open>What the receiver parses of a packet that was sent.\<close>

lemma Parse_sent:
  assumes "consistent p"
  obtains q where "Parse (buffer p) q0 = (True, q)" "buffer q = buffer p" "sequence_number q = sequence_number p"
    "rtp_ssrc q = rtp_ssrc p" "payload_offset q = payload_offset p" "payload_size q = payload_size p"
    "padding_size q = padding_size p" "marker q = marker p" "extensions q = extensions q0" "rtp_packet.more q = rtp_packet.more q0"
proof -
  obtain l where l: "layout_of (buffer p) = Some l" "padding_ok (buffer p) (lay_offset l)"
    using assms by (auto simp: consistent_iff)
  have "\<exists>q. Parse (buffer p) q0 = (True, q) \<and> buffer q = buffer p \<and> sequence_number q = sequence_number p \<and>
      rtp_ssrc q = rtp_ssrc p \<and> payload_offset q = payload_offset p \<and> payload_size q = payload_size p \<and>
      padding_size q = padding_size p \<and> marker q = marker p \<and> extensions q = extensions q0 \<and> rtp_packet.more q = rtp_packet.more q0"
    using l assms by (auto simp: Parse_def ParseBuffer_layout consistent_iff)
  thus ?thesis using that by blast
qed

subsection \<open>Wrapping\<close>

lemma header_eq: "buffer p = h @ d \<Longrightarrow> length h = payload_offset p \<Longrightarrow> header p = h"
  by (simp add: header_def)

lemma payload_eq: "buffer p = h @ d \<Longrightarrow> length h = payload_offset p \<Longrightarrow> length d = payload_size p \<Longrightarrow> payload p = d"
  by (simp add: payload_def)

lemma red_packet_sendable:
  fixes fec_pt :: int and fec :: "byte list"
  assumes "sendable p" "0 \<le> red_pt" "red_pt \<le> 127"
  defines "r \<equiv> red_packet red_pt fec_pt (SetPayloadSize 0 p) fec"
  shows "sendable r" "payload r = word_of_int fec_pt # fec" "sequence_number r = sequence_number p" "rtp_ssrc r = rtp_ssrc p"
    "payload_offset r = payload_offset p" "payload_size r = length fec + 1"
proof -
  define q where "q = SetPayloadSize (1 + length fec) (SetMarker False (SetPayloadType (word_of_int red_pt) (SetPayloadSize 0 p)))"
  have pt: "word_of_int red_pt \<le> (0x7f :: byte)"
    using assms(2,3) by (simp add: word_le_def unsigned_of_int take_bit_int_eq_self)
  have q: "sendable q"
    unfolding q_def by (intro SetPayloadSize_sendable SetMarker_sendable SetPayloadType_sendable assms(1) pt)
  have f: "payload_size q = 1 + length fec" "sequence_number q = sequence_number p" "rtp_ssrc q = rtp_ssrc p"
    "payload_offset q = payload_offset p"
    by (simp_all add: q_def SetPayloadSize_def SetMarker_def SetPayloadType_def WriteAt_def Let_def)
  have r: "r = q\<lparr>buffer := write_range (payload_offset q) (word_of_int fec_pt # fec) (buffer q),
      packet_type := Some kForwardErrorCorrection, allow_retransmission := False, is_red := True, fec_protect_packet := False\<rparr>"
    unfolding r_def red_packet_def q_def by (simp add: Let_def)
  note w = fill_payload_sendable [OF q, of "word_of_int fec_pt # fec"]
  show "sendable r" using w(1) f(1) by (simp add: r sendable_def consistent_iff)
  show "payload r = word_of_int fec_pt # fec"
    by (rule payload_eq [of _ "header q"]) (use w(2) f(1) sendable_parts [OF q] in \<open>simp_all add: r\<close>)
  show "sequence_number r = sequence_number p" "rtp_ssrc r = rtp_ssrc p" "payload_offset r = payload_offset p" "payload_size r = length fec + 1"
    using f by (simp_all add: r)
qed

lemma byte_split: "(b AND 0x80) OR (b AND 0x7f) = b" "(b AND 0x80) + (b AND 0x7f) = b" for b :: byte
proof -
  have "(b AND 0x80) OR (b AND 0x7f) = b AND (0x80 OR 0x7f)" by (simp only: bit.conj_disj_distrib)
  also have "(0x80 OR 0x7f :: byte) = -1" by code_simp
  also have "b AND -1 = b" by simp
  finally show o: "(b AND 0x80) OR (b AND 0x7f) = b" .
  have "\<not> (bit (0x80 :: byte) n \<and> bit (0x7f :: byte) n)" for n
    using bit_and_iff [of "0x80 :: byte" "0x7f" n] by simp
  hence "(b AND 0x80) + (b AND 0x7f) = (b AND 0x80) OR (b AND 0x7f)"
    by (intro disjunctive_add) (auto simp: bit_and_iff)
  thus "(b AND 0x80) + (b AND 0x7f) = b" using o by simp
qed

lemma red_media_sendable:
  assumes "sendable p" "red_pt \<le> 0x7f"
  defines "r \<equiv> red_media red_pt p"
  shows "sendable r" "payload r = payload_type p # payload p" "header r = (header p)[1 := (header p ! 1 AND 0x80) OR red_pt]"
    "sequence_number r = sequence_number p" "rtp_ssrc r = rtp_ssrc p" "payload_offset r = payload_offset p"
    "payload_size r = payload_size p + 1"
proof -
  note s = sendable_parts [OF assms(1)]
  define q where "q = AllocatePayload (1 + payload_size p) p"
  have q: "sendable q" unfolding q_def AllocatePayload_def by (intro SetPayloadSize_sendable assms(1))
  have f: "payload_size q = 1 + payload_size p" "sequence_number q = sequence_number p" "rtp_ssrc q = rtp_ssrc p"
    "payload_offset q = payload_offset p"
    by (simp_all add: q_def SetPayloadSize_def AllocatePayload_def)
  have h: "header q = header p"
  proof (rule header_eq)
    have z: "sendable (SetPayloadSize 0 p)" by (intro SetPayloadSize_sendable assms(1))
    have "header (SetPayloadSize 0 p) = header p"
      by (rule header_eq [OF SetPayloadSize_buffer [OF assms(1), of 0]]) (use s(2) in \<open>simp add: SetPayloadSize_def\<close>)
    thus "buffer q = header p @ take (1 + payload_size p) (payload (SetPayloadSize 0 p)) @ replicate (1 + payload_size p - 0) 0"
      unfolding q_def AllocatePayload_def using SetPayloadSize_buffer [OF z, of "1 + payload_size p"] by (simp add: SetPayloadSize_def)
  qed (use s(2) f(4) in simp)
  define w where "w = q\<lparr>buffer := write_range (payload_offset q) (payload_type p # payload p) (buffer q)\<rparr>"
  have w: "sendable w" "buffer w = header p @ payload_type p # payload p"
    using fill_payload_sendable [OF q, of "payload_type p # payload p"] f(1) s(4) h by (simp_all add: w_def)
  have r: "r = (SetPayloadType red_pt w)\<lparr>is_red := True, packet_type := Some kVideo, allow_retransmission := allow_retransmission p\<rparr>"
    unfolding r_def red_media_def BuildRedPayload_def w_def q_def by (simp add: Let_def)
  show "sendable r" using SetPayloadType_sendable [OF w(1) assms(2)] by (simp add: r sendable_def consistent_iff)
  have b: "buffer r = (header p)[1 := (header p ! 1 AND 0x80) OR red_pt] @ payload_type p # payload p"
    using SetPayloadType_buffer [OF _ w(2), of red_pt] s(2,3) by (simp add: r)
  show o: "payload_offset r = payload_offset p" "sequence_number r = sequence_number p" "rtp_ssrc r = rtp_ssrc p"
    "payload_size r = payload_size p + 1"
    using f by (simp_all add: r w_def SetPayloadType_def WriteAt_def)
  show "payload r = payload_type p # payload p" by (rule payload_eq [OF b]) (use s o in simp_all)
  show "header r = (header p)[1 := (header p ! 1 AND 0x80) OR red_pt]" by (rule header_eq [OF b]) (use s o in simp)
qed

text \<open>The sender's FEC generator is given the packet that was wrapped.\<close>

lemma sendable_payload_type:
  assumes "sendable p"
  shows "payload_type p = header p ! 1 AND 0x7f" "payload_type p \<le> 0x7f"
proof -
  note s = sendable_parts [OF assms]
  have "buffer p ! 1 = header p ! 1" using s(2,3) arg_cong [OF s(1), of "\<lambda>b. b ! 1"] by (simp add: nth_append)
  thus t: "payload_type p = header p ! 1 AND 0x7f" using assms consistent_fields(3) [of p] by (simp add: sendable_def)
  show "payload_type p \<le> 0x7f" unfolding t by (rule word_and_le1)
qed

lemma red_header_restored:
  assumes "sendable p" "red_pt \<le> 0x7f"
  shows "(header (red_media red_pt p))[1 := (header (red_media red_pt p) ! 1 AND 0x80) OR payload_type p] = header p"
    "(header (red_media red_pt p))[1 := (header (red_media red_pt p) ! 1 AND 0x80) + payload_type p] = header p"
proof -
  have l: "1 < length (header p)" using sendable_parts [OF assms(1)] by simp
  hence "header (red_media red_pt p) ! 1 AND 0x80 = header p ! 1 AND 0x80"
    using red_media_sendable(3) [OF assms] byte_payload_type(2) [OF assms(2)] by simp
  thus "(header (red_media red_pt p))[1 := (header (red_media red_pt p) ! 1 AND 0x80) OR payload_type p] = header p"
    "(header (red_media red_pt p))[1 := (header (red_media red_pt p) ! 1 AND 0x80) + payload_type p] = header p"
    using l by (simp_all add: red_media_sendable(3) [OF assms] sendable_payload_type [OF assms(1)] byte_split)
qed

lemma unpack_red_media:
  assumes "sendable p" "red_pt \<le> 0x7f"
  defines "u \<equiv> unpack_red (red_media red_pt p)"
  shows "buffer u = buffer p" "sendable u" "payload_type u = payload_type p" "payload_size u = payload_size p"
    "payload_offset u = payload_offset p" "sequence_number u = sequence_number p" "rtp_ssrc u = rtp_ssrc p"
    "marker u = marker p" "is_key_frame u = is_key_frame p"
proof -
  define r where "r = red_media red_pt p"
  note r = red_media_sendable [OF assms(1,2), folded r_def]
  note s = sendable_parts [OF assms(1)] sendable_parts [OF r(1)]
  have pt: "buffer r ! payload_offset r = payload_type p"
    using s(7) arg_cong [OF s(6), of "\<lambda>b. b ! payload_offset r"] by (simp add: r(2) nth_append)
  define t where "t = SetPayloadType (payload_type p) r"
  have t: "sendable t" "buffer t = header p @ payload_type p # payload p"
    using SetPayloadType_sendable [OF r(1) sendable_payload_type(2) [OF assms(1)]]
      SetPayloadType_buffer [of "header r" r "payload r" "payload_type p"] s red_header_restored(1) [OF assms(1,2), folded r_def]
    by (simp_all add: t_def r(2))
  have f: "payload_offset t = payload_offset p" "payload_size t = payload_size p + 1"
    by (simp_all add: t_def SetPayloadType_def WriteAt_def r)
  have h: "header t = header p" by (rule header_eq [OF t(2)]) (use s(2) f in simp)
  define z where "z = SetPayloadSize (payload_size p) t"
  have z: "sendable z" "buffer z = header p @ take (payload_size p) (payload t)"
    unfolding z_def by (rule SetPayloadSize_sendable [OF t(1)]) (use SetPayloadSize_buffer [OF t(1), of "payload_size p"] f h in simp)
  have zf: "payload_size z = payload_size p" "payload_offset z = payload_offset p" using f by (simp_all add: z_def SetPayloadSize_def)
  have "header z = header p" by (rule header_eq [OF z(2)]) (use s(2) zf in simp)
  hence w: "sendable (z\<lparr>buffer := write_range (payload_offset z) (payload p) (buffer z)\<rparr>)"
    "write_range (payload_offset z) (payload p) (buffer z) = buffer p"
    using fill_payload_sendable [OF z(1), of "payload p"] s(1,4) zf by simp_all
  have u: "u = z\<lparr>buffer := buffer p\<rparr>"
    unfolding u_def unpack_red_def r_def [symmetric] pt r(2,7) Let_def using w(2) by (simp add: z_def t_def r(7))
  show "buffer u = buffer p" "sendable u" using w by (simp_all add: u)
  show "payload_type u = payload_type p" "payload_size u = payload_size p" "payload_offset u = payload_offset p"
    "sequence_number u = sequence_number p" "rtp_ssrc u = rtp_ssrc p"
    using zf r by (simp_all add: u z_def t_def SetPayloadSize_def SetPayloadType_def WriteAt_def)
  show "marker u = marker p" "is_key_frame u = is_key_frame p"
    by (simp_all add: u z_def t_def r_def red_media_def BuildRedPayload_def AllocatePayload_def SetPayloadSize_def SetPayloadType_def WriteAt_def Let_def)
qed

subsection \<open>Receiving\<close>

lemma AddReceived_sent:
  assumes "sendable r" "Parse (buffer r) (RtpPacketReceived ids) = (True, q)" "payload r = b # rest" "b \<le> 0x7f"
    and "rtp_ssrc r = receiver_ssrc st" "length (buffer r) \<le> IP_PACKET_SIZE" "uint b = receiver_fec_payload_type st \<Longrightarrow> rest \<noteq> []"
  shows "fst (AddReceivedRedPacket now q st)"
    "received_packets (snd (AddReceivedRedPacket now q st)) = received_packets st @
       [\<lparr>rcv_ssrc = rtp_ssrc r, rcv_seq = sequence_number r, rcv_is_fec = (uint b = receiver_fec_payload_type st),
         rcv_pkt = (if uint b = receiver_fec_payload_type st then rest
                    else (header r)[1 := (header r ! 1 AND 0x80) + b] @ rest),
         is_recovered = False, rcv_extensions = ids\<rparr>]"
proof -
  note s = sendable_parts [OF assms(1)]
  have "consistent r" using assms(1) by (simp add: sendable_def)
  then obtain q' where q': "Parse (buffer r) (RtpPacketReceived ids) = (True, q')" "buffer q' = buffer r"
    "sequence_number q' = sequence_number r" "rtp_ssrc q' = rtp_ssrc r" "payload_offset q' = payload_offset r"
    "payload_size q' = payload_size r" "padding_size q' = padding_size r" "extensions q' = extensions (RtpPacketReceived ids)"
    "rtp_packet.more q' = rtp_packet.more (RtpPacketReceived ids)"
    by (rule Parse_sent [of r "RtpPacketReceived ids"]) blast
  have "q' = q" using q'(1) assms(2) by simp
  note q = q' [unfolded this]
  have e: "extensions q = ids" using q(8) by (simp add: RtpPacketReceived_def Clear_def)
  have rc: "recovered q = False" using q(9) by (cases q) (simp add: RtpPacketReceived_def Clear_def)
  have lb: "length (buffer r) = payload_offset r + payload_size r" using s(2,4) arg_cong [OF s(1), of length] by simp
  have "payload q = payload r" using q(2,5,6) by (simp add: payload_def)
  hence z: "rtp_size q = length (buffer r)" "payload q = b # rest" "payload_size q = Suc (length rest)"
    using q(5-7) s(4,5) lb assms(3) by (simp_all add: rtp_size_def)
  have "drop (Suc (payload_offset r)) (buffer r) = rest"
    using s(2) arg_cong [OF s(1), of "drop (Suc (payload_offset r))"] by (simp add: assms(3))
  hence buf: "take (payload_offset q) (buffer q) = header r" "drop (Suc (payload_offset q)) (buffer q) = rest"
    using q(2,5) by (simp_all add: header_def)
  have m: "b AND 0x7f = b" "b AND 0x80 = 0" using byte_payload_type [OF assms(4), of 0] by simp_all
  have c: "red_content b is_fec q = (if is_fec then rest else (header r)[1 := (header r ! 1 AND 0x80) + b] @ rest)" for is_fec
    using z(1,3) buf q(5) s(4) lb assms(3) by (simp add: red_content_def Let_def)
  have "(header r)[1 := (header r ! 1 AND 0x80) + b] \<noteq> []" using s(2,3) by auto
  thus "fst (AddReceivedRedPacket now q st)"
    "received_packets (snd (AddReceivedRedPacket now q st)) = received_packets st @
       [\<lparr>rcv_ssrc = rtp_ssrc r, rcv_seq = sequence_number r, rcv_is_fec = (uint b = receiver_fec_payload_type st),
         rcv_pkt = (if uint b = receiver_fec_payload_type st then rest
                    else (header r)[1 := (header r ! 1 AND 0x80) + b] @ rest),
         is_recovered = False, rcv_extensions = ids\<rparr>]"
    using assms(5-7) q z m c e rc by (auto simp: AddReceivedRedPacket_def Let_def)
qed

end
