(* ===== verification/RS_Generator.thy ===== *)
theory RS_Generator
  imports Red_Transport
begin

text \<open>
  The block generator of \<^verbatim>\<open>RSfec_generator.cc\<close> over any block encoder: its state invariant, and that it
  neither fails a check nor divides by zero on any stream of packets whose sequence numbers move.
\<close>

subsection \<open>What the encoder can be given\<close>

text \<open>A batch as the generator collects it: RTP packets, neighbours with different sequence numbers.\<close>

definition collected_batch :: "byte list list \<Rightarrow> bool" where
  "collected_batch media \<longleftrightarrow> media \<noteq> [] \<and> (\<forall>p \<in> set media. 12 \<le> length p \<and> length p < 65536) \<and>
     successively (\<lambda>p q. ParseSequenceNumber p \<noteq> ParseSequenceNumber q) media"

lemma successively_snoc:
  "successively P (xs @ [x]) \<longleftrightarrow> successively P xs \<and> (xs \<noteq> [] \<longrightarrow> P (last xs) x)"
  by (auto simp: successively_append_iff)

lemma collected_batch_snoc:
  "collected_batch (media @ [p]) \<longleftrightarrow> (media \<noteq> [] \<longrightarrow> collected_batch media \<and> ParseSequenceNumber (last media) \<noteq> ParseSequenceNumber p) \<and>
     12 \<le> length p \<and> length p < 65536"
  by (auto simp: collected_batch_def successively_snoc)

text \<open>When the mask can be built, the sequence numbers lie in order within 32 of the first one.\<close>

lemma packet_mask_ascending:
  assumes "packet_mask (p # rest) (ParseSequenceNumber p) (unat (ParseSequenceNumber p - s)) m = Some r"
    and "successively (\<lambda>p q. ParseSequenceNumber p \<noteq> ParseSequenceNumber q) (p # rest)" "unat (ParseSequenceNumber p - s) < 32"
  shows "sorted_wrt (<) (map (\<lambda>p. unat (ParseSequenceNumber p - s)) (p # rest)) \<and>
    (\<forall>q \<in> set (p # rest). unat (ParseSequenceNumber q - s) < 32)"
  using assms
proof (induction rest arbitrary: p m)
  case (Cons q rest)
  let ?o = "\<lambda>p. unat (ParseSequenceNumber p - s)"
  let ?d = "unat (ParseSequenceNumber q - ParseSequenceNumber p)"
  have lt: "?o p + ?d < 32" and pm: "packet_mask (q # rest) (ParseSequenceNumber q) (?o p + ?d) (m[?o p := 1]) = Some r"
    using Cons.prems(1) by (auto simp: Let_def split: if_splits)
  have "ParseSequenceNumber q - s = (ParseSequenceNumber p - s) + (ParseSequenceNumber q - ParseSequenceNumber p)" by simp
  hence o: "?o q = ?o p + ?d" using lt unat_word_ariths(1) [of "ParseSequenceNumber p - s" "ParseSequenceNumber q - ParseSequenceNumber p"] by simp
  have "0 < ?d" using Cons.prems(2) by (auto simp: unat_gt_0)
  thus ?case using Cons.IH [of q "m[?o p := 1]"] pm o lt Cons.prems(2,3) by fastforce
qed simp

lemma packet_mask_wf_media:
  assumes "collected_batch media" "length media \<le> 32"
    and "packet_mask media (ParseSequenceNumber (hd media)) 0 (replicate 32 0) = Some r"
  shows "wf_media media"
proof -
  obtain p rest where m: "media = p # rest" using assms(1) by (cases media) (auto simp: collected_batch_def)
  have "sorted_wrt (<) (map (\<lambda>q. unat (ParseSequenceNumber q - ParseSequenceNumber p)) (p # rest)) \<and>
      (\<forall>q \<in> set (p # rest). unat (ParseSequenceNumber q - ParseSequenceNumber p) < 32)"
    by (rule packet_mask_ascending [where m = "replicate 32 0"]) (use assms m in \<open>auto simp: collected_batch_def\<close>)
  thus ?thesis using assms(1,2) unfolding m wf_media_def collected_batch_def offsets_def seq_offset_def [abs_def] by auto
qed

context galois_ring
begin

text \<open>The Reed-Solomon encoder returns for every such batch; what it returns protects the batch.\<close>

lemma EncodeRSFec_returns:
  assumes "collected_batch media" "num_fec_packets params (length media) pf = int k" "k \<le> 32 \<or> 32 < length media"
  shows "\<exists>c' ret fecs. EncodeRSFec gmul params (uint (gf_pow gmul 2 c)) media pf = Inr (uint (gf_pow gmul 2 c'), ret, fecs) \<and>
     (fecs \<noteq> [] \<longrightarrow> ret = 0 \<and> wf_media media \<and> length fecs = k) \<and>
     (\<forall>i < length fecs. parity_packet gmul media (gf_pow gmul 2 (c + i)) (fecs ! i))"
proof (cases "length media > 32 \<or> k = 0 \<or> packet_mask media (ParseSequenceNumber (hd media)) 0 (replicate 32 0) = None")
  case True
  thus ?thesis using assms by (auto simp: EncodeRSFec_def Let_def collected_batch_def)
next
  case False
  hence k: "0 < k" "length media \<le> 32" "k \<le> 32" using assms(3) by auto
  have wf: "wf_media media" using False packet_mask_wf_media [OF assms(1)] by auto
  have "max_payload media < 65536" using assms(1) by (auto simp: max_payload_def collected_batch_def)
  from EncodeRSFec_correct [OF wf this assms(2) k(1,3)] wf show ?thesis by metis
qed

end

subsection \<open>The generator over any block encoder\<close>

definition rate_ok :: "fec_protection_params \<Rightarrow> bool" where
  "rate_ok p \<longleftrightarrow> 0 \<le> fec_rate p \<and> fec_rate p \<le> 255"

text \<open>The state between calls; \<open>prev\<close> is the sequence number of the last packet that was added,
  and \<open>sent\<close> holds for the packets of the stream.\<close>

definition gen_inv :: "(byte list \<Rightarrow> bool) \<Rightarrow> (byte list list \<Rightarrow> byte list \<Rightarrow> bool) \<Rightarrow> nat \<Rightarrow> u16 option \<Rightarrow> fec_generator \<Rightarrow> bool" where
  "gen_inv sent protects max_media prev st \<longleftrightarrow>
     length (media_packets st) \<le> max_media \<and> 0 \<le> num_protected_frames st \<and>
     (media_packets st \<noteq> [] \<longrightarrow> collected_batch (media_packets st) \<and> (\<forall>p \<in> set (media_packets st). sent p) \<and>
        (\<exists>p. last_media_packet st = Some p \<and> sendable p \<and> buffer p = last (media_packets st))) \<and>
     (media_packets st \<noteq> [] \<and> length (media_packets st) < max_media \<longrightarrow> prev = Some (ParseSequenceNumber (last (media_packets st)))) \<and>
     rate_ok (fst (current_params st)) \<and> rate_ok (snd (current_params st)) \<and>
     (\<forall>d k. pending_params st = Some (d, k) \<longrightarrow> rate_ok d \<and> rate_ok k) \<and>
     (generated_fec_packets st \<noteq> [] \<longrightarrow> media_packets st \<noteq> []) \<and> (\<forall>f \<in> set (generated_fec_packets st). protects (media_packets st) f)"

definition protectable :: "(byte list \<Rightarrow> bool) \<Rightarrow> rtp_packet_to_send \<Rightarrow> bool" where
  "protectable sent p \<longleftrightarrow> sendable p \<and> length (buffer p) < 65536 \<and> sent (buffer p)"

lemma protectable_seq: "protectable sent p \<Longrightarrow> ParseSequenceNumber (buffer p) = sequence_number p" "protectable sent p \<Longrightarrow> 12 \<le> length (buffer p)"
  by (simp_all add: protectable_def sendable_def Parse_Read16 consistent_fields)

lemma apply_pending_inv:
  assumes "gen_inv sent protects max_media prev st"
  shows "gen_inv sent protects max_media prev (apply_pending_params st)" "generated_fec_packets (apply_pending_params st) = generated_fec_packets st"
  using assms by (auto simp: gen_inv_def apply_pending_params_def Let_def split: option.splits)

lemma add_media_inv:
  assumes "gen_inv sent protects max_media prev st" "generated_fec_packets st = []" "protectable sent p" "prev \<noteq> Some (sequence_number p)" "0 < max_media"
  shows "gen_inv sent protects max_media (Some (sequence_number p)) (add_media_packet max_media p st)"
    "generated_fec_packets (add_media_packet max_media p st) = []" "media_packets (add_media_packet max_media p st) \<noteq> []"
proof -
  have "collected_batch (media_packets st @ [buffer p])" if "length (media_packets st) < max_media"
    using assms(1,3,4) that protectable_seq [OF assms(3)] by (auto simp: gen_inv_def collected_batch_snoc protectable_def)
  thus "gen_inv sent protects max_media (Some (sequence_number p)) (add_media_packet max_media p st)"
    using assms protectable_seq [OF assms(3)] by (auto simp: gen_inv_def add_media_packet_def Let_def protectable_def)
  show "generated_fec_packets (add_media_packet max_media p st) = []" "media_packets (add_media_packet max_media p st) \<noteq> []"
    using assms(2,5) by (auto simp: add_media_packet_def Let_def)
qed

lemma should_generate_returns: "media_packets st \<noteq> [] \<Longrightarrow> \<exists>b. should_generate num_fec p st = Inr b"
  by (auto simp: should_generate_def ExcessOverheadBelowMax_def Overhead_def)

lemma GetFecPackets_inv:
  assumes "gen_inv sent protects max_media prev st"
  shows "\<exists>fecs st'. GetFecPackets st = Inr (fecs, st') \<and> gen_inv sent protects max_media prev st' \<and> generated_fec_packets st' = [] \<and>
    (generated_fec_packets st = [] \<longrightarrow> st' = st) \<and> (generated_fec_packets st \<noteq> [] \<longrightarrow> media_packets st' = []) \<and>
    (\<exists>p. last_media_packet st = Some p \<and> sendable p \<and> buffer p = last (media_packets st) \<and>
       fecs = map (red_packet (red_payload_type st) (fec_payload_type st) (SetPayloadSize 0 p)) (generated_fec_packets st) \<or>
       fecs = [] \<and> generated_fec_packets st = [])"
  using assms by (auto simp: GetFecPackets_def gen_inv_def ResetState_gen_def)

locale block_encoder =
  fixes encode :: "'e \<Rightarrow> byte list list \<Rightarrow> fec_protection_params \<Rightarrow> ('e \<times> byte list list) result"
    and usable :: "'e \<Rightarrow> bool" and protects :: "byte list list \<Rightarrow> byte list \<Rightarrow> bool"
  assumes encode_batch: "usable e \<Longrightarrow> collected_batch media \<Longrightarrow> rate_ok p \<Longrightarrow>
    \<exists>e' fecs. encode e media p = Inr (e', fecs) \<and> usable e' \<and> (\<forall>f \<in> set fecs. protects media f)"
begin

lemma add_packet_returns:
  assumes "gen_inv sent protects max_media prev st" "generated_fec_packets st = []" "usable e" "protectable sent p"
    and "prev \<noteq> Some (sequence_number p)" "0 < max_media"
  shows "\<exists>e' st'. add_packet_and_generate max_media num_fec encode p e st = Inr (e', st') \<and> usable e' \<and>
    gen_inv sent protects max_media (Some (sequence_number p)) st'"
proof -
  define st1 where "st1 = add_media_packet max_media p (apply_pending_params st)"
  have s: "gen_inv sent protects max_media (Some (sequence_number p)) st1" "generated_fec_packets st1 = []" "media_packets st1 \<noteq> []"
    unfolding st1_def by (rule add_media_inv; use apply_pending_inv [OF assms(1)] assms in simp)+
  obtain b where b: "should_generate num_fec p st1 = Inr b" using should_generate_returns [OF s(3)] by blast
  have "collected_batch (media_packets st1)" "rate_ok (CurrentParams st1)"
    using s(1,3) by (auto simp: gen_inv_def CurrentParams_def)
  then obtain e' fecs where e: "encode e (media_packets st1) (CurrentParams st1) = Inr (e', fecs)" "usable e'"
    "\<forall>f \<in> set fecs. protects (media_packets st1) f" using encode_batch assms(3) by blast
  have "gen_inv sent protects max_media (Some (sequence_number p)) (st1\<lparr>generated_fec_packets := fecs\<rparr>)"
    using s(1,3) e(3) by (simp add: gen_inv_def)
  moreover have "gen_inv sent protects max_media (Some (sequence_number p)) (ResetState_gen (st1\<lparr>generated_fec_packets := fecs\<rparr>))"
    using s(1) by (simp add: gen_inv_def ResetState_gen_def)
  ultimately show ?thesis
    using s(1) b e(1,2) assms(2,3) by (cases b) (auto simp: add_packet_and_generate_def st1_def [symmetric] Let_def)
qed

end

end
