(* ===== verification/Fec_Router.thy ===== *)
theory Fec_Router
  imports RS_Generator
begin

text \<open>
  The way of a media packet through the sender: \<^verbatim>\<open>RtpSenderEgress::SendPacket\<close> gives packets to be
  protected to the FEC generator, unwrapped when they are RED packets, and \<^verbatim>\<open>PacketRouter::SendPacket\<close>
  fetches the parity packets after each packet.  The generator is the interface \<^verbatim>\<open>VideoFecGenerator\<close>.
\<close>

type_synonym protection_params = "fec_protection_params \<times> fec_protection_params"

definition egress_protect ::
  "(fec_protection_params \<Rightarrow> fec_protection_params \<Rightarrow> 'g \<Rightarrow> 'g result) \<Rightarrow> (rtp_packet_to_send \<Rightarrow> 'g \<Rightarrow> 'g result)
     \<Rightarrow> rtp_packet_to_send \<Rightarrow> protection_params option \<Rightarrow> 'g \<Rightarrow> (protection_params option \<times> 'g) result" where
  "egress_protect set_params add_packet packet pending_fec_params gen =
     (if \<not> fec_protect_packet packet then Inr (pending_fec_params, gen)
      else if packet_type packet \<noteq> Some kVideo then Inl CheckFailed
      else
        case (case pending_fec_params of None \<Rightarrow> Inr gen | Some (delta, key) \<Rightarrow> set_params delta key gen) of
          Inl e \<Rightarrow> Inl e
        | Inr gen \<Rightarrow>
            (case add_packet (if is_red packet then unpack_red packet else packet) gen of
               Inl e \<Rightarrow> Inl e
             | Inr gen \<Rightarrow> Inr (None, gen)))"

definition router_send ::
  "(fec_protection_params \<Rightarrow> fec_protection_params \<Rightarrow> 'g \<Rightarrow> 'g result) \<Rightarrow> (rtp_packet_to_send \<Rightarrow> 'g \<Rightarrow> 'g result)
     \<Rightarrow> ('g \<Rightarrow> (rtp_packet_to_send list \<times> 'g) result)
     \<Rightarrow> rtp_packet_to_send \<Rightarrow> protection_params option \<Rightarrow> 'g
     \<Rightarrow> (rtp_packet_to_send list \<times> protection_params option \<times> 'g) result" where
  "router_send set_params add_packet get_packets packet pending_fec_params gen =
     (case egress_protect set_params add_packet packet pending_fec_params gen of
        Inl e \<Rightarrow> Inl e
      | Inr (pending_fec_params, gen) \<Rightarrow>
          (case get_packets gen of
             Inl e \<Rightarrow> Inl e
           | Inr (fec_packets, gen) \<Rightarrow> Inr (fec_packets, pending_fec_params, gen)))"

text \<open>
  A run: before each packet the rate controller may have called \<^verbatim>\<open>SetFecProtectionParameters\<close>, which
  replaces the pending parameters.
\<close>

fun router_run ::
  "(rtp_packet_to_send \<Rightarrow> protection_params option \<Rightarrow> 'g \<Rightarrow> (rtp_packet_to_send list \<times> protection_params option \<times> 'g) result)
     \<Rightarrow> (protection_params option \<times> rtp_packet_to_send) list \<Rightarrow> protection_params option \<Rightarrow> 'g
     \<Rightarrow> (rtp_packet_to_send list \<times> protection_params option \<times> 'g) result" where
  "router_run send [] pending gen = Inr ([], pending, gen)"
| "router_run send ((new, packet) # rest) pending gen =
     (case send packet (case new of None \<Rightarrow> pending | Some p \<Rightarrow> Some p) gen of
        Inl e \<Rightarrow> Inl e
      | Inr (out, pending, gen) \<Rightarrow>
          (case router_run send rest pending gen of
             Inl e \<Rightarrow> Inl e
           | Inr (out', pending, gen) \<Rightarrow> Inr (out @ out', pending, gen)))"

subsection \<open>The interface of a generator\<close>

definition params_pair_ok :: "protection_params option \<Rightarrow> bool" where
  "params_pair_ok pp \<longleftrightarrow> (case pp of None \<Rightarrow> True | Some (d, k) \<Rightarrow> rate_ok d \<and> rate_ok k)"

text \<open>A packet of the media stream, plain or wrapped: what the generator is given can be protected.\<close>

definition plain :: "rtp_packet_to_send \<Rightarrow> rtp_packet_to_send" where
  "plain packet = (if is_red packet then unpack_red packet else packet)"

definition stream_packet :: "(byte list \<Rightarrow> bool) \<Rightarrow> rtp_packet_to_send \<Rightarrow> bool" where
  "stream_packet sent packet \<longleftrightarrow>
     (fec_protect_packet packet \<longrightarrow> packet_type packet = Some kVideo \<and> protectable sent (plain packet))"

locale video_fec_generator =
  fixes set_params :: "fec_protection_params \<Rightarrow> fec_protection_params \<Rightarrow> 'g \<Rightarrow> 'g result"
    and add_packet :: "rtp_packet_to_send \<Rightarrow> 'g \<Rightarrow> 'g result"
    and get_packets :: "'g \<Rightarrow> (rtp_packet_to_send list \<times> 'g) result"
    and sent :: "byte list \<Rightarrow> bool" and ready :: "u16 option \<Rightarrow> 'g \<Rightarrow> bool" and parity :: "rtp_packet_to_send \<Rightarrow> bool"
  assumes set_ready: "ready prev gen \<Longrightarrow> rate_ok d \<Longrightarrow> rate_ok k \<Longrightarrow> \<exists>gen'. set_params d k gen = Inr gen' \<and> ready prev gen'"
    and get_ready: "ready prev gen \<Longrightarrow> get_packets gen = Inr ([], gen)"
    and add_get: "ready prev gen \<Longrightarrow> protectable sent p \<Longrightarrow> prev \<noteq> Some (sequence_number p) \<Longrightarrow>
      \<exists>gen' fecs gen''. add_packet p gen = Inr gen' \<and> get_packets gen' = Inr (fecs, gen'') \<and>
        ready (Some (sequence_number p)) gen'' \<and> (\<forall>f \<in> set fecs. parity f)"
begin

lemma router_send_returns:
  assumes "ready prev gen" "params_pair_ok pending" "stream_packet sent p"
    and "fec_protect_packet p \<Longrightarrow> prev \<noteq> Some (sequence_number (plain p))"
  shows "\<exists>out pending' gen'. router_send set_params add_packet get_packets p pending gen = Inr (out, pending', gen') \<and>
    params_pair_ok pending' \<and> (\<forall>f \<in> set out. parity f) \<and>
    ready (if fec_protect_packet p then Some (sequence_number (plain p)) else prev) gen'"
proof (cases "fec_protect_packet p")
  case False
  thus ?thesis using assms(1,2) get_ready by (simp add: router_send_def egress_protect_def)
next
  case True
  have p: "packet_type p = Some kVideo" "protectable sent (plain p)" using assms(3) True by (auto simp: stream_packet_def)
  obtain gen1 where g: "(case pending of None \<Rightarrow> Inr gen | Some (delta, key) \<Rightarrow> set_params delta key gen) = Inr gen1" "ready prev gen1"
    using assms(1,2) set_ready by (fastforce simp: params_pair_ok_def split: option.splits)
  obtain gen' fecs gen'' where a: "add_packet (plain p) gen1 = Inr gen'" "get_packets gen' = Inr (fecs, gen'')"
    "ready (Some (sequence_number (plain p))) gen''" "\<forall>f \<in> set fecs. parity f"
    using add_get [OF g(2) p(2)] assms(4) True by blast
  show ?thesis
    using True p(1) g(1) a by (simp add: router_send_def egress_protect_def plain_def [symmetric] params_pair_ok_def)
qed

text \<open>A whole run returns, whatever parameters are set in between.\<close>

lemma router_run_returns:
  assumes "ready prev gen" "params_pair_ok pending" "\<forall>(new, p) \<in> set ps. params_pair_ok new \<and> stream_packet sent p"
    and "successively (\<noteq>) (case prev of None \<Rightarrow> seqs | Some s \<Rightarrow> s # seqs)"
    and "seqs = map (\<lambda>(new, p). sequence_number (plain p)) (filter (\<lambda>(new, p). fec_protect_packet p) ps)"
  shows "\<exists>out pending' gen' prev'. router_run (router_send set_params add_packet get_packets) ps pending gen = Inr (out, pending', gen') \<and>
    ready prev' gen' \<and> (\<forall>f \<in> set out. parity f)"
  using assms
proof (induction ps arbitrary: prev gen pending seqs)
  case (Cons np ps)
  obtain new p where np: "np = (new, p)" by (cases np)
  let ?pending = "case new of None \<Rightarrow> pending | Some p \<Rightarrow> Some p"
  let ?rest = "map (\<lambda>(new, p). sequence_number (plain p)) (filter (\<lambda>(new, p). fec_protect_packet p) ps)"
  let ?prev = "if fec_protect_packet p then Some (sequence_number (plain p)) else prev"
  have ok: "params_pair_ok ?pending" "stream_packet sent p" using Cons.prems(2,3) by (auto simp: np params_pair_ok_def split: option.splits)
  have "fec_protect_packet p \<Longrightarrow> prev \<noteq> Some (sequence_number (plain p))"
    using Cons.prems(4,5) by (auto simp: np split: option.splits)
  from router_send_returns [OF Cons.prems(1) ok this] obtain out pending' gen'
    where s: "router_send set_params add_packet get_packets p ?pending gen = Inr (out, pending', gen')"
      "params_pair_ok pending'" "\<forall>f \<in> set out. parity f" "ready ?prev gen'" by blast
  have "successively (\<noteq>) (case ?prev of None \<Rightarrow> ?rest | Some s \<Rightarrow> s # ?rest)"
    using Cons.prems(4,5) by (auto simp: np successively_Cons split: option.splits)
  from Cons.IH [OF s(4,2) _ this refl] Cons.prems(3) obtain out' pending'' gen'' prev'
    where "router_run (router_send set_params add_packet get_packets) ps pending' gen' = Inr (out', pending'', gen'')"
      "ready prev' gen''" "\<forall>f \<in> set out'. parity f" by auto
  thus ?case using s(1,3) by (auto simp: np)
qed auto

end

subsection \<open>The block generators provide it\<close>

definition block_set_params ::
  "fec_protection_params \<Rightarrow> fec_protection_params \<Rightarrow> 'e \<times> fec_generator \<Rightarrow> ('e \<times> fec_generator) result" where
  "block_set_params delta key gen =
     (case SetProtectionParameters delta key (snd gen) of Inl e \<Rightarrow> Inl e | Inr st \<Rightarrow> Inr (fst gen, st))"

definition block_get_packets :: "'e \<times> fec_generator \<Rightarrow> (rtp_packet_to_send list \<times> 'e \<times> fec_generator) result" where
  "block_get_packets gen =
     (case GetFecPackets (snd gen) of Inl e \<Rightarrow> Inl e | Inr (fecs, st) \<Rightarrow> Inr (fecs, fst gen, st))"

definition block_add_packet ::
  "nat \<Rightarrow> ('e \<Rightarrow> byte list list \<Rightarrow> fec_protection_params \<Rightarrow> ('e \<times> byte list list) result)
     \<Rightarrow> rtp_packet_to_send \<Rightarrow> 'e \<times> fec_generator \<Rightarrow> ('e \<times> fec_generator) result" where
  "block_add_packet max_media encode packet gen =
     add_packet_and_generate max_media NumFecPackets encode packet (fst gen) (snd gen)"

text \<open>A RED packet that carries a parity packet of a batch.\<close>

definition red_parity :: "(byte list \<Rightarrow> bool) \<Rightarrow> (byte list list \<Rightarrow> byte list \<Rightarrow> bool) \<Rightarrow> int \<Rightarrow> rtp_packet_to_send \<Rightarrow> bool" where
  "red_parity sent protects fec_pt r \<longleftrightarrow> sendable r \<and>
     (\<exists>media f. collected_batch media \<and> (\<forall>p \<in> set media. sent p) \<and> protects media f \<and> payload r = word_of_int fec_pt # f \<and>
        rtp_ssrc r = ParseSsrc (last media))"

lemma add_packet_payload_types:
  assumes "add_packet_and_generate max_media num_fec encode p e st = Inr (e', st')"
  shows "red_payload_type st' = red_payload_type st" "fec_payload_type st' = fec_payload_type st"
  using assms by (auto simp: add_packet_and_generate_def Let_def ResetState_gen_def add_media_packet_def apply_pending_params_def
    split: if_splits sum.splits option.splits prod.splits bool.splits)

lemma GetFecPackets_payload_types:
  assumes "GetFecPackets st = Inr (fecs, st')"
  shows "red_payload_type st' = red_payload_type st" "fec_payload_type st' = fec_payload_type st"
  using assms by (auto simp: GetFecPackets_def ResetState_gen_def split: if_splits option.splits)

locale block_generator = block_encoder +
  fixes sent :: "byte list \<Rightarrow> bool" and max_media :: nat and red_pt :: int and fec_pt :: int
  assumes max_media: "0 < max_media" and red_pt: "0 \<le> red_pt" "red_pt \<le> 127"
begin

definition ready :: "u16 option \<Rightarrow> 'a \<times> fec_generator \<Rightarrow> bool" where
  "ready prev gen \<longleftrightarrow> usable (fst gen) \<and> gen_inv sent protects max_media prev (snd gen) \<and> generated_fec_packets (snd gen) = [] \<and>
     red_payload_type (snd gen) = red_pt \<and> fec_payload_type (snd gen) = fec_pt"

lemma add_get_ready:
  assumes "ready prev gen" "protectable sent p" "prev \<noteq> Some (sequence_number p)"
  shows "\<exists>gen' fecs gen''. block_add_packet max_media encode p gen = Inr gen' \<and> block_get_packets gen' = Inr (fecs, gen'') \<and>
        ready (Some (sequence_number p)) gen'' \<and> (\<forall>f \<in> set fecs. red_parity sent protects fec_pt f)"
proof -
  obtain e' st' where a: "add_packet_and_generate max_media NumFecPackets encode p (fst gen) (snd gen) = Inr (e', st')" "usable e'"
    "gen_inv sent protects max_media (Some (sequence_number p)) st'"
    using add_packet_returns [of sent max_media prev "snd gen" "fst gen" p NumFecPackets] assms max_media by (auto simp: ready_def)
  obtain fecs st'' where g: "GetFecPackets st' = Inr (fecs, st'')" "gen_inv sent protects max_media (Some (sequence_number p)) st''"
    "generated_fec_packets st'' = []"
    and f: "\<exists>p. last_media_packet st' = Some p \<and> sendable p \<and> buffer p = last (media_packets st') \<and>
       fecs = map (red_packet (red_payload_type st') (fec_payload_type st') (SetPayloadSize 0 p)) (generated_fec_packets st') \<or>
       fecs = [] \<and> generated_fec_packets st' = []"
    using GetFecPackets_inv [OF a(3)] by blast
  have t: "red_payload_type st' = red_pt" "fec_payload_type st' = fec_pt" "red_payload_type st'' = red_pt" "fec_payload_type st'' = fec_pt"
    using add_packet_payload_types [OF a(1)] GetFecPackets_payload_types [OF g(1)] assms(1) by (simp_all add: ready_def)
  have "red_parity sent protects fec_pt r" if r: "r \<in> set fecs" for r
  proof -
    obtain q where q: "sendable q" "buffer q = last (media_packets st')"
      "fecs = map (red_packet red_pt fec_pt (SetPayloadSize 0 q)) (generated_fec_packets st')" using f r t by auto
    then obtain w where w: "w \<in> set (generated_fec_packets st')" "r = red_packet red_pt fec_pt (SetPayloadSize 0 q) w" using r by auto
    have "collected_batch (media_packets st')" "\<forall>p \<in> set (media_packets st'). sent p" "protects (media_packets st') w" using a(3) w(1) by (auto simp: gen_inv_def)
    moreover have "rtp_ssrc q = ParseSsrc (last (media_packets st'))"
      using q(1,2) consistent_fields(6) [of q] by (simp add: sendable_def Parse_Read32)
    ultimately show ?thesis using red_packet_sendable [OF q(1) red_pt, of fec_pt w] w(2) by (auto simp: red_parity_def)
  qed
  thus ?thesis using a g t by (simp add: block_add_packet_def block_get_packets_def ready_def)
qed

sublocale gen: video_fec_generator block_set_params "block_add_packet max_media encode" block_get_packets sent ready "red_parity sent protects fec_pt"
proof
  show "\<exists>gen'. block_set_params d k gen = Inr gen' \<and> ready prev gen'" if "ready prev gen" "rate_ok d" "rate_ok k" for prev gen d k
    using that by (auto simp: block_set_params_def SetProtectionParameters_def ready_def gen_inv_def rate_ok_def)
  show "block_get_packets gen = Inr ([], gen)" if "ready prev gen" for prev gen
    using that by (simp add: block_get_packets_def GetFecPackets_def ready_def)
qed (rule add_get_ready)

lemma initial_ready: "usable e \<Longrightarrow> ready None (e, RSfecGenerator red_pt fec_pt)"
  by (simp add: ready_def gen_inv_def RSfecGenerator_def default_params_def rate_ok_def)

text \<open>From the initial state, any stream of packets with moving sequence numbers is processed.\<close>

lemma run_returns:
  assumes "usable e" "\<forall>(new, p) \<in> set ps. params_pair_ok new \<and> stream_packet sent p"
    and "successively (\<noteq>) (map (\<lambda>(new, p). sequence_number (plain p)) (filter (\<lambda>(new, p). fec_protect_packet p) ps))"
  shows "\<exists>out pending gen.
    router_run (router_send block_set_params (block_add_packet max_media encode) block_get_packets) ps None (e, RSfecGenerator red_pt fec_pt) =
      Inr (out, pending, gen) \<and> (\<forall>r \<in> set out. red_parity sent protects fec_pt r)"
  using gen.router_run_returns [OF initial_ready [OF assms(1)], of None, OF _ assms(2) _ refl] assms(3)
  by (fastforce simp: params_pair_ok_def)

end

end
