(* ===== verification/Sender_Properties.thy ===== *)
theory Sender_Properties
  imports Fec_Router RS_Session_Properties
begin

text \<open>
  The sender with the Reed-Solomon block generator: the encoder provides the interface of a block
  encoder, and with it the properties of the way of the packets from the packetizer over RED, the
  generator and the network to the decoder.
\<close>

subsection \<open>The Reed-Solomon encoder as block encoder\<close>

definition encoder_params_ok :: "fec_params \<Rightarrow> bool" where
  "encoder_params_ok params \<longleftrightarrow> 0 \<le> generate_fec_num params \<and> generate_fec_num params \<le> 32 \<and>
     0 \<le> sint (param_M params) \<and> sint (param_M params) \<le> 32"

definition rs_protects :: "gf_op \<Rightarrow> byte list list \<Rightarrow> byte list \<Rightarrow> bool" where
  "rs_protects g media f \<longleftrightarrow> wf_media media \<and> (\<exists>c. parity_packet g media (gf_pow g 2 c) f)"

definition power_of_two :: "gf_op \<Rightarrow> int \<Rightarrow> bool" where
  "power_of_two g cur \<longleftrightarrow> (\<exists>c. cur = uint (gf_pow g 2 c))"

definition rs_add_packet ::
  "gf_op \<Rightarrow> fec_params \<Rightarrow> rtp_packet_to_send \<Rightarrow> int \<times> fec_generator \<Rightarrow> (int \<times> fec_generator) result" where
  "rs_add_packet g params packet gen = AddPacketAndGenerateFec g params packet (fst gen) (snd gen)"

lemma rs_add_packet_block: "rs_add_packet g params = block_add_packet kRSfecMaxMediaPackets (rs_encode g params)"
  by (intro ext) (simp add: rs_add_packet_def block_add_packet_def AddPacketAndGenerateFec_def)

lemma num_fec_packets_nat:
  assumes "encoder_params_ok params" "0 < n"
  shows "\<exists>k. num_fec_packets params n pf = int k \<and> (k \<le> 32 \<or> 32 < n)"
proof -
  have pf: "0 \<le> uint pf" "uint pf < 256" using unsigned_less [of pf] by simp_all
  note b = NumFecPackets_bounds [of "int n", OF _ pf]
  have "0 \<le> num_fec_packets params n pf" "num_fec_packets params n pf \<le> 32 \<or> 32 < n"
    using assms b(1,2) by (auto simp: num_fec_packets_def encoder_params_ok_def)
  thus ?thesis using zero_le_imp_eq_int [of "num_fec_packets params n pf"] by force
qed

context galois_ring
begin

lemma rs_block_encoder:
  assumes "encoder_params_ok params"
  shows "block_encoder (rs_encode gmul params) (power_of_two gmul) (rs_protects gmul)"
proof
  fix cur media p
  assume a: "power_of_two gmul cur" "collected_batch media" "rate_ok p"
  obtain c where c: "cur = uint (gf_pow gmul 2 c)" using a(1) by (auto simp: power_of_two_def)
  obtain k where k: "num_fec_packets params (length media) (word_of_int (fec_rate p)) = int k" "k \<le> 32 \<or> 32 < length media"
    using num_fec_packets_nat [OF assms, of "length media"] a(2) by (auto simp: collected_batch_def)
  from EncodeRSFec_returns [OF a(2) k, of c] obtain c' ret fecs where
    e: "EncodeRSFec gmul params cur media (word_of_int (fec_rate p)) = Inr (uint (gf_pow gmul 2 c'), ret, fecs)"
      "fecs \<noteq> [] \<longrightarrow> wf_media media" "\<forall>i < length fecs. parity_packet gmul media (gf_pow gmul 2 (c + i)) (fecs ! i)"
    unfolding c by blast
  have "rs_protects gmul media f" if "f \<in> set fecs" for f
    using e(2,3) that by (auto simp: rs_protects_def in_set_conv_nth)
  thus "\<exists>e' fecs. rs_encode gmul params cur media p = Inr (e', fecs) \<and> power_of_two gmul e' \<and> (\<forall>f \<in> set fecs. rs_protects gmul media f)"
    using e(1) by (auto simp: rs_encode_def power_of_two_def)
qed

lemma rs_block_generator:
  assumes "encoder_params_ok params" "0 \<le> red_pt" "red_pt \<le> 127"
  shows "block_generator (rs_encode gmul params) (power_of_two gmul) (rs_protects gmul) kRSfecMaxMediaPackets red_pt"
  by (intro block_generator.intro rs_block_encoder [OF assms(1)]) (use assms in \<open>simp add: block_generator_axioms_def\<close>)

end

definition block_params :: fec_params where
  "block_params = \<lparr>param_type = RSFECBlock, generate_fec_num = 0, param_M = 0\<rparr>"

lemma block_params_ok: "encoder_params_ok block_params"
  by (simp add: encoder_params_ok_def block_params_def)

interpretation rs_block: block_encoder "rs_encode gf256_mul block_params" "power_of_two gf256_mul" "rs_protects gf256_mul"
  by (rule gf256r.rs_block_encoder [OF block_params_ok])

interpretation rs_sender: block_generator "rs_encode gf256_mul block_params" "power_of_two gf256_mul" "rs_protects gf256_mul"
  "\<lambda>p. True" kRSfecMaxMediaPackets 96 97
  by (rule gf256r.rs_block_generator [OF block_params_ok]) simp_all

subsection \<open>A packet for the examples\<close>

definition example_rtp :: rtp_packet_to_send where
  "example_rtp = \<lparr>marker = False, payload_type = 96, padding_size = 0, sequence_number = 7, timestamp = 1, rtp_ssrc = 9,
     payload_offset = 12, payload_size = 1, extensions = no_extensions, extension_entries = [], extensions_size = 0,
     buffer = example_media, packet_type = Some kVideo, allow_retransmission = True, is_key_frame = False,
     fec_protect_packet = True, is_red = False\<rparr>"

lemma example_reads:
  "ReadBigEndian16 example_media 2 = 7" "ReadBigEndian32 example_media 4 = 1" "ReadBigEndian32 example_media 8 = 9"
  "length example_media = 13" "example_media ! 0 = 128" "example_media ! Suc 0 = 96" "example_media ! 12 = 42"
  by code_simp+

lemma example_rtp_sendable: "sendable example_rtp"
proof -
  have "layout_of example_media = Some \<lparr>lay_offset = 12, lay_esize = 0, lay_entries = []\<rparr>" by code_simp
  moreover have "padding_ok example_media 12" "padding_of example_media 12 = 0" by code_simp+
  ultimately show ?thesis
    by (simp add: sendable_def consistent_iff example_rtp_def example_reads)
qed

subsection \<open>The sender\<close>





text \<open>
  C32: The generator buffers up to 40 packets but the encoder protects at most 32: when parity packets are
  due for 33 to 40 buffered packets, all of them are dropped from the buffer without any protection.
\<close>

theorem block_generator_drops:
  assumes "generated_fec_packets st = []" "32 \<le> length (media_packets st)" "length (media_packets st) < 40"
    and "should_generate NumFecPackets packet (add_media_packet kRSfecMaxMediaPackets packet (apply_pending_params st)) = Inr True"
  shows "\<exists>st'. AddPacketAndGenerateFec g params packet cur st = Inr (cur, st') \<and>
    generated_fec_packets st' = [] \<and> media_packets st' = []"
proof -
  define st1 where "st1 = add_media_packet kRSfecMaxMediaPackets packet (apply_pending_params st)"
  have "32 < length (media_packets st1)"
    using assms(2,3) by (auto simp: st1_def add_media_packet_def apply_pending_params_def Let_def split: option.splits)
  hence "rs_encode g params cur (media_packets st1) (CurrentParams st1) = Inr (cur, [])"
    by (simp add: rs_encode_def EncodeRSFec_def)
  thus ?thesis using assms(1,4)
    by (simp add: AddPacketAndGenerateFec_def add_packet_and_generate_def st1_def [symmetric] Let_def ResetState_gen_def)
qed

theorem block_generator_drops_witness:
  "\<exists>st'. AddPacketAndGenerateFec gf256_mul block_params (example_rtp\<lparr>marker := True\<rparr>) 1
       ((RSfecGenerator 96 97)\<lparr>media_packets := replicate 32 example_media\<rparr>) = Inr (1, st') \<and>
     generated_fec_packets st' = [] \<and> media_packets st' = []"
  by (rule block_generator_drops)
    (simp_all add: RSfecGenerator_def apply_pending_params_def add_media_packet_def should_generate_def CurrentParams_def
      default_params_def example_rtp_def Let_def)

subsection \<open>From the sender to the decoder\<close>

lemma sent_sequence_number:
  assumes "sendable r"
  shows "sendable (SetSequenceNumber s r)" "payload (SetSequenceNumber s r) = payload r" "sequence_number (SetSequenceNumber s r) = s"
    "rtp_ssrc (SetSequenceNumber s r) = rtp_ssrc r" "length (buffer (SetSequenceNumber s r)) = length (buffer r)"
proof -
  have c: "consistent r" "buffer r ! 0 AND 0x20 = 0" using assms by (auto simp: sendable_def)
  have "buffer (SetSequenceNumber s r) ! 0 = buffer r ! 0"
    using consistent_index [OF c(1)] by (simp add: SetSequenceNumber_def nth_Write16)
  thus "sendable (SetSequenceNumber s r)" using SetSequenceNumber_consistent [OF c(1)] c(2) by (simp add: sendable_def)
  have "drop (payload_offset r) (WriteBigEndian16 (buffer r) 2 s) = drop (payload_offset r) (buffer r)"
    using consistent_bounds(1) [OF c(1)] by (simp add: WriteBigEndian16_def)
  thus "payload (SetSequenceNumber s r) = payload r" by (simp add: payload_def SetSequenceNumber_def)
  show "sequence_number (SetSequenceNumber s r) = s" "rtp_ssrc (SetSequenceNumber s r) = rtp_ssrc r"
    "length (buffer (SetSequenceNumber s r)) = length (buffer r)" by (simp_all add: SetSequenceNumber_def)
qed

definition example_receiver :: fec_receiver where
  "example_receiver = \<lparr>receiver_ssrc = 9, receiver_fec_payload_type = 97, received_packets = [], recovered_packets = [],
         packet_counter = \<lparr>num_packets = 0, num_bytes = 0, num_fec_packets_counted = 0, num_recovered_packets = 0, first_packet_time = None\<rparr>\<rparr>"

text \<open>The receiver queues a wrapped parity packet; the sequence number is assigned when it is sent.\<close>

lemma wrapped_fec_received:
  assumes "sendable p" "0 \<le> red_pt" "red_pt \<le> 127" "0 \<le> fec_pt" "fec_pt \<le> 127" "fec \<noteq> []"
    and "r = SetSequenceNumber s (red_packet red_pt fec_pt (SetPayloadSize 0 p) fec)" "length (buffer r) \<le> IP_PACKET_SIZE"
    and "receiver_ssrc st = rtp_ssrc p" "receiver_fec_payload_type st = fec_pt"
  shows "\<exists>q. Parse (buffer r) (RtpPacketReceived ids) = (True, q) \<and> fst (AddReceivedRedPacket now q st) \<and>
    received_packets (snd (AddReceivedRedPacket now q st)) = received_packets st @
      [\<lparr>rcv_ssrc = rtp_ssrc p, rcv_seq = s, rcv_is_fec = True, rcv_pkt = fec, is_recovered = False, rcv_extensions = ids\<rparr>]"
proof -
  note w = red_packet_sendable [OF assms(1-3), of fec_pt fec]
  note r = sent_sequence_number [OF w(1), of s, folded assms(7)]
  obtain q where q: "Parse (buffer r) (RtpPacketReceived ids) = (True, q)"
    using Parse_sent [of r "RtpPacketReceived ids"] r(1) unfolding sendable_def by blast
  have b: "word_of_int fec_pt \<le> (0x7f :: byte)" "uint (word_of_int fec_pt :: byte) = fec_pt"
    using assms(4,5) by (simp_all add: word_le_def unsigned_of_int take_bit_int_eq_self)
  have "payload r = word_of_int fec_pt # fec" "rtp_ssrc r = receiver_ssrc st" using r w assms(9) by simp_all
  from AddReceived_sent [OF r(1) q this(1) b(1) this(2) assms(8,6)] show ?thesis
    using q r w b(2) assms(10) by simp
qed

text \<open>
  C27: Parity packets survive the transport: a parity packet that the generator wraps in RED, with whatever
  sequence number it is sent, is parsed by the receiver and queued for the decoder byte for byte.
\<close>

theorem fec_red_round_trip:
  assumes "sendable p" "0 \<le> red_pt" "red_pt \<le> 127" "0 \<le> fec_pt" "fec_pt \<le> 127" "fec \<noteq> []"
    and "r = SetSequenceNumber s (red_packet red_pt fec_pt (SetPayloadSize 0 p) fec)" "length (buffer r) \<le> IP_PACKET_SIZE"
    and "receiver_ssrc st = rtp_ssrc p" "receiver_fec_payload_type st = fec_pt"
  shows "\<exists>q. Parse (buffer r) (RtpPacketReceived ids) = (True, q) \<and> fst (AddReceivedRedPacket now q st) \<and>
    received_packets (snd (AddReceivedRedPacket now q st)) = received_packets st @
      [\<lparr>rcv_ssrc = rtp_ssrc p, rcv_seq = s, rcv_is_fec = True, rcv_pkt = fec, is_recovered = False, rcv_extensions = ids\<rparr>]"
  by (rule wrapped_fec_received [OF assms])

theorem fec_red_round_trip_witness:
  "\<exists>q. Parse (buffer (SetSequenceNumber 8 (red_packet 96 97 (SetPayloadSize 0 example_rtp) example_parity))) (RtpPacketReceived no_extensions) = (True, q) \<and>
     received_packets (snd (AddReceivedRedPacket 0 q example_receiver)) =
       [\<lparr>rcv_ssrc = 9, rcv_seq = 8, rcv_is_fec = True, rcv_pkt = example_parity, is_recovered = False, rcv_extensions = no_extensions\<rparr>]"
proof -
  let ?r = "red_packet 96 97 (SetPayloadSize 0 example_rtp) example_parity"
  have l: "length (buffer (SetSequenceNumber 8 ?r)) \<le> IP_PACKET_SIZE"
    by (simp add: SetSequenceNumber_def red_packet_def SetPayloadSize_def SetPayloadType_def SetMarker_def WriteAt_def write_range_def
      example_rtp_def example_reads example_parity_def)
  have "rtp_ssrc example_rtp = 9" "example_parity \<noteq> []" by (simp_all add: example_rtp_def example_parity_def)
  thus ?thesis using fec_red_round_trip [OF example_rtp_sendable _ _ _ _ _ refl l, where st = example_receiver and ids = no_extensions and now = 0]
    by (auto simp: example_receiver_def)
qed





end
