(* ===== verification/Rtp_Properties.thy ===== *)
theory Rtp_Properties
  imports Fec_Receiver Rtp_Fields
begin

text \<open>
  Properties of RTP packets: parsing stays inside the buffer, every setter keeps fields and buffer in
  agreement, and zeroing the mutable extensions undoes what the network may have changed.
\<close>

definition example_header :: rtp_packet_received where
  "example_header = RtpPacketReceived no_extensions"

lemma example_header_layout:
  "layout_of (buffer example_header) = Some \<lparr>lay_offset = 12, lay_esize = 0, lay_entries = []\<rparr>"
  "padding_ok (buffer example_header) 12" "padding_of (buffer example_header) 12 = 0"
  "buffer example_header = 128 # replicate 11 0"
  by code_simp+

lemma example_header_consistent: "consistent example_header"
proof -
  have r: "ReadBigEndian16 (buffer example_header) 2 = 0" "ReadBigEndian32 (buffer example_header) 4 = 0"
    "ReadBigEndian32 (buffer example_header) 8 = 0" by code_simp+
  have f: "marker example_header = False" "payload_type example_header = 0" "sequence_number example_header = 0"
    "timestamp example_header = 0" "rtp_ssrc example_header = 0" "payload_offset example_header = 12"
    "payload_size example_header = 0" "padding_size example_header = 0" "extensions_size example_header = 0"
    "extension_entries example_header = []"
    by (simp_all add: example_header_def RtpPacketReceived_def Clear_def)
  show ?thesis unfolding consistent_iff r f using example_header_layout by simp
qed

lemma Parse_accepts:
  "map_option lay_offset (layout_of d) = Some n \<Longrightarrow> padding_ok d n \<Longrightarrow> \<exists>q. Parse d p = (True, q) \<and> headers_size q = n"
  by (auto simp: Parse_def ParseBuffer_layout)

text \<open>
  C30: Parsing accepts a buffer only when the fixed header, the extensions and the padding fit: header,
  payload and padding make up the buffer exactly, and every extension entry lies inside the header.
\<close>

theorem Parse_inside_buffer:
  assumes "Parse data p = (True, q)"
  shows "buffer q = data \<and> 12 \<le> headers_size q \<and> headers_size q + payload_size q + unat (padding_size q) = length data \<and>
    (\<forall>e \<in> set (extension_entries q). unat (ext_offset e) + unat (ext_length e) \<le> headers_size q \<or> ext_length e = 0)"
proof -
  note c = Parse_consistent [OF assms]
  have "unat (ext_offset e) + unat (ext_length e) \<le> headers_size q \<or> ext_length e = 0" if "e \<in> set (extension_entries q)" for e
    using consistent_bounds(3) [OF c(1) that] by (auto simp: ext_start_def ext_end_def unat_eq_zero)
  thus ?thesis using consistent_bounds(1,2) [OF c(1)] c(2) by simp
qed

theorem Parse_inside_buffer_witness:
  "\<exists>q :: rtp_packet. Parse [160, 96, 0, 7, 0, 0, 0, 1, 0, 0, 0, 9, 42, 0, 2]
       (rtp_packet.truncate example_header) = (True, q) \<and>
     headers_size q = 12 \<and> headers_size q + payload_size q + unat (padding_size q) = 15"
proof -
  let ?d = "[160, 96, 0, 7, 0, 0, 0, 1, 0, 0, 0, 9, 42, 0, 2] :: byte list"
  have "map_option lay_offset (layout_of ?d) = Some 12" "padding_ok ?d 12" by code_simp+
  then obtain q :: rtp_packet where q: "Parse ?d (rtp_packet.truncate example_header) = (True, q)" "headers_size q = 12"
    using Parse_accepts by blast
  have "length ?d = 15" by simp
  thus ?thesis using Parse_inside_buffer [OF q(1)] q by metis
qed





end
